(* ===== verification/H3_Prelude.thy ===== *)
theory H3_Prelude
  imports Main "HOL-Library.Word" "HOL-Library.Multiset"
begin

text \<open>
  Shared ground of the development: the C integer types the module uses, the status
  codes of APR and httpd, decimal printing as done by \<^verbatim>\<open>printf\<close>, the block heap on which
  the linked lists of the module live, the swap-with-last removal both session arrays
  use, and finite interaction trees, which stand for a call into a library that calls
  back into the module.
\<close>

named_theorems h3_inv \<open>an operation keeps an invariant\<close>
named_theorems h3_frame \<open>what an operation leaves unchanged\<close>

section \<open>C types and status codes\<close>

type_synonym byte = "8 word"
type_synonym apr_port_t = "16 word"
type_synonym uint32_t = "32 word"
type_synonym uint64_t = "64 word"
type_synonym size_t = "64 word"

datatype apr_status =
    APR_SUCCESS
  | APR_EGENERAL
  | APR_EINVAL
  | APR_ENOMEM
  | APR_EAGAIN
  | APR_ERANGE
  | APR_EOF
  | APR_TIMEUP
  | APR_ECONNABORTED
  | APR_EADDRINUSE
  | APR_EOTHER nat

definition SIZE_MAX :: size_t where
  "SIZE_MAX = 18446744073709551615"

definition OK :: int where "OK = 0"
definition DECLINED :: int where "DECLINED = -1"
definition HTTP_OK :: int where "HTTP_OK = 200"
definition HTTP_BAD_REQUEST :: int where "HTTP_BAD_REQUEST = 400"
definition HTTP_REQUEST_ENTITY_TOO_LARGE :: int where "HTTP_REQUEST_ENTITY_TOO_LARGE = 413"
definition HTTP_INTERNAL_SERVER_ERROR :: int where "HTTP_INTERNAL_SERVER_ERROR = 500"

lemmas http_codes = OK_def DECLINED_def HTTP_OK_def HTTP_BAD_REQUEST_def
  HTTP_REQUEST_ENTITY_TOO_LARGE_def HTTP_INTERNAL_SERVER_ERROR_def

section \<open>Decimal printing\<close>

definition digit_char :: "nat \<Rightarrow> char" where
  "digit_char d = char_of (48 + d)"

fun print_dec :: "nat \<Rightarrow> string" where
  "print_dec n = (if n < 10 then [digit_char n] else print_dec (n div 10) @ [digit_char (n mod 10)])"

declare print_dec.simps [simp del]

fun read_dec :: "nat \<Rightarrow> string \<Rightarrow> nat" where
  "read_dec acc [] = acc"
| "read_dec acc (c # cs) = read_dec (acc * 10 + (of_char c - 48)) cs"

lemma read_dec_append: "read_dec acc (xs @ ys) = read_dec (read_dec acc xs) ys"
  by (induction acc xs rule: read_dec.induct) auto

lemma of_char_digit: "d < 10 \<Longrightarrow> (of_char (digit_char d) :: nat) = 48 + d"
  by (simp add: digit_char_def)

lemma read_print_dec: "read_dec 0 (print_dec n) = n"
proof (induction n rule: print_dec.induct)
  case (1 n)
  show ?case
  proof (cases "n < 10")
    case True
    then show ?thesis by (subst print_dec.simps) (simp add: of_char_digit)
  next
    case False
    with "1.IH" have "read_dec 0 (print_dec (n div 10)) = n div 10" by simp
    with False show ?thesis
      by (subst print_dec.simps) (simp add: read_dec_append of_char_digit)
  qed
qed

lemma print_dec_inj: "print_dec m = print_dec n \<Longrightarrow> m = n"
  by (metis read_print_dec)

section \<open>Word arithmetic without wrap-around\<close>

lemma unat_add_64: "unat (a :: 64 word) + unat b < 2 ^ 64 \<Longrightarrow> unat (a + b) = unat a + unat b"
  by (simp add: unat_word_ariths)

lemma unat_sub_64: "unat (b :: 64 word) \<le> unat a \<Longrightarrow> unat (a - b) = unat a - unat b"
  by (simp add: unat_sub word_le_nat_alt)

lemma unat_of_nat_64: "n < 2 ^ 64 \<Longrightarrow> unat (of_nat n :: 64 word) = n"
  by (simp add: unat_of_nat take_bit_nat_eq_self)

lemma unat_lt_64 [simp]: "unat (a :: 64 word) < 18446744073709551616"
proof -
  have "unat a < 2 ^ LENGTH(64)" by (rule unsigned_less)
  then show ?thesis by simp
qed

lemma unat_le_SIZE_MAX: "unat (a :: 64 word) \<le> unat SIZE_MAX"
  using unat_lt_64 [of a] by (simp add: SIZE_MAX_def del: unat_lt_64)

lemma unat_SIZE_MAX [simp]: "unat SIZE_MAX = 18446744073709551615"
  by (simp add: SIZE_MAX_def)


section \<open>A block heap\<close>

text \<open>
  The C heap as far as the module's linked lists need it: block \<open>a\<close> holds a node, or
  \<open>None\<close> once it was freed. \<^verbatim>\<open>malloc\<close> takes a block that was never used, so a pointer to a
  freed block never aliases a live one, and reading through such a pointer is visible in
  the model: \<open>deref\<close> gives \<open>None\<close>.
\<close>

type_synonym addr = nat
type_synonym 'n heap = "'n option list"

definition deref :: "'n heap \<Rightarrow> addr \<Rightarrow> 'n option" where
  "deref h a = (if a < length h then h ! a else None)"

definition heap_alloc :: "'n heap \<Rightarrow> 'n \<Rightarrow> addr \<times> 'n heap" where
  "heap_alloc h n = (length h, h @ [Some n])"

definition heap_free :: "'n heap \<Rightarrow> addr \<Rightarrow> 'n heap" where
  "heap_free h a = h[a := None]"

definition heap_set :: "'n heap \<Rightarrow> addr \<Rightarrow> 'n \<Rightarrow> 'n heap" where
  "heap_set h a n = h[a := Some n]"

definition live_blocks :: "'n heap \<Rightarrow> nat" where
  "live_blocks h = length (filter (\<lambda>c. c \<noteq> None) h)"

lemma deref_lt: "deref h a = Some n \<Longrightarrow> a < length h"
  by (auto simp: deref_def split: if_splits)

lemma deref_free: "deref (heap_free h a) b = (if a = b then None else deref h b)"
  by (auto simp: deref_def heap_free_def nth_list_update)

lemma deref_set: "a < length h \<Longrightarrow> deref (heap_set h a n) b = (if a = b then Some n else deref h b)"
  by (auto simp: deref_def heap_set_def nth_list_update)

lemma deref_alloc: "deref (h @ [Some n]) b = (if b = length h then Some n else deref h b)"
  by (auto simp: deref_def nth_append)

lemma length_heap_set [simp]: "length (heap_set h a n) = length h"
  by (simp add: heap_set_def)

lemma length_heap_free [simp]: "length (heap_free h a) = length h"
  by (simp add: heap_free_def)

lemma live_blocks_free:
  assumes "deref h a = Some n"
  shows "live_blocks (heap_free h a) < live_blocks h"
proof -
  from assms have a: "a < length h" "h ! a \<noteq> None"
    by (auto simp: deref_def split: if_splits)
  have h: "h = take a h @ h ! a # drop (Suc a) h"
    using a(1) by (rule id_take_nth_drop)
  have "h[a := None] = take a h @ None # drop (Suc a) h"
    using a(1) by (rule upd_conv_take_nth_drop)
  then show ?thesis
    using a(2) arg_cong [OF h, where f = "\<lambda>x. length (filter (\<lambda>c. c \<noteq> None) x)"]
    by (simp add: live_blocks_def heap_free_def)
qed

lemma live_blocks_set: "deref h a = Some m \<Longrightarrow> live_blocks (heap_set h a n) = live_blocks h"
proof -
  assume "deref h a = Some m"
  then have a: "a < length h" "h ! a = Some m"
    by (auto simp: deref_def split: if_splits)
  have h: "h = take a h @ h ! a # drop (Suc a) h"
    using a(1) by (rule id_take_nth_drop)
  have "h[a := Some n] = take a h @ Some n # drop (Suc a) h"
    using a(1) by (rule upd_conv_take_nth_drop)
  then show ?thesis
    using a(2) arg_cong [OF h, where f = "\<lambda>x. length (filter (\<lambda>c. c \<noteq> None) x)"]
    by (simp add: live_blocks_def heap_set_def)
qed

text \<open>
  A list segment: following the \<open>next\<close> field \<open>nx\<close> from \<open>p\<close> one meets exactly the live
  blocks \<open>as\<close> and then the pointer \<open>q\<close>.
\<close>

fun lseg :: "('n \<Rightarrow> addr option) \<Rightarrow> 'n heap \<Rightarrow> addr option \<Rightarrow> addr list \<Rightarrow> addr option \<Rightarrow> bool" where
  "lseg nx h p [] q \<longleftrightarrow> p = q"
| "lseg nx h p (a # as) q \<longleftrightarrow>
     p = Some a \<and> (case deref h a of None \<Rightarrow> False | Some n \<Rightarrow> lseg nx h (nx n) as q)"

lemma lseg_Cons: "lseg nx h p (a # as) q \<longleftrightarrow> p = Some a \<and> (\<exists>n. deref h a = Some n \<and> lseg nx h (nx n) as q)"
  by (auto split: option.splits)

declare lseg.simps(2) [simp del]

lemma lseg_append: "lseg nx h p (as @ bs) q \<longleftrightarrow> (\<exists>r. lseg nx h p as r \<and> lseg nx h r bs q)"
  by (induction as arbitrary: p) (auto simp: lseg_Cons)

lemma lseg_None: "lseg nx h None as None \<longleftrightarrow> as = []"
  by (cases as) (auto simp: lseg_Cons)

lemma lseg_unique: "lseg nx h p as None \<Longrightarrow> lseg nx h p bs None \<Longrightarrow> as = bs"
proof (induction as arbitrary: p bs)
  case Nil
  then show ?case by (cases bs) (auto simp: lseg_Cons)
next
  case (Cons a as)
  then show ?case by (cases bs) (auto simp: lseg_Cons)
qed

lemma lseg_live: "lseg nx h p as q \<Longrightarrow> a \<in> set as \<Longrightarrow> \<exists>n. deref h a = Some n"
  by (induction as arbitrary: p) (auto simp: lseg_Cons)

lemma lseg_cong: "(\<And>a. a \<in> set as \<Longrightarrow> deref h' a = deref h a) \<Longrightarrow> lseg nx h' p as q = lseg nx h p as q"
  by (induction as arbitrary: p) (auto simp: lseg_Cons)

lemma lseg_cong_next:
  "(\<And>a. a \<in> set as \<Longrightarrow> map_option nx (deref h' a) = map_option nx (deref h a)) \<Longrightarrow> lseg nx h' p as q = lseg nx h p as q"
proof (induction as arbitrary: p)
  case Nil
  then show ?case by simp
next
  case (Cons a as)
  have "map_option nx (deref h' a) = map_option nx (deref h a)" by (rule Cons.prems) simp
  then show ?case using Cons by (cases "deref h a"; cases "deref h' a") (auto simp: lseg_Cons)
qed

lemma lseg_suffix_None:
  assumes "lseg nx h p (as @ a # bs) None"
  shows "a \<notin> set bs"
proof
  assume "a \<in> set bs"
  then obtain cs ds where bs: "bs = cs @ a # ds" by (meson split_list)
  from assms obtain r where r: "lseg nx h r (a # bs) None" by (auto simp: lseg_append)
  then have ra: "r = Some a" by (simp add: lseg_Cons)
  from r obtain n where n: "deref h a = Some n" "lseg nx h (nx n) bs None" by (auto simp: lseg_Cons)
  from n(2) bs obtain r' where "lseg nx h r' (a # ds) None" by (auto simp: lseg_append)
  moreover from this have "r' = Some a" by (simp add: lseg_Cons)
  ultimately have "lseg nx h r (a # ds) None" using ra by simp
  then have "a # bs = a # ds" by (rule lseg_unique [OF r])
  with bs show False by simp
qed

lemma lseg_distinct: "lseg nx h p as None \<Longrightarrow> distinct as"
proof (induction as arbitrary: p)
  case Nil
  then show ?case by simp
next
  case (Cons a as)
  have "a \<notin> set as" using lseg_suffix_None [of nx h p "[]" a as] Cons.prems by simp
  moreover have "distinct as" using Cons by (auto simp: lseg_Cons)
  ultimately show ?case by simp
qed

lemma lseg_length: "lseg nx h p as None \<Longrightarrow> length as \<le> length h"
proof -
  assume l: "lseg nx h p as None"
  have "set as \<subseteq> {..<length h}" using lseg_live [OF l] by (auto dest: deref_lt)
  then have "card (set as) \<le> length h" using card_mono [of "{..<length h}" "set as"] by simp
  then show ?thesis using lseg_distinct [OF l] by (simp add: distinct_card)
qed

text \<open>The list a pointer heads, by following \<open>next\<close> for as many steps as there are blocks.\<close>

fun chain :: "('n \<Rightarrow> addr option) \<Rightarrow> 'n heap \<Rightarrow> nat \<Rightarrow> addr option \<Rightarrow> addr list" where
  "chain nx h 0 p = []"
| "chain nx h (Suc k) p =
     (case p of None \<Rightarrow> []
      | Some a \<Rightarrow> (case deref h a of None \<Rightarrow> [] | Some n \<Rightarrow> a # chain nx h k (nx n)))"

lemma chain_lseg: "lseg nx h p as None \<Longrightarrow> length as \<le> k \<Longrightarrow> chain nx h k p = as"
proof (induction as arbitrary: p k)
  case Nil
  then show ?case by (cases k) auto
next
  case (Cons a as)
  then show ?case by (cases k) (auto simp: lseg_Cons)
qed

definition chain_of :: "('n \<Rightarrow> addr option) \<Rightarrow> 'n heap \<Rightarrow> addr option \<Rightarrow> addr list" where
  "chain_of nx h p = chain nx h (length h) p"

lemma chain_of_lseg: "lseg nx h p as None \<Longrightarrow> chain_of nx h p = as"
  by (simp add: chain_of_def chain_lseg lseg_length)

text \<open>Linking a fresh block behind the last one.\<close>

lemma lseg_link_tail:
  assumes l: "lseg nx h p (as @ [a]) None" and n: "deref h a = Some n"
    and b: "deref h b = None" and n': "nx n' = Some b" and m: "nx m = None"
    and h': "deref h' a = Some n'" "deref h' b = Some m"
    and o: "\<And>c. c \<noteq> a \<Longrightarrow> c \<noteq> b \<Longrightarrow> deref h' c = deref h c"
  shows "lseg nx h' p (as @ [a, b]) None"
proof -
  have d: "distinct (as @ [a])" using l by (rule lseg_distinct)
  have nb: "b \<notin> set as" using lseg_live [OF l, of b] b by auto
  have "lseg nx h' p as r = lseg nx h p as r" for r
  proof (rule lseg_cong)
    fix c assume "c \<in> set as"
    with d nb have "c \<noteq> a" "c \<noteq> b" by auto
    then show "deref h' c = deref h c" by (rule o)
  qed
  moreover have "lseg nx h p as (Some a)" using l by (auto simp: lseg_append lseg_Cons)
  ultimately have "lseg nx h' p as (Some a)" by simp
  then show ?thesis using h' n' m by (auto simp: lseg_append lseg_Cons)
qed

section \<open>Linked queues\<close>

text \<open>
  Both linked lists of the module keep a head and a tail pointer: the received datagrams
  of \<^verbatim>\<open>h3q_addr.c\<close> and the response chunks of \<^verbatim>\<open>h3_session.c\<close>.
\<close>

definition lqueue :: "('n \<Rightarrow> addr option) \<Rightarrow> 'n heap \<Rightarrow> addr option \<Rightarrow> addr option \<Rightarrow> addr list \<Rightarrow> bool" where
  "lqueue nx h hd_p tl_p as \<longleftrightarrow> lseg nx h hd_p as None \<and> tl_p = (if as = [] then None else Some (last as))"

lemma lqueue_empty [simp]: "lqueue nx h None None []"
  by (simp add: lqueue_def)

lemma lqueue_head: "lqueue nx h p q as \<Longrightarrow> p = None \<longleftrightarrow> as = []"
  by (cases as) (auto simp: lqueue_def lseg_Cons)

lemma lqueue_chain: "lqueue nx h p q as \<Longrightarrow> chain_of nx h p = as"
  by (simp add: lqueue_def chain_of_lseg)

lemma lqueue_tail:
  "lqueue nx h p q as \<Longrightarrow> as \<noteq> [] \<Longrightarrow> q = Some (last as) \<and> (\<exists>n. deref h (last as) = Some n \<and> nx n = None)"
  by (cases as rule: rev_cases) (auto simp: lqueue_def lseg_append lseg_Cons)

lemma lqueue_push_empty:
  "nx n = None \<Longrightarrow> lqueue nx (h @ [Some n]) (Some (length h)) (Some (length h)) [length h]"
  by (simp add: lqueue_def lseg_Cons deref_alloc)

lemma lqueue_push:
  assumes q: "lqueue nx h p (Some t) as" and t: "deref h t = Some m"
    and nx: "nx n = None" "nx m' = Some (length h)"
  shows "lqueue nx (heap_set (h @ [Some n]) t m') p (Some (length h)) (as @ [length h])"
proof -
  from q obtain bs where as: "as = bs @ [t]"
    by (cases as rule: rev_cases) (auto simp: lqueue_def split: if_splits)
  have lt: "t < length h" using t by (rule deref_lt)
  have d: "deref (heap_set (h @ [Some n]) t m') c =
      (if c = t then Some m' else if c = length h then Some n else deref h c)" for c
    using lt by (auto simp: deref_set deref_alloc)
  have "deref h (length h) = None" by (simp add: deref_def)
  moreover have "lseg nx h p (bs @ [t]) None" using q as by (simp add: lqueue_def)
  ultimately have "lseg nx (heap_set (h @ [Some n]) t m') p (bs @ [t, length h]) None"
    using t nx lt by (intro lseg_link_tail [where h = h and n = m and n' = m' and m = n]) (auto simp: d)
  then show ?thesis using as by (simp add: lqueue_def)
qed

lemma lqueue_drop:
  assumes q: "lqueue nx h p tl_p (a # as)" and n: "deref h a = Some n"
  shows "p = Some a \<and> (nx n = None \<longleftrightarrow> as = []) \<and>
    lqueue nx (heap_free h a) (nx n) (if nx n = None then None else tl_p) as"
proof -
  have l: "lseg nx h p (a # as) None" using q by (simp add: lqueue_def)
  then have "a \<notin> set as" using lseg_distinct by fastforce
  then have "lseg nx (heap_free h a) (nx n) as None = lseg nx h (nx n) as None"
    by (intro lseg_cong) (auto simp: deref_free)
  moreover have *: "p = Some a" "lseg nx h (nx n) as None" using l n by (auto simp: lseg_Cons)
  moreover have "nx n = None \<longleftrightarrow> as = []" using *(2) by (cases as) (auto simp: lseg_Cons)
  ultimately show ?thesis using q by (auto simp: lqueue_def)
qed

lemma lqueue_cong:
  "(\<And>a. a \<in> set as \<Longrightarrow> deref h' a = deref h a) \<Longrightarrow> lqueue nx h' p q as = lqueue nx h p q as"
  using lseg_cong [of as h' h nx p None] by (simp add: lqueue_def)

lemma lqueue_cong_next:
  "(\<And>a. a \<in> set as \<Longrightarrow> map_option nx (deref h' a) = map_option nx (deref h a)) \<Longrightarrow>
   lqueue nx h' p q as = lqueue nx h p q as"
  using lseg_cong_next [of as nx h' h p None] by (simp add: lqueue_def)

text \<open>The loop that frees a whole list; \<open>None\<close> is a read through a freed pointer.\<close>

function free_chain :: "('n \<Rightarrow> addr option) \<Rightarrow> 'n heap \<Rightarrow> addr option \<Rightarrow> 'n heap option" where
  "free_chain nx h None = Some h"
| "free_chain nx h (Some a) =
    (case deref h a of None \<Rightarrow> None | Some n \<Rightarrow> free_chain nx (heap_free h a) (nx n))"
  by pat_completeness auto
termination
  by (relation "measure (\<lambda>(nx, h, p). live_blocks h)") (auto intro: live_blocks_free)

declare free_chain.simps(2) [simp del]

lemma free_chain_lseg:
  "lseg nx h p as None \<Longrightarrow>
   \<exists>h'. free_chain nx h p = Some h' \<and> length h' = length h \<and>
        (\<forall>b. deref h' b = (if b \<in> set as then None else deref h b))"
proof (induction as arbitrary: h p)
  case Nil
  then show ?case by simp
next
  case (Cons a as)
  then obtain n where n: "p = Some a" "deref h a = Some n" "lseg nx h (nx n) as None"
    by (auto simp: lseg_Cons)
  have "a \<notin> set as" using lseg_distinct [OF Cons.prems] by simp
  then have "lseg nx (heap_free h a) (nx n) as None"
    using n(3) by (subst lseg_cong [where h = h]) (auto simp: deref_free)
  from Cons.IH [OF this] show ?case using n by (auto simp: free_chain.simps(2) deref_free)
qed

text \<open>
  What the module relies on in either list, as an interface: elements are pushed at the
  tail and dropped at the head, and the whole list can be cleared. The model's two lists
  are instances; the lemmas below are proved once.
\<close>

locale fifo_contract =
  fixes inv :: "'s \<Rightarrow> bool"
    and items :: "'s \<Rightarrow> 'x list"
    and good :: "'x \<Rightarrow> bool"
    and push :: "'x \<Rightarrow> 's \<Rightarrow> 's option"
    and drop_first :: "'s \<Rightarrow> 's option"
    and clear :: "'s \<Rightarrow> 's option"
  assumes push_law: "inv s \<Longrightarrow> good x \<Longrightarrow> \<exists>s'. push x s = Some s' \<and> inv s' \<and> items s' = items s @ [x]"
    and drop_law: "inv s \<Longrightarrow> items s = x # xs \<Longrightarrow> \<exists>s'. drop_first s = Some s' \<and> inv s' \<and> items s' = xs"
    and clear_law: "inv s \<Longrightarrow> \<exists>s'. clear s = Some s' \<and> inv s' \<and> items s' = []"
begin

fun push_all :: "'x list \<Rightarrow> 's \<Rightarrow> 's option" where
  "push_all [] s = Some s"
| "push_all (x # xs) s = Option.bind (push x s) (push_all xs)"

fun drop_many :: "nat \<Rightarrow> 's \<Rightarrow> 's option" where
  "drop_many 0 s = Some s"
| "drop_many (Suc n) s = Option.bind (drop_first s) (drop_many n)"

lemma push_all_items:
  "inv s \<Longrightarrow> list_all good xs \<Longrightarrow> \<exists>s'. push_all xs s = Some s' \<and> inv s' \<and> items s' = items s @ xs"
proof (induction xs arbitrary: s)
  case Nil
  then show ?case by simp
next
  case (Cons x xs)
  from push_law [of s x] Cons.prems obtain s1 where "push x s = Some s1" "inv s1" "items s1 = items s @ [x]"
    by auto
  with Cons.IH [of s1] Cons.prems show ?case by auto
qed

lemma drop_many_items:
  "inv s \<Longrightarrow> n \<le> length (items s) \<Longrightarrow> \<exists>s'. drop_many n s = Some s' \<and> inv s' \<and> items s' = drop n (items s)"
proof (induction n arbitrary: s)
  case 0
  then show ?case by simp
next
  case (Suc n)
  then obtain x xs where x: "items s = x # xs" by (cases "items s") auto
  with Suc.prems drop_law obtain s1 where "drop_first s = Some s1" "inv s1" "items s1 = xs" by blast
  with Suc.IH [of s1] Suc.prems x show ?case by auto
qed

text \<open>What is pushed leaves in the order it came: after any number of drops the rest is a suffix.\<close>

lemma push_drop_order:
  assumes "inv s" and "items s = []" and "list_all good xs" and "n \<le> length xs"
  shows "\<exists>s' s''. push_all xs s = Some s' \<and> drop_many n s' = Some s'' \<and> inv s'' \<and> items s'' = drop n xs"
proof -
  from push_all_items [OF assms(1,3)] assms(2) obtain s' where
    s': "push_all xs s = Some s'" "inv s'" "items s' = xs" by auto
  from drop_many_items [OF s'(2), of n] s'(3) assms(4) s'(1) show ?thesis by auto
qed

end

section \<open>Removal by swapping with the last element\<close>

definition swap_remove :: "'a list \<Rightarrow> nat \<Rightarrow> 'a list" where
  "swap_remove xs i = butlast (if i < length xs - 1 then xs[i := xs ! (length xs - 1)] else xs)"

lemma length_swap_remove [simp]: "length (swap_remove xs i) = length xs - 1"
  by (simp add: swap_remove_def)

lemma swap_remove_snoc:
  "swap_remove (ys @ [z]) i = (if i < length ys then ys[i := z] else ys)"
  by (simp add: swap_remove_def nth_append list_update_append)

lemma mset_swap_remove:
  assumes "i < length xs"
  shows "mset xs = add_mset (xs ! i) (mset (swap_remove xs i))"
proof -
  from assms obtain ys z where xs: "xs = ys @ [z]" by (cases xs rule: rev_cases) auto
  show ?thesis
  proof (cases "i < length ys")
    case True
    then have "mset ys = add_mset (ys ! i) (mset ys - {#ys ! i#})" by simp
    with True xs show ?thesis
      by (simp add: swap_remove_snoc nth_append mset_update)
  next
    case False
    with assms xs have "i = length ys" by simp
    with xs show ?thesis by (simp add: swap_remove_snoc)
  qed
qed

lemma set_swap_remove: "set (swap_remove xs i) \<subseteq> set xs"
proof (cases "xs" rule: rev_cases)
  case Nil
  then show ?thesis by (simp add: swap_remove_def)
next
  case (snoc ys z)
  then show ?thesis using set_update_subset_insert [of ys i z] by (auto simp: swap_remove_snoc)
qed

section \<open>Loops without a bound in the code\<close>

text \<open>
  A loop whose number of rounds the code does not bound runs on fuel. Running out of fuel is
  kept apart from returning and from undefined behaviour, so that termination is a theorem.
\<close>

datatype 'a c_run = Done 'a | Undefined | Out_of_fuel

text \<open>Running one piece of code after another.\<close>

definition run_then :: "'a c_run \<Rightarrow> ('a \<Rightarrow> 'b c_run) \<Rightarrow> 'b c_run" where
  "run_then r f = (case r of Done a \<Rightarrow> f a | Undefined \<Rightarrow> Undefined | Out_of_fuel \<Rightarrow> Out_of_fuel)"

section \<open>Calls into a library that calls back\<close>

text \<open>
  A call into nghttp3 or OpenSSL may call back into the module any number of times before
  it returns, and what it does next may depend on what the callback returned. Such a call
  is a finite tree: either it returns, or it makes a call \<open>q\<close> and goes on with the answer.
  The tree is a parameter of the definitions below, so a theorem over every tree holds
  whatever the library does.
\<close>

datatype ('q, 'r, 'a) itree = Ret 'a | Vis 'q "'r \<Rightarrow> ('q, 'r, 'a) itree"

primrec run_itree :: "('q \<Rightarrow> 's \<Rightarrow> 'r \<times> 's) \<Rightarrow> ('q, 'r, 'a) itree \<Rightarrow> 's \<Rightarrow> 'a \<times> 's" where
  "run_itree f (Ret a) s = (a, s)"
| "run_itree f (Vis q k) s = run_itree f (k (fst (f q s))) (snd (f q s))"

text \<open>
  The library keeps its own promises about the calls it makes: \<open>allowed q s\<close> is what it
  documents of call \<open>q\<close> in state \<open>s\<close>, and a tree behaves when every call it makes is allowed.
\<close>

primrec behaves :: "('q \<Rightarrow> 's \<Rightarrow> 'r \<times> 's) \<Rightarrow> ('q \<Rightarrow> 's \<Rightarrow> bool) \<Rightarrow> ('q, 'r, 'a) itree \<Rightarrow> 's \<Rightarrow> bool" where
  "behaves f allowed (Ret a) s = True"
| "behaves f allowed (Vis q k) s = (allowed q s \<and> behaves f allowed (k (fst (f q s))) (snd (f q s)))"

locale callback_contract =
  fixes handle :: "'q \<Rightarrow> 's \<Rightarrow> 'r \<times> 's"
    and allowed :: "'q \<Rightarrow> 's \<Rightarrow> bool"
    and inv :: "'s \<Rightarrow> bool"
  assumes handle_inv: "inv s \<Longrightarrow> allowed q s \<Longrightarrow> inv (snd (handle q s))"
begin

lemma run_inv: "inv s \<Longrightarrow> behaves handle allowed t s \<Longrightarrow> inv (snd (run_itree handle t s))"
  by (induction t arbitrary: s) (auto simp: handle_inv)

end

end
