(* ===== verification/H3_Config.thy ===== *)
theory H3_Config
  imports H3_Prelude
begin

text \<open>
  The per-server configuration of the module (\<^verbatim>\<open>include/h3.h\<close>, \<^verbatim>\<open>include/h3_config.h\<close>,
  \<^verbatim>\<open>src/h3_config.c\<close>) and the choice of the virtual host that owns the listener
  (\<^verbatim>\<open>find_h3_server\<close> of \<^verbatim>\<open>src/h3_server.c\<close>). A directive handler returns the new
  configuration and \<open>None\<close>, or the unchanged configuration and \<open>Some\<close> message; a failed
  \<^verbatim>\<open>CHECK\<close> aborts the process, which is the value \<open>None\<close> of the outer option type. The two
  APR number parsers, the run-state query and the test whether a file can be opened are
  parameters.
\<close>

section \<open>Limits and defaults\<close>

definition H3_MAX_CONCURRENT_STREAMS_DEFAULT :: uint32_t where "H3_MAX_CONCURRENT_STREAMS_DEFAULT = 100"
definition H3_MAX_CONCURRENT_STREAMS_MAX :: nat where "H3_MAX_CONCURRENT_STREAMS_MAX = 1000"
definition H3_MAX_CONNECTIONS_DEFAULT :: uint32_t where "H3_MAX_CONNECTIONS_DEFAULT = 256"
definition H3_MAX_CONNECTIONS_MAX :: nat where "H3_MAX_CONNECTIONS_MAX = 10000"
definition H3_STREAM_BUFFER_SIZE_DEFAULT :: size_t where "H3_STREAM_BUFFER_SIZE_DEFAULT = 64 * 1024"
definition H3_STREAM_BUFFER_SIZE_MAX :: nat where "H3_STREAM_BUFFER_SIZE_MAX = 1024 * 1024"
definition H3_MAX_REQUEST_BODY_SIZE_DEFAULT :: size_t where "H3_MAX_REQUEST_BODY_SIZE_DEFAULT = 10 * 1024 * 1024"
definition H3_MAX_REQUEST_BODY_SIZE_MAX :: nat where "H3_MAX_REQUEST_BODY_SIZE_MAX = 1024 * 1024 * 1024"
definition H3_MAX_RESPONSE_BODY_SIZE_DEFAULT :: size_t where "H3_MAX_RESPONSE_BODY_SIZE_DEFAULT = SIZE_MAX"
definition H3_MAX_RESPONSE_BODY_SIZE_MAX :: nat where "H3_MAX_RESPONSE_BODY_SIZE_MAX = 2 * 1024 * 1024 * 1024"
definition H3_ALT_SVC_MAX_AGE_DEFAULT :: uint32_t where "H3_ALT_SVC_MAX_AGE_DEFAULT = 86400"
definition H3_ALT_SVC_MAX_AGE_MAX :: nat where "H3_ALT_SVC_MAX_AGE_MAX = 7 * 24 * 3600"
definition H3_HANDSHAKE_TIMEOUT_DEFAULT :: uint32_t where "H3_HANDSHAKE_TIMEOUT_DEFAULT = 10"
definition H3_HANDSHAKE_TIMEOUT_MAX :: nat where "H3_HANDSHAKE_TIMEOUT_MAX = 600"
definition H3_IDLE_TIMEOUT_DEFAULT :: uint32_t where "H3_IDLE_TIMEOUT_DEFAULT = 300"
definition H3_IDLE_TIMEOUT_MAX :: nat where "H3_IDLE_TIMEOUT_MAX = 86400"
definition H3_GOAWAY_GRACE_SECS :: int where "H3_GOAWAY_GRACE_SECS = 3"
definition H3_BODY_BUF_INIT_CAP :: size_t where "H3_BODY_BUF_INIT_CAP = 8 * 1024"
definition STREAM_CHUNK_BYTES :: size_t where "STREAM_CHUNK_BYTES = 4 * 1024"
definition UINT16_MAX :: nat where "UINT16_MAX = 65535"

lemmas h3_limits = H3_MAX_CONCURRENT_STREAMS_DEFAULT_def H3_MAX_CONCURRENT_STREAMS_MAX_def
  H3_MAX_CONNECTIONS_DEFAULT_def H3_MAX_CONNECTIONS_MAX_def H3_STREAM_BUFFER_SIZE_DEFAULT_def
  H3_STREAM_BUFFER_SIZE_MAX_def H3_MAX_REQUEST_BODY_SIZE_DEFAULT_def H3_MAX_REQUEST_BODY_SIZE_MAX_def
  H3_MAX_RESPONSE_BODY_SIZE_DEFAULT_def H3_MAX_RESPONSE_BODY_SIZE_MAX_def H3_ALT_SVC_MAX_AGE_DEFAULT_def
  H3_ALT_SVC_MAX_AGE_MAX_def H3_HANDSHAKE_TIMEOUT_DEFAULT_def H3_HANDSHAKE_TIMEOUT_MAX_def
  H3_IDLE_TIMEOUT_DEFAULT_def H3_IDLE_TIMEOUT_MAX_def UINT16_MAX_def SIZE_MAX_def

section \<open>The configuration record\<close>

datatype h3_tri_flag = H3_FLAG_UNSET | H3_FLAG_ON | H3_FLAG_OFF

record h3_server_conf =
  host_port :: apr_port_t
  h3_cert_path :: "string option"
  h3_key_path :: "string option"
  h3_port :: apr_port_t
  h3_max_concurrent_streams :: uint32_t
  h3_max_connections :: uint32_t
  h3_stream_buffer_size :: size_t
  h3_max_request_body_size :: size_t
  h3_max_response_body_size :: size_t
  h3_alt_svc :: h3_tri_flag
  h3_address_validation :: h3_tri_flag
  h3_alt_svc_max_age :: uint32_t
  h3_handshake_timeout :: uint32_t
  h3_idle_timeout :: uint32_t

text \<open>A virtual host: the ports of its address list, in order, and its module configuration.\<close>

record server_rec =
  sr_addrs :: "apr_port_t list"
  sr_conf :: h3_server_conf

fun first_port :: "apr_port_t list \<Rightarrow> apr_port_t" where
  "first_port [] = 0"
| "first_port (p # ps) = (if p \<noteq> 0 then p else first_port ps)"

definition get_server_port :: "server_rec \<Rightarrow> apr_port_t" where
  "get_server_port s = first_port (sr_addrs s)"

definition h3_create_server_config :: h3_server_conf where
  "h3_create_server_config = \<lparr>host_port = 0, h3_cert_path = None, h3_key_path = None, h3_port = 0,
     h3_max_concurrent_streams = 0, h3_max_connections = 0, h3_stream_buffer_size = 0,
     h3_max_request_body_size = 0, h3_max_response_body_size = 0, h3_alt_svc = H3_FLAG_UNSET,
     h3_address_validation = H3_FLAG_UNSET, h3_alt_svc_max_age = 0, h3_handshake_timeout = 0,
     h3_idle_timeout = 0\<rparr>"

abbreviation (input) or_else :: "'a::zero \<Rightarrow> 'a \<Rightarrow> 'a" where
  "or_else n b \<equiv> (if n \<noteq> 0 then n else b)"

abbreviation (input) path_or :: "string option \<Rightarrow> string option \<Rightarrow> string option" where
  "path_or n b \<equiv> (if n \<noteq> None then n else b)"

abbreviation (input) flag_or :: "h3_tri_flag \<Rightarrow> h3_tri_flag \<Rightarrow> h3_tri_flag" where
  "flag_or n b \<equiv> (if n \<noteq> H3_FLAG_UNSET then n else b)"

definition h3_merge_server_config :: "h3_server_conf \<Rightarrow> h3_server_conf \<Rightarrow> h3_server_conf" where
  "h3_merge_server_config base new =
    \<lparr>host_port = 0,
     h3_cert_path = path_or (h3_cert_path new) (h3_cert_path base),
     h3_key_path = path_or (h3_key_path new) (h3_key_path base),
     h3_port = or_else (h3_port new) (h3_port base),
     h3_max_concurrent_streams = or_else (h3_max_concurrent_streams new) (h3_max_concurrent_streams base),
     h3_max_connections = or_else (h3_max_connections new) (h3_max_connections base),
     h3_stream_buffer_size = or_else (h3_stream_buffer_size new) (h3_stream_buffer_size base),
     h3_max_request_body_size = or_else (h3_max_request_body_size new) (h3_max_request_body_size base),
     h3_max_response_body_size = or_else (h3_max_response_body_size new) (h3_max_response_body_size base),
     h3_alt_svc = flag_or (h3_alt_svc new) (h3_alt_svc base),
     h3_address_validation = flag_or (h3_address_validation new) (h3_address_validation base),
     h3_alt_svc_max_age = or_else (h3_alt_svc_max_age new) (h3_alt_svc_max_age base),
     h3_handshake_timeout = or_else (h3_handshake_timeout new) (h3_handshake_timeout base),
     h3_idle_timeout = or_else (h3_idle_timeout new) (h3_idle_timeout base)\<rparr>"

section \<open>Directives\<close>

type_synonym directive_result = "(h3_server_conf option \<times> string option) option"
type_synonym atoui64 = "string \<Rightarrow> apr_status \<times> uint64_t"
type_synonym atoi64 = "string \<Rightarrow> apr_status \<times> int"

definition set_h3_cert_path :: "h3_server_conf option \<Rightarrow> string \<Rightarrow> h3_server_conf option \<times> string option" where
  "set_h3_cert_path conf arg =
    (case conf of None \<Rightarrow> (None, Some ''mod_http3: internal error: no server config'')
     | Some c \<Rightarrow> (Some (c\<lparr>h3_cert_path := Some arg\<rparr>), None))"

definition set_h3_key_path :: "h3_server_conf option \<Rightarrow> string \<Rightarrow> h3_server_conf option \<times> string option" where
  "set_h3_key_path conf arg =
    (case conf of None \<Rightarrow> (None, Some ''mod_http3: internal error: no server config'')
     | Some c \<Rightarrow> (Some (c\<lparr>h3_key_path := Some arg\<rparr>), None))"

definition quoted :: "string \<Rightarrow> string \<Rightarrow> string \<Rightarrow> string" where
  "quoted name arg what = name @ '': '' @ [CHR 0x27] @ arg @ [CHR 0x27] @ '' '' @ what"

text \<open>
  The shape all unsigned directives share: an absent argument, the two parser errors, the
  range, and then the store. \<open>store\<close> is the assignment at the end of each handler.
\<close>

definition unsigned_directive ::
  "string \<Rightarrow> nat \<Rightarrow> (uint64_t \<Rightarrow> h3_server_conf \<Rightarrow> h3_server_conf) \<Rightarrow> atoui64 \<Rightarrow>
   h3_server_conf option \<Rightarrow> string option \<Rightarrow> directive_result" where
  "unsigned_directive name hi store parse conf arg =
    (case arg of
       None \<Rightarrow> Some (conf, Some (name @ '': empty value''))
     | Some a \<Rightarrow>
       if a = [] then Some (conf, Some (name @ '': empty value''))
       else (let (rv, val) = parse a in
         if rv = APR_EINVAL then Some (conf, Some (quoted name a ''is not a number''))
         else if rv = APR_ERANGE
           then Some (conf, Some (quoted name a ''is out of representable range''))
         else if val = 0 \<or> hi < unat val
           then Some (conf, Some (quoted name a (''is out of allowed range (1-'' @ print_dec hi @ '')'')))
         else map_option (\<lambda>c. (Some (store val c), None)) conf))"

definition set_h3_port :: "atoi64 \<Rightarrow> h3_server_conf option \<Rightarrow> string option \<Rightarrow> directive_result" where
  "set_h3_port parse conf arg =
    (case arg of
       None \<Rightarrow> Some (conf, Some ''H3Port: empty port number'')
     | Some a \<Rightarrow>
       if a = [] then Some (conf, Some ''H3Port: empty port number'')
       else (let (rv, port) = parse a in
         if rv = APR_EINVAL then Some (conf, Some (quoted ''H3Port'' a ''is not a number''))
         else if rv = APR_ERANGE
           then Some (conf, Some (quoted ''H3Port'' a ''is out of representable range''))
         else if port < 1 \<or> port > 65535
           then Some (conf, Some (quoted ''H3Port'' a ''is out of allowed range (1-65535)''))
         else map_option (\<lambda>c. (Some (c\<lparr>h3_port := word_of_int port\<rparr>), None)) conf))"

definition set_h3_max_concurrent_streams :: "atoui64 \<Rightarrow> h3_server_conf option \<Rightarrow> string option \<Rightarrow> directive_result" where
  "set_h3_max_concurrent_streams =
     unsigned_directive ''H3MaxConcurrentStreams'' UINT16_MAX (\<lambda>v c. c\<lparr>h3_max_concurrent_streams := ucast v\<rparr>)"

definition set_h3_max_connections :: "atoui64 \<Rightarrow> h3_server_conf option \<Rightarrow> string option \<Rightarrow> directive_result" where
  "set_h3_max_connections =
     unsigned_directive ''H3MaxConnections'' H3_MAX_CONNECTIONS_MAX (\<lambda>v c. c\<lparr>h3_max_connections := ucast v\<rparr>)"

definition set_h3_stream_buffer_size :: "atoui64 \<Rightarrow> h3_server_conf option \<Rightarrow> string option \<Rightarrow> directive_result" where
  "set_h3_stream_buffer_size =
     unsigned_directive ''H3StreamBufferSize'' H3_STREAM_BUFFER_SIZE_MAX (\<lambda>v c. c\<lparr>h3_stream_buffer_size := v\<rparr>)"

definition set_h3_max_request_body_size :: "atoui64 \<Rightarrow> h3_server_conf option \<Rightarrow> string option \<Rightarrow> directive_result" where
  "set_h3_max_request_body_size =
     unsigned_directive ''H3MaxRequestBodySize'' H3_MAX_REQUEST_BODY_SIZE_MAX (\<lambda>v c. c\<lparr>h3_max_request_body_size := v\<rparr>)"

definition set_h3_max_response_body_size :: "atoui64 \<Rightarrow> h3_server_conf option \<Rightarrow> string option \<Rightarrow> directive_result" where
  "set_h3_max_response_body_size =
     unsigned_directive ''H3MaxResponseBodySize'' H3_MAX_RESPONSE_BODY_SIZE_MAX (\<lambda>v c. c\<lparr>h3_max_response_body_size := v\<rparr>)"

definition set_h3_handshake_timeout :: "atoui64 \<Rightarrow> h3_server_conf option \<Rightarrow> string option \<Rightarrow> directive_result" where
  "set_h3_handshake_timeout =
     unsigned_directive ''H3HandshakeTimeout'' H3_HANDSHAKE_TIMEOUT_MAX (\<lambda>v c. c\<lparr>h3_handshake_timeout := ucast v\<rparr>)"

definition set_h3_idle_timeout :: "atoui64 \<Rightarrow> h3_server_conf option \<Rightarrow> string option \<Rightarrow> directive_result" where
  "set_h3_idle_timeout =
     unsigned_directive ''H3IdleTimeout'' H3_IDLE_TIMEOUT_MAX (\<lambda>v c. c\<lparr>h3_idle_timeout := ucast v\<rparr>)"

definition set_h3_alt_svc_max_age :: "atoui64 \<Rightarrow> h3_server_conf option \<Rightarrow> string option \<Rightarrow> directive_result" where
  "set_h3_alt_svc_max_age =
     unsigned_directive ''H3AltSvcMaxAge'' H3_ALT_SVC_MAX_AGE_MAX (\<lambda>v c. c\<lparr>h3_alt_svc_max_age := ucast v\<rparr>)"

definition set_h3_alt_svc :: "h3_server_conf option \<Rightarrow> bool \<Rightarrow> directive_result" where
  "set_h3_alt_svc conf flag =
     map_option (\<lambda>c. (Some (c\<lparr>h3_alt_svc := if flag then H3_FLAG_ON else H3_FLAG_OFF\<rparr>), None)) conf"

definition set_h3_address_validation :: "h3_server_conf option \<Rightarrow> bool \<Rightarrow> directive_result" where
  "set_h3_address_validation conf flag =
     map_option (\<lambda>c. (Some (c\<lparr>h3_address_validation := if flag then H3_FLAG_ON else H3_FLAG_OFF\<rparr>), None)) conf"

section \<open>The post-config hook\<close>

definition h3_enabled :: "h3_server_conf \<Rightarrow> bool" where
  "h3_enabled c \<longleftrightarrow> h3_cert_path c \<noteq> None \<and> h3_key_path c \<noteq> None"

definition apply_defaults :: "server_rec \<Rightarrow> server_rec" where
  "apply_defaults vs = (let vc = sr_conf vs; hp = get_server_port vs in
     vs\<lparr>sr_conf := vc
       \<lparr>host_port := hp,
        h3_port := (if h3_port vc = 0 then hp else h3_port vc),
        h3_max_concurrent_streams := (if h3_max_concurrent_streams vc = 0
           then H3_MAX_CONCURRENT_STREAMS_DEFAULT else h3_max_concurrent_streams vc),
        h3_max_connections := (if h3_max_connections vc = 0
           then H3_MAX_CONNECTIONS_DEFAULT else h3_max_connections vc),
        h3_stream_buffer_size := (if h3_stream_buffer_size vc = 0
           then H3_STREAM_BUFFER_SIZE_DEFAULT else h3_stream_buffer_size vc),
        h3_max_request_body_size := (if h3_max_request_body_size vc = 0
           then H3_MAX_REQUEST_BODY_SIZE_DEFAULT else h3_max_request_body_size vc),
        h3_max_response_body_size := (if h3_max_response_body_size vc = 0
           then H3_MAX_RESPONSE_BODY_SIZE_DEFAULT else h3_max_response_body_size vc),
        h3_alt_svc := (if h3_alt_svc vc = H3_FLAG_UNSET then H3_FLAG_ON else h3_alt_svc vc),
        h3_address_validation := (if h3_address_validation vc = H3_FLAG_UNSET
           then H3_FLAG_ON else h3_address_validation vc),
        h3_alt_svc_max_age := (if h3_alt_svc_max_age vc = 0
           then H3_ALT_SVC_MAX_AGE_DEFAULT else h3_alt_svc_max_age vc),
        h3_handshake_timeout := (if h3_handshake_timeout vc = 0
           then H3_HANDSHAKE_TIMEOUT_DEFAULT else h3_handshake_timeout vc),
        h3_idle_timeout := (if h3_idle_timeout vc = 0
           then H3_IDLE_TIMEOUT_DEFAULT else h3_idle_timeout vc)\<rparr>\<rparr>)"

text \<open>The loop over the virtual hosts: the first one with both paths is defaulted and chosen.\<close>

fun post_config_scan :: "server_rec list \<Rightarrow> h3_server_conf option \<times> server_rec list" where
  "post_config_scan [] = (None, [])"
| "post_config_scan (vs # rest) =
    (if h3_enabled (sr_conf vs)
     then (Some (sr_conf (apply_defaults vs)), apply_defaults vs # rest)
     else (let (conf, rest') = post_config_scan rest in (conf, vs # rest')))"

definition h3_post_config :: "bool \<Rightarrow> (string \<Rightarrow> bool) \<Rightarrow> server_rec list \<Rightarrow> int \<times> server_rec list" where
  "h3_post_config pre_config readable servers =
    (if pre_config then (OK, servers)
     else (let (conf, servers') = post_config_scan servers in
       case conf of
         None \<Rightarrow> (HTTP_INTERNAL_SERVER_ERROR, servers')
       | Some c \<Rightarrow>
         if \<not> readable (the (h3_cert_path c)) then (HTTP_INTERNAL_SERVER_ERROR, servers')
         else if \<not> readable (the (h3_key_path c)) then (HTTP_INTERNAL_SERVER_ERROR, servers')
         else (OK, servers')))"

text \<open>\<^verbatim>\<open>find_h3_server\<close> of the child-init hook: the index of the chosen host, its port refreshed.\<close>

fun find_h3_server :: "server_rec list \<Rightarrow> (nat \<times> h3_server_conf) option" where
  "find_h3_server [] = None"
| "find_h3_server (cur # rest) =
    (if h3_cert_path (sr_conf cur) \<noteq> None \<and> h3_key_path (sr_conf cur) \<noteq> None
     then Some (0, (sr_conf cur)\<lparr>host_port := get_server_port cur\<rparr>)
     else map_option (\<lambda>(i, c). (Suc i, c)) (find_h3_server rest))"

section \<open>Merging\<close>

lemma merge_unset_base:
  "h3_merge_server_config h3_create_server_config c = c\<lparr>host_port := 0\<rparr>"
  by (rule h3_server_conf.equality) (simp_all add: h3_merge_server_config_def h3_create_server_config_def)

lemma merge_unset_new:
  "h3_merge_server_config c h3_create_server_config = c\<lparr>host_port := 0\<rparr>"
  by (rule h3_server_conf.equality) (simp_all add: h3_merge_server_config_def h3_create_server_config_def)

lemma merge_assoc:
  "h3_merge_server_config (h3_merge_server_config a b) c = h3_merge_server_config a (h3_merge_server_config b c)"
  by (rule h3_server_conf.equality) (auto simp: h3_merge_server_config_def)

section \<open>Ranges\<close>

text \<open>What the directives let through: zero stands for unset.\<close>

definition conf_in_range :: "h3_server_conf \<Rightarrow> bool" where
  "conf_in_range c \<longleftrightarrow>
     unat (h3_max_concurrent_streams c) \<le> UINT16_MAX \<and>
     unat (h3_max_connections c) \<le> H3_MAX_CONNECTIONS_MAX \<and>
     unat (h3_stream_buffer_size c) \<le> H3_STREAM_BUFFER_SIZE_MAX \<and>
     unat (h3_max_request_body_size c) \<le> H3_MAX_REQUEST_BODY_SIZE_MAX \<and>
     (h3_max_response_body_size c = H3_MAX_RESPONSE_BODY_SIZE_DEFAULT \<or>
        unat (h3_max_response_body_size c) \<le> H3_MAX_RESPONSE_BODY_SIZE_MAX) \<and>
     unat (h3_alt_svc_max_age c) \<le> H3_ALT_SVC_MAX_AGE_MAX \<and>
     unat (h3_handshake_timeout c) \<le> H3_HANDSHAKE_TIMEOUT_MAX \<and>
     unat (h3_idle_timeout c) \<le> H3_IDLE_TIMEOUT_MAX"

text \<open>A configuration the rest of the module may run with: every limit is set.\<close>

definition conf_ready :: "h3_server_conf \<Rightarrow> bool" where
  "conf_ready c \<longleftrightarrow> conf_in_range c \<and> h3_enabled c \<and>
     0 < h3_max_concurrent_streams c \<and> 0 < h3_max_connections c \<and> 0 < h3_stream_buffer_size c \<and>
     0 < h3_max_request_body_size c \<and> 0 < h3_max_response_body_size c \<and>
     h3_alt_svc c \<noteq> H3_FLAG_UNSET \<and> h3_address_validation c \<noteq> H3_FLAG_UNSET \<and>
     0 < h3_alt_svc_max_age c \<and> 0 < h3_handshake_timeout c \<and> 0 < h3_idle_timeout c"

lemma conf_in_range_create [h3_inv]: "conf_in_range h3_create_server_config"
  by (simp add: conf_in_range_def h3_create_server_config_def)

lemma conf_in_range_merge [h3_inv]:
  "conf_in_range a \<Longrightarrow> conf_in_range b \<Longrightarrow> conf_in_range (h3_merge_server_config a b)"
  unfolding conf_in_range_def h3_merge_server_config_def by (intro conjI) simp_all

lemma unat_ucast_32: "unat (v :: uint64_t) < 2 ^ 32 \<Longrightarrow> unat (ucast v :: uint32_t) = unat v"
  by (simp add: unsigned_ucast_eq take_bit_nat_eq_self)

text \<open>The directives as one type, so that a configuration section is a list of them.\<close>

datatype directive =
    H3CertificatePath string
  | H3CertificateKeyPath string
  | H3Port "string option"
  | H3MaxConcurrentStreams "string option"
  | H3MaxConnections "string option"
  | H3StreamBufferSize "string option"
  | H3MaxRequestBodySize "string option"
  | H3AltSvc bool
  | H3AltSvcMaxAge "string option"
  | H3HandshakeTimeout "string option"
  | H3IdleTimeout "string option"
  | H3MaxResponseBodySize "string option"
  | H3AddressValidation bool

text \<open>The table \<^verbatim>\<open>h3_cmds\<close>: which handler serves which directive.\<close>

fun h3_cmds :: "atoi64 \<Rightarrow> atoui64 \<Rightarrow> directive \<Rightarrow> h3_server_conf option \<Rightarrow> directive_result" where
  "h3_cmds pi pu (H3CertificatePath a) c = Some (set_h3_cert_path c a)"
| "h3_cmds pi pu (H3CertificateKeyPath a) c = Some (set_h3_key_path c a)"
| "h3_cmds pi pu (H3Port a) c = set_h3_port pi c a"
| "h3_cmds pi pu (H3MaxConcurrentStreams a) c = set_h3_max_concurrent_streams pu c a"
| "h3_cmds pi pu (H3MaxConnections a) c = set_h3_max_connections pu c a"
| "h3_cmds pi pu (H3StreamBufferSize a) c = set_h3_stream_buffer_size pu c a"
| "h3_cmds pi pu (H3MaxRequestBodySize a) c = set_h3_max_request_body_size pu c a"
| "h3_cmds pi pu (H3AltSvc f) c = set_h3_alt_svc c f"
| "h3_cmds pi pu (H3AltSvcMaxAge a) c = set_h3_alt_svc_max_age pu c a"
| "h3_cmds pi pu (H3HandshakeTimeout a) c = set_h3_handshake_timeout pu c a"
| "h3_cmds pi pu (H3IdleTimeout a) c = set_h3_idle_timeout pu c a"
| "h3_cmds pi pu (H3MaxResponseBodySize a) c = set_h3_max_response_body_size pu c a"
| "h3_cmds pi pu (H3AddressValidation f) c = set_h3_address_validation c f"

text \<open>A configuration section: httpd applies the directives in order and stops at the first error.\<close>

fun run_directives :: "atoi64 \<Rightarrow> atoui64 \<Rightarrow> directive list \<Rightarrow> h3_server_conf option \<Rightarrow> directive_result" where
  "run_directives pi pu [] c = Some (c, None)"
| "run_directives pi pu (d # ds) c =
    (case h3_cmds pi pu d c of
       None \<Rightarrow> None
     | Some (c', Some e) \<Rightarrow> Some (c', Some e)
     | Some (c', None) \<Rightarrow> run_directives pi pu ds c')"

lemma unsigned_directive_cases:
  assumes "unsigned_directive name hi store parse (Some c) arg = Some (c', e)"
  obtains (error) msg where "c' = Some c" "e = Some msg"
    | (stored) a where "arg = Some a" "0 < snd (parse a)" "unat (snd (parse a)) \<le> hi"
        "c' = Some (store (snd (parse a)) c)" "e = None"
proof (cases "e = None")
  case True
  with assms show ?thesis
    by (auto simp: unsigned_directive_def Let_def word_gt_0 case_prod_beta
        split: option.splits if_splits intro!: stored)
next
  case False
  with assms show ?thesis
    by (auto simp: unsigned_directive_def Let_def case_prod_beta split: option.splits if_splits intro!: error)
qed

lemmas unsigned_handlers = set_h3_max_concurrent_streams_def set_h3_max_connections_def
  set_h3_stream_buffer_size_def set_h3_max_request_body_size_def set_h3_max_response_body_size_def
  set_h3_handshake_timeout_def set_h3_idle_timeout_def set_h3_alt_svc_max_age_def

lemmas other_handlers = set_h3_cert_path_def set_h3_key_path_def set_h3_port_def set_h3_alt_svc_def
  set_h3_address_validation_def

lemma unsigned_directive_in_range:
  assumes "unsigned_directive name hi store parse (Some c) arg = Some (c', e)"
    and "conf_in_range c" and "\<And>v. unat v \<le> hi \<Longrightarrow> conf_in_range (store v c)"
  shows "\<exists>c''. c' = Some c'' \<and> conf_in_range c''"
  using assms(1)
proof (cases rule: unsigned_directive_cases)
  case error
  then show ?thesis using assms(2) by simp
next
  case stored
  then show ?thesis using assms(3) by simp
qed

lemma unat_ucast_le: "unat (v :: uint64_t) \<le> n \<Longrightarrow> unat (ucast v :: uint32_t) \<le> n"
  by (simp add: unsigned_ucast_eq) (meson le_trans take_bit_nat_less_eq_self)

lemma conf_in_range_upd:
  assumes "conf_in_range c"
  shows "unat v \<le> UINT16_MAX \<Longrightarrow> conf_in_range (c\<lparr>h3_max_concurrent_streams := ucast (v :: uint64_t)\<rparr>)"
    and "unat v \<le> H3_MAX_CONNECTIONS_MAX \<Longrightarrow> conf_in_range (c\<lparr>h3_max_connections := ucast v\<rparr>)"
    and "unat v \<le> H3_STREAM_BUFFER_SIZE_MAX \<Longrightarrow> conf_in_range (c\<lparr>h3_stream_buffer_size := v\<rparr>)"
    and "unat v \<le> H3_MAX_REQUEST_BODY_SIZE_MAX \<Longrightarrow> conf_in_range (c\<lparr>h3_max_request_body_size := v\<rparr>)"
    and "unat v \<le> H3_MAX_RESPONSE_BODY_SIZE_MAX \<Longrightarrow> conf_in_range (c\<lparr>h3_max_response_body_size := v\<rparr>)"
    and "unat v \<le> H3_HANDSHAKE_TIMEOUT_MAX \<Longrightarrow> conf_in_range (c\<lparr>h3_handshake_timeout := ucast v\<rparr>)"
    and "unat v \<le> H3_IDLE_TIMEOUT_MAX \<Longrightarrow> conf_in_range (c\<lparr>h3_idle_timeout := ucast v\<rparr>)"
    and "unat v \<le> H3_ALT_SVC_MAX_AGE_MAX \<Longrightarrow> conf_in_range (c\<lparr>h3_alt_svc_max_age := ucast v\<rparr>)"
    and "conf_in_range (c\<lparr>h3_cert_path := x\<rparr>)" and "conf_in_range (c\<lparr>h3_key_path := x\<rparr>)"
    and "conf_in_range (c\<lparr>h3_port := q\<rparr>)" and "conf_in_range (c\<lparr>h3_alt_svc := f\<rparr>)"
    and "conf_in_range (c\<lparr>h3_address_validation := f\<rparr>)"
  using assms by (simp_all add: conf_in_range_def unat_ucast_le)

lemma h3_cmds_in_range:
  assumes "h3_cmds pi pu d (Some c) = Some (c', e)" and "conf_in_range c"
  shows "\<exists>c''. c' = Some c'' \<and> conf_in_range c''"
proof (cases "d \<in> range H3CertificatePath \<union> range H3CertificateKeyPath \<union> range H3Port \<union>
    range H3AltSvc \<union> range H3AddressValidation")
  case True
  then show ?thesis
    using assms by (auto simp: other_handlers conf_in_range_upd Let_def case_prod_beta
        split: option.splits if_splits)
next
  case False
  note u = unsigned_directive_in_range [OF _ assms(2)]
  from False assms(1) show ?thesis
    by (cases d) (auto simp: unsigned_handlers elim!: u intro: conf_in_range_upd [OF assms(2)])
qed

lemma run_directives_in_range:
  assumes "run_directives pi pu ds (Some c) = Some (c', e)" and "conf_in_range c"
  shows "\<exists>c''. c' = Some c'' \<and> conf_in_range c''"
  using assms
proof (induction ds arbitrary: c)
  case Nil
  then show ?case by auto
next
  case (Cons d ds)
  from Cons.prems(1) obtain c1 e1 where d: "h3_cmds pi pu d (Some c) = Some (c1, e1)"
    by (auto split: option.splits)
  from h3_cmds_in_range [OF d Cons.prems(2)] obtain c2 where c2: "c1 = Some c2" "conf_in_range c2" by blast
  show ?case
  proof (cases e1)
    case None
    with Cons.prems(1) d c2(1) have "run_directives pi pu ds (Some c2) = Some (c', e)" by simp
    then show ?thesis using c2(2) by (rule Cons.IH)
  next
    case (Some m)
    with Cons.prems(1) d c2 show ?thesis by auto
  qed
qed

section \<open>The chosen virtual host\<close>

lemma apply_defaults_enabled [simp]: "h3_enabled (sr_conf (apply_defaults vs)) = h3_enabled (sr_conf vs)"
  by (simp add: apply_defaults_def h3_enabled_def Let_def)

lemma apply_defaults_addrs [simp]: "sr_addrs (apply_defaults vs) = sr_addrs vs"
  by (simp add: apply_defaults_def Let_def)

lemma apply_defaults_host_port [simp]: "host_port (sr_conf (apply_defaults vs)) = get_server_port vs"
  by (simp add: apply_defaults_def Let_def)

lemma apply_defaults_ready:
  assumes "h3_enabled (sr_conf vs)" and "conf_in_range (sr_conf vs)"
  shows "conf_ready (sr_conf (apply_defaults vs))"
  using assms unfolding conf_ready_def conf_in_range_def apply_defaults_def Let_def
  by (intro conjI) (simp_all add: h3_enabled_def h3_limits word_gt_0)

lemma post_config_scan_find:
  "post_config_scan servers = (Some conf, servers') \<Longrightarrow>
   \<exists>i. find_h3_server servers' = Some (i, conf) \<and> i < length servers \<and> h3_enabled (sr_conf (servers ! i)) \<and>
       sr_conf (servers' ! i) = conf \<and> conf = sr_conf (apply_defaults (servers ! i)) \<and>
       (\<forall>j < i. \<not> h3_enabled (sr_conf (servers ! j)))"
proof (induction servers arbitrary: servers')
  case Nil
  then show ?case by simp
next
  case (Cons vs rest)
  show ?case
  proof (cases "h3_enabled (sr_conf vs)")
    case True
    with Cons.prems have s: "servers' = apply_defaults vs # rest" "conf = sr_conf (apply_defaults vs)" by auto
    have "h3_enabled conf" using True s by simp
    moreover have "conf\<lparr>host_port := get_server_port (apply_defaults vs)\<rparr> = conf"
      using s by (simp add: apply_defaults_def get_server_port_def Let_def)
    ultimately show ?thesis using True s by (auto simp: h3_enabled_def intro!: exI [of _ 0])
  next
    case False
    with Cons.prems obtain rest' where r: "post_config_scan rest = (Some conf, rest')" "servers' = vs # rest'"
      by (auto split: prod.splits)
    from Cons.IH [OF r(1)] obtain i where i: "find_h3_server rest' = Some (i, conf)" "i < length rest"
        "h3_enabled (sr_conf (rest ! i))" "sr_conf (rest' ! i) = conf"
        "conf = sr_conf (apply_defaults (rest ! i))" "\<forall>j < i. \<not> h3_enabled (sr_conf (rest ! j))"
      by blast
    have "\<forall>j < Suc i. \<not> h3_enabled (sr_conf ((vs # rest) ! j))"
      using i(6) False by (auto simp: nth_Cons split: nat.splits)
    then show ?thesis using False i r(2) by (intro exI [of _ "Suc i"]) (auto simp: h3_enabled_def)
  qed
qed

lemma post_config_scan_None: "fst (post_config_scan servers) = None \<longleftrightarrow> (\<forall>vs \<in> set servers. \<not> h3_enabled (sr_conf vs))"
  by (induction servers) (auto split: prod.splits)

section \<open>Properties\<close>

definition wit_section :: "directive list" where
  "wit_section = [H3CertificatePath ''cert.pem'', H3CertificateKeyPath ''key.pem'', H3MaxConnections (Some ''8'')]"

definition wit_conf :: h3_server_conf where
  "wit_conf = h3_create_server_config\<lparr>h3_cert_path := Some ''cert.pem'', h3_key_path := Some ''key.pem'',
     h3_max_connections := 8\<rparr>"

lemma wit_section_run:
  "run_directives (\<lambda>_. (APR_SUCCESS, 8)) (\<lambda>_. (APR_SUCCESS, 8)) wit_section (Some h3_create_server_config)
     = Some (Some wit_conf, None)"
  by (simp add: wit_section_def wit_conf_def set_h3_cert_path_def set_h3_key_path_def set_h3_max_connections_def
      unsigned_directive_def h3_limits)

text \<open>
  C10: A server section and a virtual-host section read without error, merged and defaulted,
  give a configuration in which every limit is set and within the range the directives
  allow, whatever the number parsers return.
\<close>

theorem configuration_ready:
  assumes "run_directives pi pu ds1 (Some h3_create_server_config) = Some (Some c1, None)"
    and "run_directives pi pu ds2 (Some h3_create_server_config) = Some (Some c2, None)"
    and "h3_enabled (h3_merge_server_config c1 c2)"
  shows "conf_ready (sr_conf (apply_defaults \<lparr>sr_addrs = ps, sr_conf = h3_merge_server_config c1 c2\<rparr>))"
proof (rule apply_defaults_ready)
  have "conf_in_range c1" "conf_in_range c2"
    using run_directives_in_range [OF assms(1) conf_in_range_create]
      run_directives_in_range [OF assms(2) conf_in_range_create] by auto
  then show "conf_in_range (sr_conf \<lparr>sr_addrs = ps, sr_conf = h3_merge_server_config c1 c2\<rparr>)"
    by (simp add: conf_in_range_merge)
qed (simp add: assms(3))

theorem configuration_ready_witness:
  "h3_enabled (h3_merge_server_config h3_create_server_config wit_conf) \<and>
   conf_ready (sr_conf (apply_defaults \<lparr>sr_addrs = [443], sr_conf = h3_merge_server_config h3_create_server_config wit_conf\<rparr>))"
proof -
  have e: "h3_enabled (h3_merge_server_config h3_create_server_config wit_conf)"
    by (simp add: merge_unset_base h3_enabled_def wit_conf_def)
  have "run_directives (\<lambda>_. (APR_SUCCESS, 8)) (\<lambda>_. (APR_SUCCESS, 8)) [] (Some h3_create_server_config)
      = Some (Some h3_create_server_config, None)" by simp
  from configuration_ready [OF this wit_section_run e] e show ?thesis by simp
qed

text \<open>
  C11: When the post-config hook accepts the configuration, the child-init hook finds the
  same virtual host, the first one with a certificate and a key, with exactly the defaulted
  configuration that was checked; its files are readable and every limit is set.
\<close>

theorem post_config_child_init_agree:
  assumes "h3_post_config False readable servers = (OK, servers')"
    and "\<forall>vs \<in> set servers. conf_in_range (sr_conf vs)"
  shows "\<exists>i conf. find_h3_server servers' = Some (i, conf) \<and> i < length servers \<and> conf_ready conf \<and>
     readable (the (h3_cert_path conf)) \<and> readable (the (h3_key_path conf)) \<and>
     conf = sr_conf (apply_defaults (servers ! i)) \<and> (\<forall>j < i. \<not> h3_enabled (sr_conf (servers ! j)))"
proof -
  obtain co sv where sc: "post_config_scan servers = (co, sv)" by fastforce
  with assms(1) obtain conf where c: "co = Some conf" "sv = servers'"
    "readable (the (h3_cert_path conf))" "readable (the (h3_key_path conf))"
    by (auto simp: h3_post_config_def http_codes split: option.splits if_splits)
  from post_config_scan_find [of servers conf servers'] sc c obtain i where
    i: "find_h3_server servers' = Some (i, conf)" "i < length servers" "h3_enabled (sr_conf (servers ! i))"
      "conf = sr_conf (apply_defaults (servers ! i))" "\<forall>j < i. \<not> h3_enabled (sr_conf (servers ! j))" by auto
  have "conf_in_range (sr_conf (servers ! i))" using assms(2) i(2) by simp
  then have "conf_ready conf" using i(3,4) apply_defaults_ready by simp
  with i c show ?thesis by blast
qed

theorem post_config_child_init_agree_witness:
  "\<exists>servers' i conf. h3_post_config False (\<lambda>_. True)
       [\<lparr>sr_addrs = [80], sr_conf = h3_create_server_config\<rparr>, \<lparr>sr_addrs = [0, 443], sr_conf = wit_conf\<rparr>] = (OK, servers') \<and>
     find_h3_server servers' = Some (i, conf) \<and> conf_ready conf"
proof -
  let ?s = "[\<lparr>sr_addrs = [80], sr_conf = h3_create_server_config\<rparr>, \<lparr>sr_addrs = [0, 443], sr_conf = wit_conf\<rparr>]"
  have e: "\<not> h3_enabled h3_create_server_config" "h3_enabled wit_conf"
    by (simp_all add: h3_enabled_def h3_create_server_config_def wit_conf_def)
  have r: "h3_post_config False (\<lambda>_. True) ?s = (OK, snd (post_config_scan ?s))"
    using e by (simp add: h3_post_config_def)
  have "conf_in_range wit_conf"
    using run_directives_in_range [OF wit_section_run conf_in_range_create] by simp
  then have "\<forall>vs \<in> set ?s. conf_in_range (sr_conf vs)" by (simp add: conf_in_range_create)
  from post_config_child_init_agree [OF r this] r show ?thesis by blast
qed


end
