(* ===== verification/Quic_Addr.thy ===== *)
theory Quic_Addr
  imports H3_Prelude
begin

text \<open>
  The filter BIO that recovers peer addresses (\<^verbatim>\<open>src/quic/detail/h3q_addr.c\<close>). OpenSSL reads
  datagrams in batches; the filter hands them on one at a time, so that the address of the
  datagram being processed is known when a new connection appears. The queue of datagrams
  not yet handed on is a linked list on the heap. Allocation may fail: \<open>ok t\<close> says whether
  the allocation at allocator tick \<open>t\<close> succeeds. The BIO below the filter is a parameter.
  An operation returns \<open>None\<close> where the C code would read or write through a null or freed
  pointer.
\<close>

section \<open>Data\<close>

definition AF_UNSPEC :: int where "AF_UNSPEC = 0"
definition AF_INET :: int where "AF_INET = 2"
definition AF_INET6 :: int where "AF_INET6 = 10"

text \<open>What the module reads of a \<^verbatim>\<open>BIO_ADDR\<close>: family, raw address (if it can be read), raw port.\<close>

record bio_addr =
  ba_family :: int
  ba_raw :: "byte list option"
  ba_port :: apr_port_t

definition cleared_addr :: bio_addr where
  "cleared_addr = \<lparr>ba_family = AF_UNSPEC, ba_raw = None, ba_port = 0\<rparr>"

text \<open>A \<^verbatim>\<open>BIO_MSG\<close>: the buffer with its contents, the length field, and the two address slots.\<close>

record bio_msg =
  msg_data :: "byte list option"
  msg_data_len :: size_t
  msg_peer :: "bio_addr option"
  msg_local :: "bio_addr option"

record h3q_datagram =
  dg_data :: "byte list"
  dg_data_len :: size_t
  dg_peer :: "bio_addr option"
  dg_local :: "bio_addr option"
  dg_next :: "addr option"

record h3q_engine =
  ssl_ctx :: "nat option"
  ssl_listener :: "nat option"
  peer_addr_bio_method :: "nat option"
  current_peer_addr :: "bio_addr option"
  peer_addr_ex_index :: int
  peer_rx_head :: "addr option"
  peer_rx_tail :: "addr option"
  rx_heap :: "h3q_datagram heap"
  rx_tick :: nat

section \<open>The datagram queue\<close>

definition h3q_queue_drop_head :: "h3q_engine \<Rightarrow> h3q_engine option" where
  "h3q_queue_drop_head e =
    (case peer_rx_head e of
       None \<Rightarrow> None
     | Some a \<Rightarrow>
       (case deref (rx_heap e) a of
          None \<Rightarrow> None
        | Some item \<Rightarrow>
          Some (e\<lparr>peer_rx_head := dg_next item,
                  peer_rx_tail := (if dg_next item = None then None else peer_rx_tail e),
                  rx_heap := heap_free (rx_heap e) a\<rparr>)))"

definition h3q_peer_addr_queue_clear :: "h3q_engine \<Rightarrow> h3q_engine option" where
  "h3q_peer_addr_queue_clear e =
     map_option (\<lambda>h. e\<lparr>peer_rx_head := None, peer_rx_tail := None, rx_heap := h\<rparr>)
       (free_chain dg_next (rx_heap e) (peer_rx_head e))"

text \<open>The end of the fill loop: link a freshly allocated node behind the tail.\<close>

definition h3q_queue_link :: "h3q_datagram \<Rightarrow> h3q_engine \<Rightarrow> h3q_engine option" where
  "h3q_queue_link item e =
    (let (a, h) = heap_alloc (rx_heap e) (item\<lparr>dg_next := None\<rparr>) in
     case peer_rx_tail e of
       None \<Rightarrow> Some (e\<lparr>rx_heap := h, peer_rx_head := Some a, peer_rx_tail := Some a\<rparr>)
     | Some t \<Rightarrow>
       (case deref h t of
          None \<Rightarrow> None
        | Some tl_item \<Rightarrow>
          Some (e\<lparr>rx_heap := heap_set h t (tl_item\<lparr>dg_next := Some a\<rparr>), peer_rx_tail := Some a\<rparr>)))"

definition datagram_of :: "bio_msg \<Rightarrow> h3q_datagram" where
  "datagram_of m =
     \<lparr>dg_data = take (unat (msg_data_len m)) (the (msg_data m)), dg_data_len = msg_data_len m,
      dg_peer = msg_peer m, dg_local = msg_local m, dg_next = None\<rparr>"

fun h3q_queue_fill :: "(nat \<Rightarrow> bool) \<Rightarrow> bio_msg list \<Rightarrow> h3q_engine \<Rightarrow> (bool \<times> h3q_engine) option" where
  "h3q_queue_fill ok [] e = Some (True, e)"
| "h3q_queue_fill ok (source # rest) e =
    (let t = rx_tick e; e1 = e\<lparr>rx_tick := t + 4\<rparr> in
     if \<not> ok t \<or> msg_data source = None \<or> msg_data_len source = 0
       then map_option (\<lambda>e2. (False, e2)) (h3q_peer_addr_queue_clear e1)
     else if \<not> ok (t + 1) \<or> (msg_peer source \<noteq> None \<and> \<not> ok (t + 2)) \<or> (msg_local source \<noteq> None \<and> \<not> ok (t + 3))
       then map_option (\<lambda>e2. (False, e2)) (h3q_peer_addr_queue_clear e1)
     else (case h3q_queue_link (datagram_of source) e1 of
             None \<Rightarrow> None
           | Some e2 \<Rightarrow> h3q_queue_fill ok rest e2))"

text \<open>\<open>memcpy\<close> of the datagram over the start of the caller's buffer.\<close>

definition copy_into :: "byte list \<Rightarrow> byte list \<Rightarrow> byte list" where
  "copy_into src buf = src @ drop (length src) buf"

definition h3q_queue_pop :: "h3q_engine \<Rightarrow> bio_msg option \<Rightarrow> (bool \<times> h3q_engine \<times> bio_msg option) option" where
  "h3q_queue_pop e msg =
    (case (peer_rx_head e, msg) of
       (Some a, Some m) \<Rightarrow>
         (case msg_data m of
            None \<Rightarrow> Some (False, e, msg)
          | Some buf \<Rightarrow>
            (case deref (rx_heap e) a of
               None \<Rightarrow> None
             | Some item \<Rightarrow>
               if msg_data_len m < dg_data_len item
                 then map_option (\<lambda>e'. (False, e', msg)) (h3q_queue_drop_head e)
               else map_option
                 (\<lambda>e'. (True, e', Some (m\<lparr>msg_data := Some (copy_into (dg_data item) buf),
                     msg_data_len := dg_data_len item,
                     msg_peer := (if msg_peer m \<noteq> None \<and> dg_peer item \<noteq> None then dg_peer item else msg_peer m),
                     msg_local := (if msg_local m \<noteq> None \<and> dg_local item \<noteq> None then dg_local item else msg_local m)\<rparr>)))
                 (h3q_queue_drop_head e)))
     | _ \<Rightarrow> Some (False, e, msg))"

section \<open>The BIO methods\<close>

definition h3q_peer_addr_bio_ctrl :: "('c \<Rightarrow> int) option \<Rightarrow> 'c \<Rightarrow> int" where
  "h3q_peer_addr_bio_ctrl nxt cmd = (case nxt of None \<Rightarrow> 0 | Some f \<Rightarrow> f cmd)"

definition h3q_peer_addr_bio_sendmmsg ::
  "(bio_msg list \<Rightarrow> bool \<times> nat) option \<Rightarrow> bio_msg list \<Rightarrow> nat \<Rightarrow> bool \<times> nat" where
  "h3q_peer_addr_bio_sendmmsg nxt msgs processed =
     (case nxt of None \<Rightarrow> (False, processed) | Some f \<Rightarrow> f msgs)"

text \<open>
  The receive method. \<open>nxt\<close> is the receive call of the next BIO: from its state and the
  message array it gives the return value, the filled array, the number received and its
  new state. The result is the return value, the array, \<^verbatim>\<open>*msgs_processed\<close>, the engine and
  the next BIO's state.
\<close>

type_synonym 'n recv_fn = "'n \<Rightarrow> bio_msg list \<Rightarrow> bool \<times> bio_msg list \<times> nat \<times> 'n"

definition note_peer :: "bio_msg list \<Rightarrow> h3q_engine \<Rightarrow> h3q_engine" where
  "note_peer msgs e =
    (case msg_peer (hd msgs) of None \<Rightarrow> e
     | Some p \<Rightarrow> e\<lparr>current_peer_addr := map_option (\<lambda>_. p) (current_peer_addr e)\<rparr>)"

definition h3q_peer_addr_bio_recvmmsg ::
  "(nat \<Rightarrow> bool) \<Rightarrow> 'n recv_fn option \<Rightarrow> h3q_engine option \<Rightarrow> bio_msg list \<Rightarrow> nat \<Rightarrow> 'n \<Rightarrow>
   (bool \<times> bio_msg list \<times> nat \<times> h3q_engine option \<times> 'n) option" where
  "h3q_peer_addr_bio_recvmmsg ok nxt engine msgs processed n =
    (case (engine, nxt) of
       (Some e, Some f) \<Rightarrow>
         if msgs = [] then Some (False, msgs, processed, engine, n)
         else (let e1 = e\<lparr>current_peer_addr := map_option (\<lambda>_. cleared_addr) (current_peer_addr e)\<rparr> in
           if peer_rx_head e1 \<noteq> None
           then (case h3q_queue_pop e1 (Some (hd msgs)) of
               None \<Rightarrow> None
             | Some (popped, e2, m) \<Rightarrow>
               (let msgs' = the m # tl msgs in
                if \<not> popped then Some (False, msgs', 0, Some e2, n)
                else Some (True, msgs', 1, Some (note_peer msgs' e2), n)))
           else (case f n msgs of
               (rv, msgs1, received, n') \<Rightarrow>
               if rv \<and> received > 0
               then (case h3q_queue_fill ok (take received msgs1) e1 of
                   None \<Rightarrow> None
                 | Some (filled, e2) \<Rightarrow>
                   if \<not> filled then Some (False, msgs1, 0, Some e2, n')
                   else (case h3q_queue_pop e2 (Some (hd msgs1)) of
                       None \<Rightarrow> None
                     | Some (popped, e3, m) \<Rightarrow>
                       (let msgs' = the m # tl msgs1 in
                        if \<not> popped then Some (False, msgs', 0, Some e3, n')
                        else Some (rv, msgs', 1, Some (note_peer msgs' e3), n'))))
               else Some (rv, msgs1, received, Some e1, n')))
     | _ \<Rightarrow> Some (False, msgs, processed, engine, n))"

definition h3q_peer_addr_bio_destroy :: "h3q_engine option \<Rightarrow> (bool \<times> h3q_engine option) option" where
  "h3q_peer_addr_bio_destroy engine =
    (case engine of None \<Rightarrow> Some (True, None)
     | Some e \<Rightarrow> map_option (\<lambda>e'. (True, Some e')) (h3q_peer_addr_queue_clear e))"

text \<open>
  The address a connection was first seen from is stored in its ex-data slot, here a map
  from connections to addresses; \<open>dup_ok\<close> and \<open>set_ok\<close> say whether the copy and the store
  succeed.
\<close>

definition h3q_new_pending_conn_cb ::
  "bool \<Rightarrow> bool \<Rightarrow> h3q_engine option \<Rightarrow> nat \<Rightarrow> (nat \<rightharpoonup> bio_addr) \<Rightarrow> bool \<times> (nat \<rightharpoonup> bio_addr)" where
  "h3q_new_pending_conn_cb dup_ok set_ok engine conn ex =
    (case engine of
       None \<Rightarrow> (True, ex)
     | Some e \<Rightarrow>
       (case current_peer_addr e of
          None \<Rightarrow> (True, ex)
        | Some cur \<Rightarrow>
          if peer_addr_ex_index e < 0 \<or> ba_family cur = AF_UNSPEC then (True, ex)
          else if \<not> dup_ok \<or> \<not> set_ok then (False, ex)
          else (True, ex(conn \<mapsto> cur))))"

section \<open>The queue is a queue\<close>

definition good_datagram :: "h3q_datagram \<Rightarrow> bool" where
  "good_datagram d \<longleftrightarrow> dg_data d \<noteq> [] \<and> unat (dg_data_len d) = length (dg_data d) \<and> dg_next d = None"

abbreviation rx_chain :: "h3q_engine \<Rightarrow> addr list" where
  "rx_chain e \<equiv> chain_of dg_next (rx_heap e) (peer_rx_head e)"

definition rx_items :: "h3q_engine \<Rightarrow> h3q_datagram list" where
  "rx_items e = map (\<lambda>a. (the (deref (rx_heap e) a))\<lparr>dg_next := None\<rparr>) (rx_chain e)"

definition engine_wf :: "h3q_engine \<Rightarrow> bool" where
  "engine_wf e \<longleftrightarrow>
     lqueue dg_next (rx_heap e) (peer_rx_head e) (peer_rx_tail e) (rx_chain e) \<and>
     list_all good_datagram (rx_items e)"

lemma engine_wfI:
  assumes "lqueue dg_next (rx_heap e) (peer_rx_head e) (peer_rx_tail e) as"
    and "list_all good_datagram (map (\<lambda>a. (the (deref (rx_heap e) a))\<lparr>dg_next := None\<rparr>) as)"
  shows "engine_wf e" and "rx_items e = map (\<lambda>a. (the (deref (rx_heap e) a))\<lparr>dg_next := None\<rparr>) as"
  using assms lqueue_chain [OF assms(1)] by (simp_all add: engine_wf_def rx_items_def)

lemma engine_wf_empty [simp]:
  "peer_rx_head e = None \<Longrightarrow> peer_rx_tail e = None \<Longrightarrow> engine_wf e \<and> rx_items e = []"
  using engine_wfI [of e "[]"] by simp

lemma rx_items_head:
  assumes "engine_wf e"
  shows "peer_rx_head e = None \<longleftrightarrow> rx_items e = []"
proof -
  from assms have "lqueue dg_next (rx_heap e) (peer_rx_head e) (peer_rx_tail e) (rx_chain e)"
    by (simp add: engine_wf_def)
  from lqueue_head [OF this] show ?thesis by (simp add: rx_items_def)
qed

lemma engine_frame [h3_frame, simp]:
  "rx_items (e\<lparr>current_peer_addr := x\<rparr>) = rx_items e" "engine_wf (e\<lparr>current_peer_addr := x\<rparr>) = engine_wf e"
  "rx_items (e\<lparr>rx_tick := t\<rparr>) = rx_items e" "engine_wf (e\<lparr>rx_tick := t\<rparr>) = engine_wf e"
  by (simp_all add: rx_items_def engine_wf_def)

lemma queue_link_ok:
  assumes wf: "engine_wf e" and g: "good_datagram d"
  shows "\<exists>e'. h3q_queue_link d e = Some e' \<and> engine_wf e' \<and> rx_items e' = rx_items e @ [d]"
proof -
  let ?h = "rx_heap e" and ?as = "rx_chain e"
  have d: "d\<lparr>dg_next := None\<rparr> = d" using g by (simp add: good_datagram_def)
  have q: "lqueue dg_next ?h (peer_rx_head e) (peer_rx_tail e) ?as" using wf by (simp add: engine_wf_def)
  show ?thesis
  proof (cases "?as = []")
    case True
    with q have tn: "peer_rx_tail e = None" "rx_items e = []" by (auto simp: lqueue_def rx_items_def)
    let ?e = "e\<lparr>rx_heap := ?h @ [Some d], peer_rx_head := Some (length ?h), peer_rx_tail := Some (length ?h)\<rparr>"
    have "lqueue dg_next (rx_heap ?e) (peer_rx_head ?e) (peer_rx_tail ?e) [length ?h]"
      using g by (simp add: lqueue_push_empty good_datagram_def)
    from engine_wfI [OF this] g have "engine_wf ?e" "rx_items ?e = [d]" by (simp_all add: deref_alloc d)
    moreover have "h3q_queue_link d e = Some ?e"
      using tn d by (simp add: h3q_queue_link_def heap_alloc_def Let_def)
    ultimately show ?thesis using tn by auto
  next
    case False
    from lqueue_tail [OF q False] obtain t where
      t: "peer_rx_tail e = Some (last ?as)" "deref ?h (last ?as) = Some t" by auto
    have tl: "last ?as < length ?h" using t(2) by (rule deref_lt)
    let ?t' = "t\<lparr>dg_next := Some (length ?h)\<rparr>"
    let ?e = "e\<lparr>rx_heap := heap_set (?h @ [Some d]) (last ?as) ?t', peer_rx_tail := Some (length ?h)\<rparr>"
    have q': "lqueue dg_next (rx_heap ?e) (peer_rx_head ?e) (peer_rx_tail ?e) (?as @ [length ?h])"
      using lqueue_push [of dg_next ?h "peer_rx_head e" "last ?as" ?as t d ?t'] q t g
      by (simp add: good_datagram_def)
    have dr: "deref (heap_set (?h @ [Some d]) (last ?as) ?t') c =
        (if c = last ?as then Some ?t' else if c = length ?h then Some d else deref ?h c)" for c
      using tl by (auto simp: deref_set deref_alloc)
    have live: "c < length ?h" if "c \<in> set ?as" for c
      using q that lseg_live [of dg_next ?h] deref_lt by (fastforce simp: lqueue_def)
    have items: "map (\<lambda>a. (the (deref (rx_heap ?e) a))\<lparr>dg_next := None\<rparr>) (?as @ [length ?h]) = rx_items e @ [d]"
      using tl t(2) d by (auto simp: rx_items_def dr dest: live)
    from wf g have "list_all good_datagram (rx_items e @ [d])" by (simp add: engine_wf_def)
    with engine_wfI [OF q'] items have "engine_wf ?e" "rx_items ?e = rx_items e @ [d]" by simp_all
    moreover have "h3q_queue_link d e = Some ?e"
      using t tl d by (simp add: h3q_queue_link_def heap_alloc_def Let_def deref_alloc)
    ultimately show ?thesis by blast
  qed
qed

lemma queue_drop_ok:
  assumes wf: "engine_wf e" and ne: "rx_items e = d # ds"
  shows "\<exists>e'. h3q_queue_drop_head e = Some e' \<and> engine_wf e' \<and> rx_items e' = ds \<and>
     current_peer_addr e' = current_peer_addr e \<and> rx_tick e' = rx_tick e"
proof -
  let ?h = "rx_heap e"
  from ne obtain a as where as: "rx_chain e = a # as" by (auto simp: rx_items_def)
  have q: "lqueue dg_next ?h (peer_rx_head e) (peer_rx_tail e) (a # as)" using wf as by (simp add: engine_wf_def)
  then obtain n where n: "deref ?h a = Some n" by (auto simp: lqueue_def lseg_Cons)
  let ?e = "e\<lparr>peer_rx_head := dg_next n, peer_rx_tail := (if dg_next n = None then None else peer_rx_tail e),
      rx_heap := heap_free ?h a\<rparr>"
  from lqueue_drop [OF q n] have p: "peer_rx_head e = Some a"
    and q': "lqueue dg_next (rx_heap ?e) (peer_rx_head ?e) (peer_rx_tail ?e) as" by auto
  have "a \<notin> set as" using q lseg_distinct by (fastforce simp: lqueue_def)
  then have items: "map (\<lambda>a. (the (deref (rx_heap ?e) a))\<lparr>dg_next := None\<rparr>) as = ds"
    using ne as by (auto simp: rx_items_def deref_free)
  have "list_all good_datagram ds" using wf ne by (simp add: engine_wf_def)
  with engine_wfI [OF q'] items have "engine_wf ?e" "rx_items ?e = ds" by simp_all
  moreover have "h3q_queue_drop_head e = Some ?e" using p n by (simp add: h3q_queue_drop_head_def)
  ultimately show ?thesis by simp
qed

lemma queue_clear_ok:
  assumes wf: "engine_wf e"
  shows "\<exists>e'. h3q_peer_addr_queue_clear e = Some e' \<and> engine_wf e' \<and> rx_items e' = [] \<and>
     (\<forall>a \<in> set (rx_chain e). deref (rx_heap e') a = None) \<and>
     current_peer_addr e' = current_peer_addr e"
proof -
  have "lseg dg_next (rx_heap e) (peer_rx_head e) (rx_chain e) None"
    using wf by (simp add: engine_wf_def lqueue_def)
  from free_chain_lseg [OF this] obtain h' where
    "free_chain dg_next (rx_heap e) (peer_rx_head e) = Some h'"
    "\<forall>b. deref h' b = (if b \<in> set (rx_chain e) then None else deref (rx_heap e) b)" by blast
  then show ?thesis by (auto simp: h3q_peer_addr_queue_clear_def)
qed

interpretation rxq: fifo_contract engine_wf rx_items good_datagram h3q_queue_link
  h3q_queue_drop_head h3q_peer_addr_queue_clear
proof unfold_locales
  fix e d assume "engine_wf e" "good_datagram d"
  then show "\<exists>e'. h3q_queue_link d e = Some e' \<and> engine_wf e' \<and> rx_items e' = rx_items e @ [d]"
    by (rule queue_link_ok)
next
  fix e d ds assume "engine_wf e" "rx_items e = d # ds"
  from queue_drop_ok [OF this]
  show "\<exists>e'. h3q_queue_drop_head e = Some e' \<and> engine_wf e' \<and> rx_items e' = ds" by blast
next
  fix e assume "engine_wf e"
  from queue_clear_ok [OF this]
  show "\<exists>e'. h3q_peer_addr_queue_clear e = Some e' \<and> engine_wf e' \<and> rx_items e' = []" by blast
qed

section \<open>Filling and popping\<close>

text \<open>A message as a working BIO returns it: a non-empty datagram inside its buffer.\<close>

definition good_msg :: "bio_msg \<Rightarrow> bool" where
  "good_msg m \<longleftrightarrow> (\<exists>buf. msg_data m = Some buf \<and> unat (msg_data_len m) \<le> length buf) \<and> msg_data_len m \<noteq> 0"

lemma good_datagram_of:
  assumes "good_msg m"
  shows "good_datagram (datagram_of m)"
proof -
  from assms obtain buf where b: "msg_data m = Some buf" "unat (msg_data_len m) \<le> length buf"
      and z: "msg_data_len m \<noteq> 0" by (auto simp: good_msg_def)
  then have "0 < unat (msg_data_len m)" by (simp add: unat_gt_0)
  with b show ?thesis by (auto simp: good_datagram_def datagram_of_def)
qed

lemma queue_fill_current: "h3q_queue_fill ok ms e = Some (b, e') \<Longrightarrow> current_peer_addr e' = current_peer_addr e"
proof (induction ms arbitrary: e)
  case Nil
  then show ?case by simp
next
  case (Cons m ms)
  have l: "current_peer_addr e2 = current_peer_addr e1" if "h3q_queue_link d e1 = Some e2" for d e1 e2
    using that by (auto simp: h3q_queue_link_def heap_alloc_def Let_def split: option.splits)
  from Cons show ?case
    by (fastforce simp: Let_def h3q_peer_addr_queue_clear_def dest: l split: if_splits option.splits)
qed

lemma queue_fill_ok:
  "engine_wf e \<Longrightarrow> list_all good_msg ms \<Longrightarrow>
   \<exists>e'. h3q_queue_fill (\<lambda>_. True) ms e = Some (True, e') \<and> engine_wf e' \<and> rx_items e' = rx_items e @ map datagram_of ms"
proof (induction ms arbitrary: e)
  case Nil
  then show ?case by simp
next
  case (Cons m ms)
  let ?e1 = "e\<lparr>rx_tick := rx_tick e + 4\<rparr>"
  have g: "good_msg m" using Cons.prems by simp
  from Cons.prems(1) queue_link_ok [OF _ good_datagram_of [OF g], of ?e1] obtain e2 where
    e2: "h3q_queue_link (datagram_of m) ?e1 = Some e2" "engine_wf e2" "rx_items e2 = rx_items e @ [datagram_of m]"
    by auto
  from Cons.IH [OF e2(2)] Cons.prems obtain e3 where
    "h3q_queue_fill (\<lambda>_. True) ms e2 = Some (True, e3)" "engine_wf e3"
    "rx_items e3 = rx_items e @ [datagram_of m] @ map datagram_of ms" using e2(3) by auto
  with e2(1) g show ?case by (auto simp: Let_def good_msg_def)
qed

text \<open>Whatever fails, the queue stays well formed, and a failed fill leaves it empty.\<close>

lemma queue_fill_wf:
  "engine_wf e \<Longrightarrow> list_all (\<lambda>m. msg_data m = None \<or> msg_data_len m = 0 \<or> good_msg m) ms \<Longrightarrow>
   \<exists>b e'. h3q_queue_fill ok ms e = Some (b, e') \<and> engine_wf e' \<and> (\<not> b \<longrightarrow> rx_items e' = []) \<and>
     (b \<longrightarrow> rx_items e' = rx_items e @ map datagram_of ms)"
proof (induction ms arbitrary: e)
  case Nil
  then show ?case by (simp add: exI [of _ True])
next
  case (Cons m ms)
  let ?e1 = "e\<lparr>rx_tick := rx_tick e + 4\<rparr>"
  from queue_clear_ok [of ?e1] Cons.prems(1) obtain ec where
    ec: "h3q_peer_addr_queue_clear ?e1 = Some ec" "engine_wf ec" "rx_items ec = []" by auto
  show ?case
  proof (cases "msg_data m = None \<or> msg_data_len m = 0")
    case True
    with ec show ?thesis by (auto simp: Let_def)
  next
    case False
    with Cons.prems have g: "good_msg m" by auto
    from Cons.prems(1) queue_link_ok [OF _ good_datagram_of [OF g], of ?e1] obtain e2 where
      e2: "h3q_queue_link (datagram_of m) ?e1 = Some e2" "engine_wf e2" "rx_items e2 = rx_items e @ [datagram_of m]"
      by auto
    from Cons.IH [OF e2(2)] Cons.prems obtain b e3 where
      "h3q_queue_fill ok ms e2 = Some (b, e3)" "engine_wf e3" "\<not> b \<longrightarrow> rx_items e3 = []"
      "b \<longrightarrow> rx_items e3 = rx_items e @ [datagram_of m] @ map datagram_of ms" using e2(3) by auto
    with e2(1) ec False show ?thesis by (auto simp: Let_def)
  qed
qed

lemma queue_pop_head:
  assumes "engine_wf e" and "rx_items e = d # ds"
  obtains a item where "peer_rx_head e = Some a" "deref (rx_heap e) a = Some item"
    "item\<lparr>dg_next := None\<rparr> = d"
proof -
  from assms(2) obtain a as where as: "rx_chain e = a # as" by (auto simp: rx_items_def)
  with assms(1) obtain item where "peer_rx_head e = Some a" "deref (rx_heap e) a = Some item"
    by (auto simp: engine_wf_def lqueue_def lseg_Cons)
  with as assms(2) that show ?thesis by (auto simp: rx_items_def)
qed

lemma queue_pop_ok:
  assumes wf: "engine_wf e" and ne: "rx_items e = d # ds" and b: "msg_data m = Some buf"
    and fits: "dg_data_len d \<le> msg_data_len m"
  shows "\<exists>e' m'. h3q_queue_pop e (Some m) = Some (True, e', Some m') \<and> engine_wf e' \<and> rx_items e' = ds \<and>
     current_peer_addr e' = current_peer_addr e \<and>
     msg_data_len m' = dg_data_len d \<and> msg_data m' = Some (copy_into (dg_data d) buf) \<and>
     msg_peer m' = (if msg_peer m \<noteq> None \<and> dg_peer d \<noteq> None then dg_peer d else msg_peer m)"
proof -
  from queue_pop_head [OF wf ne] obtain a item where
    a: "peer_rx_head e = Some a" "deref (rx_heap e) a = Some item" "item\<lparr>dg_next := None\<rparr> = d" .
  then have [simp]: "dg_data item = dg_data d" "dg_data_len item = dg_data_len d" "dg_peer item = dg_peer d" by auto
  from queue_drop_ok [OF wf ne] a b fits show ?thesis
    by (auto simp: h3q_queue_pop_def not_less)
qed

lemma queue_pop_oversize:
  assumes wf: "engine_wf e" and ne: "rx_items e = d # ds" and b: "msg_data m = Some buf"
    and fits: "msg_data_len m < dg_data_len d"
  shows "\<exists>e'. h3q_queue_pop e (Some m) = Some (False, e', Some m) \<and> engine_wf e' \<and> rx_items e' = ds \<and>
     current_peer_addr e' = current_peer_addr e"
proof -
  from queue_pop_head [OF wf ne] obtain a item where
    a: "peer_rx_head e = Some a" "deref (rx_heap e) a = Some item" "item\<lparr>dg_next := None\<rparr> = d" .
  then have [simp]: "dg_data_len item = dg_data_len d" by auto
  from queue_drop_ok [OF wf ne] a b fits show ?thesis
    by (auto simp: h3q_queue_pop_def)
qed

lemma queue_pop_empty: "engine_wf e \<Longrightarrow> rx_items e = [] \<Longrightarrow> h3q_queue_pop e m = Some (False, e, m)"
  using rx_items_head [of e] by (simp add: h3q_queue_pop_def split: option.splits)

lemma queue_pop_wf:
  assumes "engine_wf e"
  shows "\<exists>b e' m'. h3q_queue_pop e (Some m) = Some (b, e', Some m') \<and> engine_wf e'"
proof (cases "rx_items e")
  case Nil
  with assms queue_pop_empty [of e "Some m"] show ?thesis by auto
next
  case (Cons d ds)
  show ?thesis
  proof (cases "msg_data m")
    case None
    obtain a where "peer_rx_head e = Some a" using queue_pop_head [OF assms Cons] by blast
    with None assms show ?thesis by (auto simp: h3q_queue_pop_def)
  next
    case (Some buf)
    with queue_pop_ok [OF assms Cons Some] queue_pop_oversize [OF assms Cons Some] show ?thesis
      by (meson not_less)
  qed
qed

section \<open>The receive method\<close>

lemma copy_into_take [simp]: "take (length d) (copy_into d buf) = d"
  by (simp add: copy_into_def)

text \<open>
  What the filter relies on in the BIO below: it returns the same array, and every message it
  counts as received lies inside its buffer.
\<close>

definition recv_ok :: "'n recv_fn \<Rightarrow> bool" where
  "recv_ok f \<longleftrightarrow> (\<forall>n msgs. case f n msgs of (rv, msgs', received, n') \<Rightarrow>
     length msgs' = length msgs \<and>
     list_all (\<lambda>m. msg_data m = None \<or> msg_data_len m = 0 \<or> good_msg m) (take received msgs'))"

lemma note_peer_frame [simp]:
  "rx_items (note_peer ms e) = rx_items e" "engine_wf (note_peer ms e) = engine_wf e"
  by (simp_all add: note_peer_def split: option.splits)

text \<open>A call that finds a queued datagram and a large enough buffer.\<close>

lemma recvmmsg_queued:
  assumes wf: "engine_wf e" and ne: "rx_items e = d # ds" and cur: "current_peer_addr e \<noteq> None"
    and m: "msg_data m = Some buf" "dg_data_len d \<le> msg_data_len m" "msg_peer m \<noteq> None"
    and p: "dg_peer d = Some p"
  shows "\<exists>e' m'. h3q_peer_addr_bio_recvmmsg ok (Some f) (Some e) (m # ms) k n = Some (True, m' # ms, 1, Some e', n) \<and>
     engine_wf e' \<and> rx_items e' = ds \<and> current_peer_addr e' = Some p \<and>
     take (unat (msg_data_len m')) (the (msg_data m')) = dg_data d \<and> msg_peer m' = Some p"
proof -
  let ?e1 = "e\<lparr>current_peer_addr := map_option (\<lambda>_. cleared_addr) (current_peer_addr e)\<rparr>"
  have h: "peer_rx_head e \<noteq> None" using rx_items_head [OF wf] ne by simp
  have "good_datagram d" using wf ne by (simp add: engine_wf_def)
  then have len: "unat (dg_data_len d) = length (dg_data d)" by (simp add: good_datagram_def)
  from queue_pop_ok [of ?e1 d ds m buf] wf ne m obtain e2 m' where
    "h3q_queue_pop ?e1 (Some m) = Some (True, e2, Some m')" "engine_wf e2" "rx_items e2 = ds"
    "current_peer_addr e2 = current_peer_addr ?e1" "msg_data_len m' = dg_data_len d"
    "msg_data m' = Some (copy_into (dg_data d) buf)" "msg_peer m' = Some p" using p by auto
  with h cur len show ?thesis
    by (auto simp: h3q_peer_addr_bio_recvmmsg_def Let_def note_peer_def)
qed

text \<open>A call that finds the queue empty and receives a batch from below.\<close>

lemma recvmmsg_batch:
  assumes wf: "engine_wf e" and em: "rx_items e = []" and cur: "current_peer_addr e \<noteq> None"
    and f: "f n msgs = (True, ms, k, n')" "0 < k" "k \<le> length ms" "msgs \<noteq> []"
    and g: "list_all good_msg (take k ms)" and p: "msg_peer (hd ms) = Some p"
  shows "\<exists>e' m'. h3q_peer_addr_bio_recvmmsg (\<lambda>_. True) (Some f) (Some e) msgs j n = Some (True, m' # tl ms, 1, Some e', n') \<and>
     engine_wf e' \<and> rx_items e' = map datagram_of (tl (take k ms)) \<and> current_peer_addr e' = Some p \<and>
     take (unat (msg_data_len m')) (the (msg_data m')) = dg_data (datagram_of (hd ms)) \<and> msg_peer m' = Some p"
proof -
  let ?e1 = "e\<lparr>current_peer_addr := map_option (\<lambda>_. cleared_addr) (current_peer_addr e)\<rparr>"
  obtain m mr where ms: "ms = m # mr" using f(2,3) by (cases ms) auto
  have h: "peer_rx_head e = None" using rx_items_head [OF wf] em by simp
  from f(2) ms have tk: "take k ms = m # take (k - 1) mr" by (cases k) auto
  have gm: "good_msg m" using g tk by simp
  from queue_fill_ok [of ?e1 "take k ms"] wf em g obtain e2 where
    e2: "h3q_queue_fill (\<lambda>_. True) (take k ms) ?e1 = Some (True, e2)" "engine_wf e2"
      "rx_items e2 = datagram_of m # map datagram_of (take (k - 1) mr)" using tk by auto
  from gm obtain buf where buf: "msg_data m = Some buf" by (auto simp: good_msg_def)
  have "unat (dg_data_len (datagram_of m)) = length (dg_data (datagram_of m))"
    using good_datagram_of [OF gm] by (simp add: good_datagram_def)
  moreover from queue_pop_ok [OF e2(2,3) buf] p ms obtain e3 m' where
    "h3q_queue_pop e2 (Some m) = Some (True, e3, Some m')" "engine_wf e3"
    "rx_items e3 = map datagram_of (take (k - 1) mr)"
    "current_peer_addr e3 = current_peer_addr e2" "msg_data_len m' = dg_data_len (datagram_of m)"
    "msg_data m' = Some (copy_into (dg_data (datagram_of m)) buf)" "msg_peer m' = Some p"
    by (auto simp: datagram_of_def)
  moreover have "current_peer_addr e2 = current_peer_addr ?e1" using queue_fill_current [OF e2(1)] .
  ultimately show ?thesis using h cur f ms tk e2(1)
    by (auto simp: h3q_peer_addr_bio_recvmmsg_def Let_def note_peer_def)
qed

text \<open>Successive receive calls, each with its own array, as OpenSSL makes them.\<close>

fun recv_seq ::
  "(nat \<Rightarrow> bool) \<Rightarrow> 'n recv_fn \<Rightarrow> bio_msg list list \<Rightarrow> h3q_engine \<Rightarrow> 'n \<Rightarrow>
   ((byte list \<times> bio_addr option) list \<times> h3q_engine \<times> 'n) option" where
  "recv_seq ok f [] e n = Some ([], e, n)"
| "recv_seq ok f (msgs # rest) e n =
    (case h3q_peer_addr_bio_recvmmsg ok (Some f) (Some e) msgs 0 n of
       Some (True, m # _, _, Some e', n') \<Rightarrow>
         map_option (\<lambda>(out, r). ((take (unat (msg_data_len m)) (the (msg_data m)), current_peer_addr e') # out, r))
           (recv_seq ok f rest e' n')
     | _ \<Rightarrow> None)"

text \<open>An array whose first message can take any of the datagrams \<open>ds\<close> and their addresses.\<close>

definition takes_all :: "h3q_datagram list \<Rightarrow> bio_msg list \<Rightarrow> bool" where
  "takes_all ds msgs \<longleftrightarrow> (\<exists>m ms. msgs = m # ms \<and> msg_data m \<noteq> None \<and> msg_peer m \<noteq> None \<and>
     list_all (\<lambda>d. dg_data_len d \<le> msg_data_len m) ds)"

lemma recv_seq_queued:
  assumes "engine_wf e" and "current_peer_addr e \<noteq> None" and "length calls = length (rx_items e)"
    and "list_all (takes_all (rx_items e)) calls" and "list_all (\<lambda>d. dg_peer d \<noteq> None) (rx_items e)"
  shows "\<exists>e'. recv_seq ok f calls e n = Some (map (\<lambda>d. (dg_data d, dg_peer d)) (rx_items e), e', n) \<and>
     engine_wf e' \<and> rx_items e' = []"
  using assms
proof (induction calls arbitrary: e)
  case Nil
  then show ?case by simp
next
  case (Cons msgs calls)
  then obtain d ds where ds: "rx_items e = d # ds" by (cases "rx_items e") auto
  from Cons.prems(4) ds obtain m ms buf where
    m: "msgs = m # ms" "msg_data m = Some buf" "msg_peer m \<noteq> None" "dg_data_len d \<le> msg_data_len m"
    by (auto simp: takes_all_def)
  from Cons.prems(5) ds obtain p where p: "dg_peer d = Some p" by auto
  from recvmmsg_queued [OF Cons.prems(1) ds Cons.prems(2) m(2,4,3) p, of ok f ms 0 n] obtain e' m' where
    e': "h3q_peer_addr_bio_recvmmsg ok (Some f) (Some e) msgs 0 n = Some (True, m' # ms, 1, Some e', n)"
      "engine_wf e'" "rx_items e' = ds" "current_peer_addr e' = Some p"
      "take (unat (msg_data_len m')) (the (msg_data m')) = dg_data d" using m(1) by blast
  have "list_all (takes_all (rx_items e')) calls"
    using Cons.prems(4) ds e'(3) by (fastforce simp: list_all_iff takes_all_def)
  with Cons.IH [of e'] Cons.prems e' ds show ?case using p by auto
qed

lemma recvmmsg_wf:
  assumes wf: "engine_wf e" and f: "recv_ok f"
  shows "\<exists>rv msgs' j' e' n'. h3q_peer_addr_bio_recvmmsg ok (Some f) (Some e) msgs j n = Some (rv, msgs', j', Some e', n') \<and>
     engine_wf e'"
proof (cases "msgs = []")
  case True
  with wf show ?thesis by (auto simp: h3q_peer_addr_bio_recvmmsg_def)
next
  case False
  let ?e1 = "e\<lparr>current_peer_addr := map_option (\<lambda>_. cleared_addr) (current_peer_addr e)\<rparr>"
  have wf1: "engine_wf ?e1" using wf by simp
  show ?thesis
  proof (cases "peer_rx_head e = None")
    case False
    from queue_pop_wf [OF wf1, of "hd msgs"] False \<open>msgs \<noteq> []\<close> show ?thesis
      by (auto simp: h3q_peer_addr_bio_recvmmsg_def Let_def)
  next
    case True
    obtain rv ms k n' where r: "f n msgs = (rv, ms, k, n')" by (cases "f n msgs") auto
    with f have l: "list_all (\<lambda>m. msg_data m = None \<or> msg_data_len m = 0 \<or> good_msg m) (take k ms)"
      unfolding recv_ok_def by (metis (no_types, lifting) case_prod_conv)
    from queue_fill_wf [OF wf1 l, of ok] obtain b e2 where
      e2: "h3q_queue_fill ok (take k ms) ?e1 = Some (b, e2)" "engine_wf e2" by blast
    from queue_pop_wf [OF e2(2), of "hd ms"] e2 wf1 r True \<open>msgs \<noteq> []\<close> show ?thesis
      by (auto simp: h3q_peer_addr_bio_recvmmsg_def Let_def)
  qed
qed

lemma recvmmsg_progress:
  assumes wf: "engine_wf e" and ne: "rx_items e = d # ds" and m: "msg_data m = Some buf"
  shows "\<exists>rv m' j' e'. h3q_peer_addr_bio_recvmmsg ok (Some f) (Some e) (m # ms) j n = Some (rv, m' # ms, j', Some e', n) \<and>
     engine_wf e' \<and> rx_items e' = ds"
proof -
  let ?e1 = "e\<lparr>current_peer_addr := map_option (\<lambda>_. cleared_addr) (current_peer_addr e)\<rparr>"
  have h: "peer_rx_head e \<noteq> None" using rx_items_head [OF wf] ne by simp
  have wf1: "engine_wf ?e1" "rx_items ?e1 = d # ds" using wf ne by simp_all
  show ?thesis
  proof (cases "msg_data_len m < dg_data_len d")
    case True
    from queue_pop_oversize [OF wf1 m True] h show ?thesis
      by (auto simp: h3q_peer_addr_bio_recvmmsg_def Let_def)
  next
    case False
    then have "dg_data_len d \<le> msg_data_len m" by simp
    from queue_pop_ok [OF wf1 m this] h show ?thesis
      by (auto simp: h3q_peer_addr_bio_recvmmsg_def Let_def)
  qed
qed

section \<open>Properties\<close>

text \<open>
  C8: A batch the BIO below returns in one call is handed to OpenSSL one datagram per call,
  in order, each exactly once and whole, and while a datagram is being processed the
  engine's current peer address is the address that datagram came from; the BIO below is
  not asked again until the batch is used up.
\<close>

theorem filter_delivers_batch_in_order:
  assumes "engine_wf e" and "rx_items e = []" and "current_peer_addr e \<noteq> None"
    and "f n msgs = (True, ms, k, n')" and "0 < k" and "k \<le> length ms" and "msgs \<noteq> []"
    and "list_all good_msg (take k ms)" and "list_all (\<lambda>m. msg_peer m \<noteq> None) (take k ms)"
    and "length calls = k - 1" and "list_all (takes_all (map datagram_of (take k ms))) calls"
  shows "\<exists>e'. recv_seq (\<lambda>_. True) f (msgs # calls) e n =
       Some (map (\<lambda>m. (take (unat (msg_data_len m)) (the (msg_data m)), msg_peer m)) (take k ms), e', n') \<and>
     engine_wf e' \<and> rx_items e' = []"
proof -
  obtain m mr where ms: "ms = m # mr" using assms(5,6) by (cases ms) auto
  have tk: "take k ms = m # take (k - 1) mr" using ms assms(5) by (cases k) auto
  obtain p where p: "msg_peer (hd ms) = Some p" using assms(9) tk ms by auto
  from recvmmsg_batch [where f = f and n = n and msgs = msgs and j = 0, OF assms(1-8) p] obtain e1 m' where
    e1: "h3q_peer_addr_bio_recvmmsg (\<lambda>_. True) (Some f) (Some e) msgs 0 n = Some (True, m' # tl ms, 1, Some e1, n')"
      "engine_wf e1" "rx_items e1 = map datagram_of (take (k - 1) mr)" "current_peer_addr e1 = Some p"
      "take (unat (msg_data_len m')) (the (msg_data m')) = dg_data (datagram_of m)" using ms tk by auto
  have "list_all (takes_all (rx_items e1)) calls"
    using assms(11) e1(3) tk by (fastforce simp: list_all_iff takes_all_def)
  moreover have "list_all (\<lambda>d. dg_peer d \<noteq> None) (rx_items e1)"
    using assms(9) tk e1(3) by (auto simp: list_all_iff datagram_of_def)
  moreover have "length calls = length (rx_items e1)" using e1(3) assms(6,10) ms by simp
  ultimately have "\<exists>e'. recv_seq (\<lambda>_. True) f calls e1 n' =
      Some (map (\<lambda>d. (dg_data d, dg_peer d)) (rx_items e1), e', n') \<and> engine_wf e' \<and> rx_items e' = []"
    using e1(4) by (intro recv_seq_queued [OF e1(2)]) simp_all
  then show ?thesis using e1 p ms tk by (auto simp: datagram_of_def)
qed

definition wit_msg :: "byte list \<Rightarrow> apr_port_t \<Rightarrow> bio_msg" where
  "wit_msg bs port = \<lparr>msg_data = Some bs, msg_data_len = of_nat (length bs),
     msg_peer = Some \<lparr>ba_family = AF_INET, ba_raw = Some [127, 0, 0, 1], ba_port = port\<rparr>, msg_local = None\<rparr>"

definition wit_engine :: h3q_engine where
  "wit_engine = \<lparr>ssl_ctx = Some 1, ssl_listener = Some 2, peer_addr_bio_method = Some 3,
     current_peer_addr = Some cleared_addr, peer_addr_ex_index = 0, peer_rx_head = None,
     peer_rx_tail = None, rx_heap = [], rx_tick = 0\<rparr>"

theorem filter_delivers_batch_in_order_witness:
  "\<exists>e'. recv_seq (\<lambda>_. True) (\<lambda>n msgs. (True, [wit_msg [1, 2] 5, wit_msg [3] 6], 2, Suc n))
       [[wit_msg [0, 0] 0, wit_msg [0, 0] 0], [wit_msg [0, 0] 0]] wit_engine (0 :: nat) =
     Some ([([1, 2], Some \<lparr>ba_family = AF_INET, ba_raw = Some [127, 0, 0, 1], ba_port = 5\<rparr>),
            ([3], Some \<lparr>ba_family = AF_INET, ba_raw = Some [127, 0, 0, 1], ba_port = 6\<rparr>)], e', 1) \<and>
     engine_wf e' \<and> rx_items e' = []"
  using filter_delivers_batch_in_order
    [of wit_engine "\<lambda>n msgs. (True, [wit_msg [1, 2] 5, wit_msg [3] 6], 2, Suc n)" 0
      "[wit_msg [0, 0] 0, wit_msg [0, 0] 0]" "[wit_msg [1, 2] 5, wit_msg [3] 6]" 2 1 "[[wit_msg [0, 0] 0]]"]
  by (simp add: wit_engine_def wit_msg_def good_msg_def takes_all_def datagram_of_def)

text \<open>
  C9: Whatever the allocator does and whatever a working BIO below returns, a receive call
  never reads through a null or freed pointer and leaves the queue well formed; and a call
  that brings a buffer removes exactly the head of a non-empty queue, even when the datagram
  does not fit, without asking the BIO below (so the pump cannot spin on it).
\<close>

theorem filter_receive_safe:
  assumes "engine_wf e" and "recv_ok f"
  shows "\<exists>rv msgs' j' e' n'. h3q_peer_addr_bio_recvmmsg ok (Some f) (Some e) msgs j n = Some (rv, msgs', j', Some e', n') \<and>
     engine_wf e' \<and>
     (rx_items e \<noteq> [] \<and> msgs \<noteq> [] \<and> msg_data (hd msgs) \<noteq> None \<longrightarrow> rx_items e' = tl (rx_items e) \<and> n' = n)"
proof (cases "rx_items e \<noteq> [] \<and> msgs \<noteq> [] \<and> msg_data (hd msgs) \<noteq> None")
  case True
  then obtain d ds m ms buf where "rx_items e = d # ds" "msgs = m # ms" "msg_data m = Some buf"
    by (cases "rx_items e"; cases msgs) auto
  with recvmmsg_progress [OF assms(1), of d ds m buf ok f ms j n] show ?thesis by fastforce
next
  case False
  with recvmmsg_wf [OF assms, of ok msgs j n] show ?thesis by blast
qed

theorem filter_receive_safe_witness:
  "\<exists>rv msgs' j' e' n'. h3q_peer_addr_bio_recvmmsg (\<lambda>t. t = 0)
       (Some (\<lambda>n msgs. (True, msgs, 0, Suc n))) (Some wit_engine) [wit_msg [0] 0] 0 (0 :: nat) =
     Some (rv, msgs', j', Some e', n') \<and> engine_wf e'"
  using filter_receive_safe [of wit_engine "\<lambda>n msgs. (True, msgs, 0, Suc n)" "\<lambda>t. t = 0" "[wit_msg [0] 0]" 0 0]
  by (auto simp: wit_engine_def recv_ok_def)

end
