(* ===== verification/Quic_Engine.thy ===== *)
theory Quic_Engine
  imports Quic_Addr "HOL-Library.Signed_Division"
begin

text \<open>
  The QUIC listener (\<^verbatim>\<open>src/quic/h3q.c\<close>) and the TLS context it is built on
  (\<^verbatim>\<open>src/quic/detail/h3q_tls.c\<close>). Which OpenSSL calls fail is a parameter. The objects OpenSSL
  and the allocator hand out are counted in a list of live resources, so freeing something
  twice is \<open>None\<close> and forgetting something is visible. \<^verbatim>\<open>SSL_handle_events\<close> is a tree of calls
  to the receive method of the filter of \<open>Quic_Addr\<close>.
\<close>

section \<open>Reporting TLS errors\<close>

definition H3Q_ERRLEN :: nat where "H3Q_ERRLEN = 256"

text \<open>\<^verbatim>\<open>snprintf\<close> into \<open>n > 0\<close> bytes: the text kept before the terminator, and the length wanted.\<close>

definition snprintf :: "nat \<Rightarrow> string \<Rightarrow> string \<times> nat" where
  "snprintf n msg = (take (n - 1) msg, length msg)"

text \<open>The error queue holds codes, the oldest first; the buffer is \<open>None\<close> for a null pointer.\<close>

definition h3q_tls_error ::
  "(nat \<Rightarrow> string) \<Rightarrow> string option \<Rightarrow> nat \<Rightarrow> string \<Rightarrow> nat list \<Rightarrow> string option \<times> nat list" where
  "h3q_tls_error err_string err errlen msg q =
    (if err = None \<or> errlen = 0 then (err, [])
     else (case snprintf errlen msg of (out, n) \<Rightarrow>
       (let code = (case q of [] \<Rightarrow> 0 | c # _ \<Rightarrow> c) in
        if code \<noteq> 0 \<and> 0 < n \<and> n + 2 < errlen
        then (Some (out @ fst (snprintf (errlen - n) ('': '' @ fst (snprintf H3Q_ERRLEN (err_string code))))), [])
        else (Some out, []))))"

section \<open>ALPN\<close>

datatype alpn_ret = SSL_TLSEXT_ERR_OK | SSL_TLSEXT_ERR_NOACK

definition alpn_h3 :: "byte list" where "alpn_h3 = [2, 0x68, 0x33]"

text \<open>\<open>select\<close> is \<^verbatim>\<open>SSL_select_next_proto\<close>: whether it negotiated, and the protocol it points at.\<close>

definition h3q_tls_alpn_select_cb ::
  "(byte list \<Rightarrow> byte list \<Rightarrow> bool \<times> byte list) \<Rightarrow> byte list \<Rightarrow> alpn_ret \<times> byte list" where
  "h3q_tls_alpn_select_cb select inp =
    (case select alpn_h3 inp of (negotiated, out) \<Rightarrow>
       if negotiated then (SSL_TLSEXT_ERR_OK, out) else (SSL_TLSEXT_ERR_NOACK, out))"

section \<open>Resources\<close>

datatype res = R_engine | R_ctx | R_method | R_peer_addr | R_listener | R_dgram_bio | R_filter_bio

record ossl_res =
  live :: "res list"
  owned :: "res list"
  listener_flags :: uint64_t
  ctx_tls13_only :: bool
  ctx_alpn :: bool
  ctx_keylog :: bool

definition no_res :: ossl_res where
  "no_res = \<lparr>live = [], owned = [], listener_flags = 0, ctx_tls13_only = False, ctx_alpn = False, ctx_keylog = False\<rparr>"

definition res_alloc :: "res \<Rightarrow> ossl_res \<Rightarrow> ossl_res" where
  "res_alloc r s = s\<lparr>live := r # live s\<rparr>"

definition res_free :: "res \<Rightarrow> ossl_res \<Rightarrow> ossl_res option" where
  "res_free r s = (if r \<in> set (live s) then Some (s\<lparr>live := remove1 r (live s)\<rparr>) else None)"

fun res_free_all :: "res list \<Rightarrow> ossl_res \<Rightarrow> ossl_res option" where
  "res_free_all [] s = Some s"
| "res_free_all (r # rs) s = Option.bind (res_free r s) (res_free_all rs)"

section \<open>Creating and destroying the listener\<close>

record engine_env =
  calloc_ok :: bool
  ctx_new_ok :: bool
  cert_ok :: bool
  key_ok :: bool
  keylog_env :: bool
  meth_new_ok :: bool
  set_ctrl_ok :: bool
  set_sendmmsg_ok :: bool
  set_recvmmsg_ok :: bool
  set_destroy_ok :: bool
  addr_new_ok :: bool
  ex_new_index :: int
  new_listener_ok :: bool
  new_dgram_ok :: bool
  filter_new_ok :: bool
  listen_ok :: bool
  nonblocking_ok :: bool

definition SSL_LISTENER_FLAG_NO_VALIDATE :: uint64_t where "SSL_LISTENER_FLAG_NO_VALIDATE = 2"

definition h3q_tls_ctx_create :: "engine_env \<Rightarrow> ossl_res \<Rightarrow> ((string + unit) \<times> ossl_res) option" where
  "h3q_tls_ctx_create env s =
    (if \<not> ctx_new_ok env then Some (Inl ''SSL_CTX_new failed'', s)
     else (let s1 = (res_alloc R_ctx s)\<lparr>ctx_tls13_only := True\<rparr> in
       if \<not> cert_ok env \<or> \<not> key_ok env
       then map_option (\<lambda>s2. (Inl ''loading the certificate or private key failed'', s2)) (res_free R_ctx s1)
       else Some (Inr (), s1\<lparr>ctx_alpn := True, ctx_keylog := keylog_env env\<rparr>)))"

text \<open>
  Freeing the listener frees the BIOs it was given; freeing the filter BIO runs its destroy
  method, which empties the engine's queue once more.
\<close>

definition ssl_free_listener :: "h3q_engine \<Rightarrow> ossl_res \<Rightarrow> (h3q_engine \<times> ossl_res) option" where
  "ssl_free_listener e s =
    (case (if R_filter_bio \<in> set (owned s) then h3q_peer_addr_bio_destroy (Some e) else Some (True, Some e)) of
       Some (_, Some e') \<Rightarrow> map_option (\<lambda>s'. (e', s'\<lparr>owned := []\<rparr>)) (res_free_all (R_listener # owned s) s)
     | _ \<Rightarrow> None)"

definition h3q_engine_destroy :: "h3q_engine option \<Rightarrow> ossl_res \<Rightarrow> ossl_res option" where
  "h3q_engine_destroy engine s =
    (case engine of
       None \<Rightarrow> Some s
     | Some e \<Rightarrow>
       Option.bind (h3q_peer_addr_queue_clear e) (\<lambda>e1.
       Option.bind (if ssl_listener e1 \<noteq> None then ssl_free_listener e1 s else Some (e1, s)) (\<lambda>(e2, s2).
       Option.bind (if current_peer_addr e2 \<noteq> None then res_free R_peer_addr s2 else Some s2) (\<lambda>s3.
       Option.bind (if peer_addr_bio_method e2 \<noteq> None then res_free R_method s3 else Some s3) (\<lambda>s4.
       Option.bind (if ssl_ctx e2 \<noteq> None then res_free R_ctx s4 else Some s4) (res_free R_engine))))))"

definition zero_engine :: h3q_engine where
  "zero_engine = \<lparr>ssl_ctx = None, ssl_listener = None, peer_addr_bio_method = None, current_peer_addr = None,
     peer_addr_ex_index = 0, peer_rx_head = None, peer_rx_tail = None, rx_heap = [], rx_tick = 0\<rparr>"

text \<open>An error after the engine exists: destroy what was built and report the reason.\<close>

definition engine_fail :: "string \<Rightarrow> h3q_engine \<Rightarrow> ossl_res \<Rightarrow> ((string + h3q_engine) \<times> ossl_res) option" where
  "engine_fail msg e s = map_option (Pair (Inl msg)) (h3q_engine_destroy (Some e) s)"

text \<open>The second half of the ladder: the listener and its BIOs.\<close>

definition engine_listen :: "engine_env \<Rightarrow> bool \<Rightarrow> nat \<Rightarrow> h3q_engine \<Rightarrow> ossl_res \<Rightarrow> ((string + h3q_engine) \<times> ossl_res) option" where
  "engine_listen env address_validation udp_fd e s =
    (if \<not> new_listener_ok env then engine_fail ''SSL_new_listener failed'' e s
     else (let e1 = e\<lparr>ssl_listener := Some 0\<rparr>;
               s1 = (res_alloc R_listener s)\<lparr>listener_flags := (if address_validation then 0 else SSL_LISTENER_FLAG_NO_VALIDATE)\<rparr>
       in if \<not> new_dgram_ok env then engine_fail (''BIO_new_dgram failed for fd='' @ print_dec udp_fd) e1 s1
          else (let s2 = res_alloc R_dgram_bio s1 in
            if \<not> filter_new_ok env
            then Option.bind (res_free R_dgram_bio s2) (engine_fail ''BIO_new(h3q_peer_addr) failed'' e1)
            else (let s3 = (res_alloc R_filter_bio s2)\<lparr>owned := [R_filter_bio, R_dgram_bio]\<rparr> in
              if \<not> listen_ok env \<or> \<not> nonblocking_ok env then engine_fail ''SSL_listen failed'' e1 s3
              else Some (Inr e1, s3)))))"

definition h3q_engine_create :: "engine_env \<Rightarrow> bool \<Rightarrow> nat \<Rightarrow> ossl_res \<Rightarrow> ((string + h3q_engine) \<times> ossl_res) option" where
  "h3q_engine_create env address_validation udp_fd s =
    (if \<not> calloc_ok env then Some (Inl ''allocating the engine failed'', s)
     else (let e0 = zero_engine\<lparr>peer_addr_ex_index := -1\<rparr>; s0 = res_alloc R_engine s in
       case h3q_tls_ctx_create env s0 of
         None \<Rightarrow> None
       | Some (Inl msg, s1) \<Rightarrow> engine_fail msg e0 s1
       | Some (Inr _, s1) \<Rightarrow>
         (let e1 = e0\<lparr>ssl_ctx := Some 0\<rparr> in
          if \<not> meth_new_ok env then engine_fail ''BIO_meth_new failed'' e1 s1
          else (let e2 = e1\<lparr>peer_addr_bio_method := Some 0\<rparr>; s2 = res_alloc R_method s1 in
            if \<not> set_ctrl_ok env \<or> \<not> set_sendmmsg_ok env \<or> \<not> set_recvmmsg_ok env \<or> \<not> set_destroy_ok env
            then engine_fail ''installing the peer address BIO handlers failed'' e2 s2
            else (let e3 = e2\<lparr>current_peer_addr := (if addr_new_ok env then Some cleared_addr else None),
                              peer_addr_ex_index := ex_new_index env\<rparr>;
                      s3 = (if addr_new_ok env then res_alloc R_peer_addr s2 else s2)
              in if current_peer_addr e3 = None \<or> peer_addr_ex_index e3 < 0
                 then engine_fail ''initializing peer address recovery failed'' e3 s3
                 else engine_listen env address_validation udp_fd e3 s3)))))"

section \<open>Driving the listener\<close>

datatype rx_call = Rx_recv "bio_msg list"
datatype rx_ans = Rx_ans bool "bio_msg list" nat

text \<open>
  The receive method as OpenSSL calls it while it handles events: on the engine and the
  state of the socket, or \<open>None\<close> after undefined behaviour.
\<close>

fun rx_step :: "(nat \<Rightarrow> bool) \<Rightarrow> 'n recv_fn \<Rightarrow> rx_call \<Rightarrow> (h3q_engine \<times> 'n) option \<Rightarrow> rx_ans \<times> (h3q_engine \<times> 'n) option" where
  "rx_step ok f (Rx_recv msgs) None = (Rx_ans False msgs 0, None)"
| "rx_step ok f (Rx_recv msgs) (Some (e, n)) =
    (case h3q_peer_addr_bio_recvmmsg ok (Some f) (Some e) msgs 0 n of
       Some (rv, msgs', k, Some e', n') \<Rightarrow> (Rx_ans rv msgs' k, Some (e', n'))
     | _ \<Rightarrow> (Rx_ans False msgs 0, None))"

type_synonym 'l events_fn = "'l \<Rightarrow> (rx_call, rx_ans, 'l \<times> int) itree"

definition handle_events :: "(nat \<Rightarrow> bool) \<Rightarrow> 'n recv_fn \<Rightarrow> 'l events_fn \<Rightarrow> 'l \<times> h3q_engine \<times> 'n \<Rightarrow> (int \<times> 'l \<times> h3q_engine \<times> 'n) option" where
  "handle_events ok f ev s =
    (case run_itree (rx_step ok f) (ev (fst s)) (Some (snd s)) of
       ((l, rv), Some en) \<Rightarrow> Some (rv, l, en) | (_, None) \<Rightarrow> None)"

fun pump_loop :: "(nat \<Rightarrow> bool) \<Rightarrow> 'n recv_fn \<Rightarrow> 'l events_fn \<Rightarrow> nat \<Rightarrow> int \<Rightarrow> 'l \<times> h3q_engine \<times> 'n \<Rightarrow>
    (int \<times> 'l \<times> h3q_engine \<times> 'n) c_run" where
  "pump_loop ok f ev 0 work s = Out_of_fuel"
| "pump_loop ok f ev (Suc k) work s =
    (if peer_rx_head (fst (snd s)) = None then Done (work, s)
     else (case handle_events ok f ev s of
             None \<Rightarrow> Undefined
           | Some (rv, s') \<Rightarrow> if rv \<noteq> 1 then Done (-1, s') else pump_loop ok f ev k 1 s'))"

definition h3q_engine_pump :: "(nat \<Rightarrow> bool) \<Rightarrow> 'n recv_fn \<Rightarrow> 'l events_fn \<Rightarrow> nat \<Rightarrow> 'l \<times> h3q_engine \<times> 'n \<Rightarrow>
    (int \<times> 'l \<times> h3q_engine \<times> 'n) c_run" where
  "h3q_engine_pump ok f ev fuel s =
    (if ssl_listener (fst (snd s)) = None then Done (0, s)
     else (case handle_events ok f ev s of
             None \<Rightarrow> Undefined
           | Some (rv, s') \<Rightarrow> if rv \<noteq> 1 then Done (-1, s') else pump_loop ok f ev fuel 0 s'))"

text \<open>
  What the next wait needs. \<open>tmo\<close> is what \<^verbatim>\<open>SSL_get_event_timeout\<close> reports: seconds,
  microseconds and whether there is no timer, or \<open>None\<close> when the call fails.
\<close>

definition h3q_engine_want ::
  "h3q_engine option \<Rightarrow> bool \<Rightarrow> bool \<Rightarrow> (int \<times> int \<times> bool) option \<Rightarrow> int \<Rightarrow> bool \<times> bool \<times> int" where
  "h3q_engine_want engine read_desired write_desired tmo timeout_ms =
    (if (case engine of None \<Rightarrow> True | Some e \<Rightarrow> ssl_listener e = None) then (False, False, 1000)
     else (let t = (case tmo of
                      Some (sec, usec, is_infinite) \<Rightarrow>
                        (let ms = sec * 1000 + usec sdiv 1000 in
                         if \<not> is_infinite \<and> 0 \<le> ms \<and> ms < timeout_ms then ms else timeout_ms)
                    | None \<Rightarrow> timeout_ms)
           in (read_desired, write_desired, if t < 1 then 1 else t)))"

definition h3q_engine_accept_conn :: "('l \<Rightarrow> 'l \<times> nat option) \<Rightarrow> h3q_engine option \<Rightarrow> 'l \<Rightarrow> 'l \<times> nat option" where
  "h3q_engine_accept_conn accept engine l =
    (if (case engine of None \<Rightarrow> True | Some e \<Rightarrow> ssl_listener e = None) then (l, None) else accept l)"

text \<open>A \<^verbatim>\<open>sockaddr_storage\<close> as it is filled in, and the number of its bytes that matter.\<close>

record sockaddr =
  sa_family :: int
  sa_addr :: "byte list"
  sa_port :: apr_port_t

definition h3q_engine_peer_addr :: "h3q_engine option \<Rightarrow> nat option \<Rightarrow> (nat \<rightharpoonup> bio_addr) \<Rightarrow> (sockaddr \<times> nat) option" where
  "h3q_engine_peer_addr engine conn ex =
    (case (engine, conn) of
       (Some e, Some c) \<Rightarrow>
         if peer_addr_ex_index e < 0 then None
         else (case ex c of
             None \<Rightarrow> None
           | Some peer \<Rightarrow>
             if ba_family peer = AF_INET
             then (case ba_raw peer of
                     Some raw \<Rightarrow> if length raw \<noteq> 4 then None
                                 else Some (\<lparr>sa_family = AF_INET, sa_addr = raw, sa_port = ba_port peer\<rparr>, 16)
                   | None \<Rightarrow> None)
             else if ba_family peer = AF_INET6
             then (case ba_raw peer of
                     Some raw \<Rightarrow> if length raw \<noteq> 16 then None
                                 else Some (\<lparr>sa_family = AF_INET6, sa_addr = raw, sa_port = ba_port peer\<rparr>, 28)
                   | None \<Rightarrow> None)
             else None)
     | _ \<Rightarrow> None)"

section \<open>Error reports fit the buffer\<close>



section \<open>Nothing leaks and nothing is freed twice\<close>

lemma clear_empty_engine [simp]:
  "peer_rx_head e = None \<Longrightarrow> peer_rx_tail e = None \<Longrightarrow> h3q_peer_addr_queue_clear e = Some e"
  by (simp add: h3q_peer_addr_queue_clear_def)

text \<open>A running engine holds one of each.\<close>

definition engine_holds :: "h3q_engine \<Rightarrow> ossl_res \<Rightarrow> bool" where
  "engine_holds e s \<longleftrightarrow> ssl_ctx e \<noteq> None \<and> ssl_listener e \<noteq> None \<and> peer_addr_bio_method e \<noteq> None \<and>
     current_peer_addr e \<noteq> None \<and> 0 \<le> peer_addr_ex_index e \<and>
     live s = [R_filter_bio, R_dgram_bio, R_listener, R_peer_addr, R_method, R_ctx, R_engine] \<and>
     owned s = [R_filter_bio, R_dgram_bio]"

lemma clear_keeps_fields:
  assumes "h3q_peer_addr_queue_clear e = Some e'"
  shows "ssl_ctx e' = ssl_ctx e" and "ssl_listener e' = ssl_listener e" and "peer_addr_bio_method e' = peer_addr_bio_method e"
    and "current_peer_addr e' = current_peer_addr e" and "peer_addr_ex_index e' = peer_addr_ex_index e"
    and "peer_rx_head e' = None" and "peer_rx_tail e' = None"
  using assms by (auto simp: h3q_peer_addr_queue_clear_def)

lemma engine_destroy_holds:
  assumes "engine_wf e" and "engine_holds e s"
  shows "\<exists>s'. h3q_engine_destroy (Some e) s = Some s' \<and> live s' = [] \<and> owned s' = []"
proof -
  obtain e1 where e1: "h3q_peer_addr_queue_clear e = Some e1" using queue_clear_ok [OF assms(1)] by blast
  note k = clear_keeps_fields [OF e1]
  show ?thesis using assms(2) e1 k
    by (auto simp: h3q_engine_destroy_def engine_holds_def ssl_free_listener_def h3q_peer_addr_bio_destroy_def
        res_free_def)
qed

lemmas create_defs = h3q_engine_create_def engine_listen_def engine_fail_def h3q_engine_destroy_def ssl_free_listener_def
  h3q_tls_ctx_create_def h3q_peer_addr_bio_destroy_def res_alloc_def res_free_def no_res_def zero_engine_def Let_def

lemma engine_create_cases:
  "(\<exists>msg s'. h3q_engine_create env av fd no_res = Some (Inl msg, s') \<and> msg \<noteq> [] \<and> live s' = [] \<and> owned s' = []) \<or>
   (\<exists>e s'. h3q_engine_create env av fd no_res = Some (Inr e, s') \<and> engine_holds e s' \<and>
      peer_rx_head e = None \<and> peer_rx_tail e = None \<and> ctx_tls13_only s' \<and> ctx_alpn s' \<and>
      listener_flags s' = (if av then 0 else SSL_LISTENER_FLAG_NO_VALIDATE))"
  by (simp add: create_defs engine_holds_def)

text \<open>
  C23: Whichever OpenSSL call fails while the listener is built, the reason is reported and
  everything built so far is released, each object once; when all succeed, the engine is
  ready with TLS 1.3 and ALPN set up and address validation as configured, and destroying it
  later, with any datagrams queued, releases everything, again each object once.
\<close>

theorem engine_lifecycle_balanced:
  "\<exists>r s'. h3q_engine_create env address_validation udp_fd no_res = Some (r, s') \<and>
    (case r of
       Inl msg \<Rightarrow> msg \<noteq> [] \<and> live s' = [] \<and> owned s' = []
     | Inr e \<Rightarrow> engine_wf e \<and> rx_items e = [] \<and> engine_holds e s' \<and> ctx_tls13_only s' \<and> ctx_alpn s' \<and>
         listener_flags s' = (if address_validation then 0 else SSL_LISTENER_FLAG_NO_VALIDATE) \<and>
         (\<forall>e'. engine_wf e' \<longrightarrow> engine_holds e' s' \<longrightarrow>
            (\<exists>s''. h3q_engine_destroy (Some e') s' = Some s'' \<and> live s'' = [] \<and> owned s'' = [])))"
proof -
  consider (failed) msg s' where "h3q_engine_create env address_validation udp_fd no_res = Some (Inl msg, s')"
      "msg \<noteq> []" "live s' = []" "owned s' = []"
    | (ready) e s' where "h3q_engine_create env address_validation udp_fd no_res = Some (Inr e, s')" "engine_holds e s'"
      "peer_rx_head e = None" "peer_rx_tail e = None" "ctx_tls13_only s'" "ctx_alpn s'"
      "listener_flags s' = (if address_validation then 0 else SSL_LISTENER_FLAG_NO_VALIDATE)"
    using engine_create_cases [of env address_validation udp_fd] by blast
  then show ?thesis
  proof cases
    case ready
    then show ?thesis using engine_wf_empty [OF ready(3,4)] engine_destroy_holds by auto
  qed auto
qed

definition wit_engine_env :: engine_env where
  "wit_engine_env = \<lparr>calloc_ok = True, ctx_new_ok = True, cert_ok = True, key_ok = True, keylog_env = False, meth_new_ok = True,
     set_ctrl_ok = True, set_sendmmsg_ok = True, set_recvmmsg_ok = True, set_destroy_ok = True, addr_new_ok = True,
     ex_new_index = 3, new_listener_ok = True, new_dgram_ok = True, filter_new_ok = True, listen_ok = True, nonblocking_ok = True\<rparr>"

theorem engine_lifecycle_balanced_witness:
  "(\<exists>e s'. h3q_engine_create wit_engine_env True 9 no_res = Some (Inr e, s') \<and> engine_wf e \<and>
     (\<exists>s''. h3q_engine_destroy (Some e) s' = Some s'' \<and> live s'' = []))"
proof -
  have "\<exists>e s'. h3q_engine_create wit_engine_env True 9 no_res = Some (Inr e, s')"
    by (simp add: create_defs wit_engine_env_def)
  with engine_lifecycle_balanced [of wit_engine_env True 9] show ?thesis by (auto, blast)
qed

section \<open>Pumping ends\<close>

text \<open>
  What is relied on below the filter: the socket has a finite backlog of datagrams, and every
  datagram received comes out of it. \<^verbatim>\<open>SSL_handle_events\<close> starts by reading into a buffer.
\<close>

definition backlog_law :: "'n recv_fn \<Rightarrow> ('n \<Rightarrow> nat) \<Rightarrow> bool" where
  "backlog_law f backlog \<longleftrightarrow> (\<forall>n msgs rv ms k n'. f n msgs = (rv, ms, k, n') \<longrightarrow> (if rv then k else 0) + backlog n' \<le> backlog n)"

definition reads_first :: "'l events_fn \<Rightarrow> bool" where
  "reads_first ev \<longleftrightarrow> (\<forall>l. \<exists>msgs k. ev l = Vis (Rx_recv msgs) k \<and> msgs \<noteq> [] \<and> msg_data (hd msgs) \<noteq> None)"

lemma queue_pop_shrinks:
  assumes "engine_wf e" and "h3q_queue_pop e (Some m) = Some (b, e', m')"
  shows "length (rx_items e') \<le> length (rx_items e)"
proof (cases "rx_items e")
  case Nil
  with assms queue_pop_empty [OF assms(1) Nil, of "Some m"] show ?thesis by simp
next
  case (Cons d ds)
  show ?thesis
  proof (cases "msg_data m")
    case None
    then show ?thesis using assms(2) by (auto simp: h3q_queue_pop_def split: option.splits)
  next
    case (Some buf)
    then show ?thesis
      using queue_pop_ok [OF assms(1) Cons Some] queue_pop_oversize [OF assms(1) Cons Some] assms(2) Cons
      by (cases "msg_data_len m < dg_data_len d") (auto simp: not_less)
  qed
qed

lemma recvmmsg_measure:
  assumes wf: "engine_wf e" and f: "recv_ok f" and b: "backlog_law f backlog"
    and r: "h3q_peer_addr_bio_recvmmsg ok (Some f) (Some e) msgs j n = Some (rv, msgs', j', Some e', n')"
  shows "length (rx_items e') + backlog n' \<le> length (rx_items e) + backlog n"
proof (cases "msgs = []")
  case True
  then show ?thesis using r by (auto simp: h3q_peer_addr_bio_recvmmsg_def)
next
  case ne: False
  let ?e1 = "e\<lparr>current_peer_addr := map_option (\<lambda>_. cleared_addr) (current_peer_addr e)\<rparr>"
  have wf1: "engine_wf ?e1" "rx_items ?e1 = rx_items e" using wf by simp_all
  show ?thesis
  proof (cases "peer_rx_head e = None")
    case False
    then obtain b2 e2 m where p: "h3q_queue_pop ?e1 (Some (hd msgs)) = Some (b2, e2, m)" "rx_items e' = rx_items e2" "n' = n"
      using r ne by (auto simp: h3q_peer_addr_bio_recvmmsg_def Let_def split: option.splits if_splits)
    from queue_pop_shrinks [OF wf1(1) p(1)] p(2,3) wf1(2) show ?thesis by simp
  next
    case True
    then have em: "rx_items e = []" using rx_items_head [OF wf] by simp
    obtain frv ms k fn where fr: "f n msgs = (frv, ms, k, fn)" by (cases "f n msgs") auto
    have bl: "(if frv then k else 0) + backlog fn \<le> backlog n" using b fr unfolding backlog_law_def by blast
    have l: "list_all (\<lambda>m. msg_data m = None \<or> msg_data_len m = 0 \<or> good_msg m) (take k ms)"
      using f fr unfolding recv_ok_def by (metis (no_types, lifting) case_prod_conv)
    from queue_fill_wf [OF wf1(1) l, of ok] obtain b2 e2 where
      e2: "h3q_queue_fill ok (take k ms) ?e1 = Some (b2, e2)" "engine_wf e2"
        "\<not> b2 \<longrightarrow> rx_items e2 = []" "b2 \<longrightarrow> rx_items e2 = rx_items ?e1 @ map datagram_of (take k ms)" by blast
    have l2: "length (rx_items e2) \<le> k" using e2(3,4) wf1(2) em by (cases b2) auto
    have n': "n' = fn" using r ne True fr
      by (auto simp: h3q_peer_addr_bio_recvmmsg_def Let_def split: option.splits if_splits)
    show ?thesis
    proof (cases "frv \<and> 0 < k")
      case False
      then have "rx_items e' = []" using r ne True fr wf1(2) em
        by (auto simp: h3q_peer_addr_bio_recvmmsg_def Let_def split: option.splits if_splits)
      then show ?thesis using bl n' em by (simp split: if_splits)
    next
      case got: True
      have "length (rx_items e') \<le> length (rx_items e2)"
      proof (cases b2)
        case True
        then obtain b3 e3 m3 where "h3q_queue_pop e2 (Some (hd ms)) = Some (b3, e3, m3)" "rx_items e' = rx_items e3"
          using r ne \<open>peer_rx_head e = None\<close> fr got e2(1)
          by (auto simp: h3q_peer_addr_bio_recvmmsg_def Let_def split: option.splits if_splits)
        then show ?thesis using queue_pop_shrinks [OF e2(2)] by simp
      next
        case False
        then show ?thesis using r ne \<open>peer_rx_head e = None\<close> fr got e2(1)
          by (auto simp: h3q_peer_addr_bio_recvmmsg_def Let_def)
      qed
      then show ?thesis using l2 bl got n' by simp
    qed
  qed
qed

definition rx_inv :: "'n recv_fn \<Rightarrow> ('n \<Rightarrow> nat) \<Rightarrow> nat \<Rightarrow> (h3q_engine \<times> 'n) option \<Rightarrow> bool" where
  "rx_inv f backlog m s \<longleftrightarrow> (recv_ok f \<and> backlog_law f backlog \<longrightarrow>
     (\<exists>e n. s = Some (e, n) \<and> engine_wf e \<and> length (rx_items e) + backlog n \<le> m))"

interpretation rx: callback_contract "rx_step ok f" "\<lambda>_ _. True" "rx_inv f backlog m" for ok f backlog m
proof (unfold_locales, goal_cases)
  case (1 s q)
  show ?case
  proof (cases "recv_ok f \<and> backlog_law f backlog")
    case False
    then show ?thesis by (auto simp: rx_inv_def)
  next
    case True
    with 1(1) obtain e n where s: "s = Some (e, n)" "engine_wf e" "length (rx_items e) + backlog n \<le> m"
      by (auto simp: rx_inv_def)
    obtain msgs where q: "q = Rx_recv msgs" by (cases q)
    from recvmmsg_wf [OF s(2), of f ok msgs 0 n] True obtain rv msgs' j' e' n' where
      r: "h3q_peer_addr_bio_recvmmsg ok (Some f) (Some e) msgs 0 n = Some (rv, msgs', j', Some e', n')" "engine_wf e'" by blast
    have "length (rx_items e') + backlog n' \<le> length (rx_items e) + backlog n"
      by (rule recvmmsg_measure [OF s(2) _ _ r(1)]) (use True in simp_all)
    then show ?thesis using s r q by (auto simp: rx_inv_def)
  qed
qed

lemma behaves_always: "behaves h (\<lambda>_ _. True) t s"
  by (induction t arbitrary: s) simp_all

lemma handle_events_safe:
  assumes "engine_wf e" and "recv_ok f" and "backlog_law f backlog"
  shows "\<exists>rv l' e' n'. handle_events ok f ev (l, e, n) = Some (rv, l', e', n') \<and> engine_wf e' \<and>
    length (rx_items e') + backlog n' \<le> length (rx_items e) + backlog n"
proof -
  have "rx_inv f backlog (length (rx_items e) + backlog n) (Some (e, n))" using assms(1) by (simp add: rx_inv_def)
  from rx.run_inv [OF this behaves_always, where t = "ev l" and ok = ok] assms(2,3) show ?thesis
    by (auto simp: rx_inv_def handle_events_def split: prod.splits)
qed

lemma handle_events_progress:
  assumes "engine_wf e" and "recv_ok f" and "backlog_law f backlog" and "reads_first ev" and "peer_rx_head e \<noteq> None"
  shows "\<exists>rv l' e' n'. handle_events ok f ev (l, e, n) = Some (rv, l', e', n') \<and> engine_wf e' \<and>
    length (rx_items e') + backlog n' < length (rx_items e) + backlog n"
proof -
  obtain d ds where ds: "rx_items e = d # ds" using rx_items_head [OF assms(1)] assms(5) by (cases "rx_items e") auto
  obtain msgs k where ev: "ev l = Vis (Rx_recv msgs) k" "msgs \<noteq> []" "msg_data (hd msgs) \<noteq> None"
    using assms(4) unfolding reads_first_def by blast
  then obtain m ms buf where m: "msgs = m # ms" "msg_data m = Some buf" by (cases msgs) auto
  from recvmmsg_progress [OF assms(1) ds m(2), of ok f ms 0 n] obtain rv m' j' e1 where
    r: "h3q_peer_addr_bio_recvmmsg ok (Some f) (Some e) (m # ms) 0 n = Some (rv, m' # ms, j', Some e1, n)"
      "engine_wf e1" "rx_items e1 = ds" by blast
  have "rx_inv f backlog (length ds + backlog n) (Some (e1, n))" using r(2,3) by (simp add: rx_inv_def)
  from rx.run_inv [OF this behaves_always, where t = "k (Rx_ans rv (m' # ms) j')" and ok = ok] assms(2,3) r(1) ev(1) m ds show ?thesis
    by (auto simp: rx_inv_def handle_events_def less_Suc_eq_le split: prod.splits)
qed

lemma pump_loop_ends:
  assumes laws: "recv_ok f" "backlog_law f backlog" "reads_first ev"
  shows "engine_wf e \<Longrightarrow> length (rx_items e) + backlog n < fuel \<Longrightarrow>
    \<exists>rv l' e' n'. pump_loop ok f ev fuel work (l, e, n) = Done (rv, l', e', n') \<and> engine_wf e' \<and>
      (rv = -1 \<or> rv \<in> {work, 1} \<and> rx_items e' = [])"
proof (induction fuel arbitrary: work l e n)
  case 0
  then show ?case by simp
next
  case (Suc k)
  show ?case
  proof (cases "peer_rx_head e = None")
    case True
    then show ?thesis using Suc.prems(1) rx_items_head [OF Suc.prems(1)] by simp
  next
    case False
    from handle_events_progress [OF Suc.prems(1) laws False, of ok l n] obtain rv l1 e1 n1 where
      h: "handle_events ok f ev (l, e, n) = Some (rv, l1, e1, n1)" "engine_wf e1"
        "length (rx_items e1) + backlog n1 < length (rx_items e) + backlog n" by blast
    then have "length (rx_items e1) + backlog n1 < k" using Suc.prems(2) by simp
    from Suc.IH [OF h(2) this, of 1 l1] show ?thesis using False h(1,2) by auto
  qed
qed

text \<open>
  C24: Pumping the listener returns: the number of rounds is bounded by the datagrams queued
  and waiting on the socket, however OpenSSL orders its reads. Unless the listener failed,
  no datagram is left in the filter, and the queue stays well formed in every case.
\<close>

theorem pump_terminates:
  assumes "recv_ok f" and "backlog_law f backlog" and "reads_first ev" and "engine_wf e"
    and "length (rx_items e) + backlog n < fuel"
  shows "\<exists>rv l' e' n'. h3q_engine_pump ok f ev fuel (l, e, n) = Done (rv, l', e', n') \<and> engine_wf e' \<and>
    (rv = -1 \<or> ssl_listener e = None \<and> rv = 0 \<or> rv \<in> {0, 1} \<and> rx_items e' = [])"
proof (cases "ssl_listener e = None")
  case True
  then show ?thesis using assms(4) by (simp add: h3q_engine_pump_def)
next
  case False
  from handle_events_safe [OF assms(4,1,2), of ok ev l n] obtain rv l1 e1 n1 where
    h: "handle_events ok f ev (l, e, n) = Some (rv, l1, e1, n1)" "engine_wf e1"
      "length (rx_items e1) + backlog n1 \<le> length (rx_items e) + backlog n" by blast
  then have "length (rx_items e1) + backlog n1 < fuel" using assms(5) by simp
  from pump_loop_ends [OF assms(1-3) h(2) this, of ok 0 l1] False h(1,2) show ?thesis
    by (auto simp: h3q_engine_pump_def)
qed

text \<open>A listener that reads once per call, on a socket with nothing waiting.\<close>

definition wit_events :: "unit events_fn" where
  "wit_events l = Vis (Rx_recv [wit_msg [0, 0] 0]) (\<lambda>_. Ret ((), 1))"

theorem pump_terminates_witness:
  "recv_ok (\<lambda>(n :: nat) msgs. (False, msgs, 0, n)) \<and> reads_first wit_events \<and>
   (\<exists>rv l' e' n'. h3q_engine_pump (\<lambda>_. True) (\<lambda>n msgs. (False, msgs, 0, n)) wit_events 1 ((), wit_engine, 0 :: nat) =
      Done (rv, l', e', n') \<and> engine_wf e')"
proof -
  have a: "recv_ok (\<lambda>(n :: nat) msgs. (False, msgs, 0, n))" by (simp add: recv_ok_def)
  have b: "backlog_law (\<lambda>(n :: nat) msgs. (False, msgs, 0, n)) (\<lambda>_. 0)" by (simp add: backlog_law_def)
  have c: "reads_first wit_events" by (simp add: reads_first_def wit_events_def wit_msg_def)
  have d: "engine_wf wit_engine" "rx_items wit_engine = []" by (simp_all add: wit_engine_def)
  from pump_terminates [where n = 0 and fuel = 1 and ok = "\<lambda>_. True" and l = "()", OF a b c d(1)] a c d(2) show ?thesis by auto
qed

section \<open>Waiting\<close>



section \<open>Recovering the peer\<close>

lemma recvmmsg_queued_index:
  assumes "peer_rx_head e \<noteq> None" and "h3q_peer_addr_bio_recvmmsg ok (Some f) (Some e) (m # ms) j n = Some (rv, ms', j', Some e', n')"
  shows "peer_addr_ex_index e' = peer_addr_ex_index e"
  using assms
  by (auto simp: h3q_peer_addr_bio_recvmmsg_def Let_def h3q_queue_pop_def h3q_queue_drop_head_def note_peer_def
      split: option.splits if_splits)

definition sockaddr_of :: "bio_addr \<Rightarrow> sockaddr" where
  "sockaddr_of p = \<lparr>sa_family = ba_family p, sa_addr = the (ba_raw p), sa_port = ba_port p\<rparr>"

definition ip_addr :: "bio_addr \<Rightarrow> bool" where
  "ip_addr p \<longleftrightarrow> (\<exists>raw. ba_raw p = Some raw \<and>
     (ba_family p = AF_INET \<and> length raw = 4 \<or> ba_family p = AF_INET6 \<and> length raw = 16))"


definition wit_peer :: bio_addr where
  "wit_peer = \<lparr>ba_family = AF_INET, ba_raw = Some [192, 0, 2, 7], ba_port = 443\<rparr>"

definition wit_datagram :: h3q_datagram where
  "wit_datagram = \<lparr>dg_data = [1], dg_data_len = 1, dg_peer = Some wit_peer, dg_local = None, dg_next = None\<rparr>"

definition wit_queued :: h3q_engine where
  "wit_queued = wit_engine\<lparr>peer_rx_head := Some 0, peer_rx_tail := Some 0, rx_heap := [Some wit_datagram]\<rparr>"


end
