(* ===== verification/H3_Types.thy ===== *)
theory H3_Types
  imports H3_Config
begin

text \<open>
  The structures of \<^verbatim>\<open>include/h3_session.h\<close>: a response chunk, a stream and a session. Handles
  of the QUIC layer (\<^verbatim>\<open>h3q_stream*\<close>, \<^verbatim>\<open>h3q_conn*\<close>) are numbers and a null handle is \<open>None\<close>.
  Streams are allocated from the session's pool and live as long as the session, so they
  form an arena: a pointer to a stream is its index in \<open>objs\<close>, and the hash \<^verbatim>\<open>streams\<close> maps
  stream ids to such pointers. An \<^verbatim>\<open>int\<close> used as a truth value is a \<open>bool\<close>.
\<close>

unbundle bit_operations_syntax

type_synonym qstream = nat
type_synonym qconn = nat
type_synonym sptr = nat
type_synonym table = "(string \<times> string) list"

record h3_response_chunk =
  chunk_next :: "addr option"
  chunk_len :: size_t
  chunk_acked :: size_t
  chunk_data :: "byte list"

type_synonym chunk_heap = "h3_response_chunk heap"

record h3_stream =
  stream_id :: int
  qstream :: "qstream option"
  done_flag :: bool
  write_blocked :: bool
  is_bidi :: bool
  headers_complete :: bool
  dispatched :: bool
  worker_done :: bool
  body_complete :: bool
  body_truncated :: bool
  request_body :: "byte list"
  request_body_len :: size_t
  request_body_offset :: size_t
  request_body_capacity :: size_t
  request_body_overflow :: bool
  req_method :: "string option"
  req_scheme :: "string option"
  req_authority :: "string option"
  req_path :: "string option"
  req_headers :: "table option"
  response_cond :: bool
  response_head :: "addr option"
  response_tail :: "addr option"
  response_submit_chunk :: "addr option"
  response_submit_offset :: size_t
  response_buffered :: size_t
  response_len :: size_t
  response_buffer_limit :: size_t
  response_submitted :: bool
  response_complete :: bool
  response_cancelled :: bool

record h3_session =
  sess_conf :: h3_server_conf
  qconn :: "qconn option"
  ngh3 :: bool
  streams :: "int \<rightharpoonup> sptr"
  objs :: "h3_stream list"
  aborted :: bool
  blocked_streams :: int
  ngh3_dead :: bool
  abort_quic_error_code :: uint64_t
  abort_reason :: "string option"
  pending_free :: "qstream list"
  stream_read_buf_size :: size_t
  stream_drain_cursor :: nat
  control_streams_created :: bool
  goaway_deadline :: int
  active_tasks :: uint32_t
  pending_sid :: int
  pending_h3s :: "sptr option"

definition H3_SID_IS_BIDI :: "int \<Rightarrow> bool" where
  "H3_SID_IS_BIDI sid \<longleftrightarrow> sid AND 2 = 0"

definition H3_SID_IS_SERVER :: "int \<Rightarrow> bool" where
  "H3_SID_IS_SERVER sid \<longleftrightarrow> sid AND 1 = 1"

text \<open>A zeroed stream, as \<^verbatim>\<open>apr_pcalloc\<close> returns it.\<close>

definition zero_stream :: h3_stream where
  "zero_stream = \<lparr>stream_id = 0, qstream = None, done_flag = False, write_blocked = False,
     is_bidi = False, headers_complete = False, dispatched = False, worker_done = False,
     body_complete = False, body_truncated = False, request_body = [], request_body_len = 0,
     request_body_offset = 0, request_body_capacity = 0, request_body_overflow = False,
     req_method = None, req_scheme = None, req_authority = None, req_path = None, req_headers = None,
     response_cond = False, response_head = None, response_tail = None, response_submit_chunk = None,
     response_submit_offset = 0, response_buffered = 0, response_len = 0, response_buffer_limit = 0,
     response_submitted = False, response_complete = False, response_cancelled = False\<rparr>"

definition zero_session :: "h3_server_conf \<Rightarrow> h3_session" where
  "zero_session conf = \<lparr>sess_conf = conf, qconn = None, ngh3 = False, streams = Map.empty, objs = [],
     aborted = False, blocked_streams = 0, ngh3_dead = False, abort_quic_error_code = 0,
     abort_reason = None, pending_free = [], stream_read_buf_size = 0, stream_drain_cursor = 0,
     control_streams_created = False, goaway_deadline = 0, active_tasks = 0, pending_sid = 0,
     pending_h3s = None\<rparr>"

text \<open>Bits of a stream id: the two low bits name the initiator and the direction.\<close>

lemma sid_is_bidi_mod: "H3_SID_IS_BIDI sid \<longleftrightarrow> sid mod 4 < 2"
proof -
  have "sid AND 2 = (if bit sid 1 then 2 else 0)"
    by (rule bit_eqI) (auto simp: bit_simps bit_and_iff split: if_splits)
  moreover have "bit sid 1 \<longleftrightarrow> \<not> sid mod 4 < 2"
    by (simp add: bit_iff_odd) presburger
  ultimately show ?thesis by (simp add: H3_SID_IS_BIDI_def)
qed

lemma sid_is_server_odd: "H3_SID_IS_SERVER sid \<longleftrightarrow> odd sid"
  by (simp add: H3_SID_IS_SERVER_def and_one_eq odd_iff_mod_2_eq_one)

end
