(* ===== verification/H3_Response.thy ===== *)
theory H3_Response
  imports H3_Types
begin

text \<open>
  The bounded response queue of \<^verbatim>\<open>src/h3_session.c\<close>: request workers append body bytes, the
  event thread hands chunks to nghttp3 and frees them as they are acknowledged. The chunks
  form a linked list on the heap, and a second pointer, \<open>response_submit_chunk\<close>, points into
  the middle of it. An operation returns \<open>None\<close> where the C code would follow a freed pointer.
  Calls that other components see (resuming the nghttp3 stream, the condition broadcast, the
  wakeup of the event thread) are returned as a list of effects.
\<close>

section \<open>Operations\<close>

datatype resp_effect =
    Resume_stream int
  | Cond_broadcast
  | Wake_event_thread
  | Enqueued "byte list"

datatype append_out = Must_wait | Returned apr_status | Queued size_t

definition h3_stream_response_cancel_locked :: "h3_stream \<Rightarrow> h3_stream \<times> resp_effect list" where
  "h3_stream_response_cancel_locked st =
     (st\<lparr>response_cancelled := True, response_complete := True\<rparr>,
      if response_cond st then [Cond_broadcast] else [])"

text \<open>The size of the next chunk: what is left, the room, and the chunk limit.\<close>

definition next_chunk_len :: "h3_stream \<Rightarrow> size_t \<Rightarrow> size_t \<Rightarrow> size_t" where
  "next_chunk_len st len off =
    (let room = response_buffer_limit st - response_buffered st;
         c1 = len - off;
         c2 = (if room < c1 then room else c1)
     in if STREAM_CHUNK_BYTES < c2 then STREAM_CHUNK_BYTES else c2)"

text \<open>Linking a new chunk behind the tail, and pointing the reader at it when it had nothing left.\<close>

definition chunk_link :: "h3_response_chunk \<Rightarrow> chunk_heap \<times> h3_stream \<Rightarrow> (chunk_heap \<times> h3_stream) option" where
  "chunk_link c s = (case s of (h, st) \<Rightarrow>
    (let (a, h1) = heap_alloc h (c\<lparr>chunk_next := None\<rparr>);
         st1 = st\<lparr>response_tail := Some a\<rparr>;
         st2 = (if response_submit_chunk st1 = None
                then st1\<lparr>response_submit_chunk := Some a, response_submit_offset := 0\<rparr> else st1)
     in case response_tail st of
          Some t \<Rightarrow> (case deref h1 t of None \<Rightarrow> None
                     | Some tc \<Rightarrow> Some (heap_set h1 t (tc\<lparr>chunk_next := Some a\<rparr>), st2))
        | None \<Rightarrow> Some (h1, st2\<lparr>response_head := Some a\<rparr>)))"

text \<open>
  One round of the append loop under the session lock, from the test of the wait condition
  to the unlock. \<open>malloc_ok\<close> says whether the allocation succeeds.
\<close>

definition response_must_wait :: "h3_session \<Rightarrow> h3_stream \<Rightarrow> bool" where
  "response_must_wait se st \<longleftrightarrow> response_buffered st \<ge> response_buffer_limit st \<and>
     \<not> response_cancelled st \<and> \<not> aborted se \<and> \<not> ngh3_dead se"

definition append_iteration ::
  "bool \<Rightarrow> h3_session \<Rightarrow> byte list \<Rightarrow> size_t \<Rightarrow> size_t \<Rightarrow> chunk_heap \<Rightarrow> h3_stream \<Rightarrow>
   (append_out \<times> chunk_heap \<times> h3_stream \<times> resp_effect list) option" where
  "append_iteration malloc_ok se data len off h st =
    (if response_must_wait se st then Some (Must_wait, h, st, [])
     else if response_cancelled st \<or> aborted se \<or> ngh3_dead se \<or> \<not> ngh3 se
       then Some (Returned APR_ECONNABORTED, h, st, [])
     else (let chunk_len = next_chunk_len st len off in
       if chunk_len = 0 \<or> SIZE_MAX - chunk_len < response_len st
         then (let (st', e) = h3_stream_response_cancel_locked st in Some (Returned APR_EGENERAL, h, st', e))
       else if \<not> malloc_ok
         then (let (st', e) = h3_stream_response_cancel_locked st in Some (Returned APR_ENOMEM, h, st', e))
       else (let bytes = take (unat chunk_len) (drop (unat off) data) in
         case chunk_link \<lparr>chunk_next = None, chunk_len = chunk_len, chunk_acked = 0, chunk_data = bytes\<rparr> (h, st) of
           None \<Rightarrow> None
         | Some (h', st1) \<Rightarrow>
           Some (Queued chunk_len, h',
             st1\<lparr>response_buffered := response_buffered st1 + chunk_len,
                 response_len := response_len st1 + chunk_len\<rparr>,
             [Enqueued bytes] @ (if response_submitted st then [Resume_stream (stream_id st)] else []) @
             [Wake_event_thread]))))"

text \<open>
  The whole function. Between two rounds other threads run: \<open>env k\<close> is what they do before
  the lock is taken for the k-th time, \<open>wait_rv k\<close> what the timed wait returns and \<open>mal k\<close>
  whether the k-th allocation succeeds. A round that finds the queue full waits and tries
  again, so the number of rounds is not bounded by the code: \<open>fuel\<close> bounds it, and running
  out of it is \<open>Out_of_fuel\<close>.
\<close>

type_synonym resp_state = "chunk_heap \<times> h3_stream \<times> h3_session"

fun append_loop ::
  "(nat \<Rightarrow> resp_state \<Rightarrow> resp_state) \<Rightarrow> (nat \<Rightarrow> apr_status) \<Rightarrow> (nat \<Rightarrow> bool) \<Rightarrow> nat \<Rightarrow> nat \<Rightarrow>
   byte list \<Rightarrow> size_t \<Rightarrow> size_t \<Rightarrow> resp_state \<Rightarrow> resp_effect list \<Rightarrow>
   (apr_status \<times> resp_state \<times> resp_effect list) c_run" where
  "append_loop env wait_rv mal 0 k data len off s effs = Out_of_fuel"
| "append_loop env wait_rv mal (Suc fuel) k data len off s effs =
    (if off < len then
       (case env k s of (h, st, se) \<Rightarrow>
         (case append_iteration (mal k) se data len off h st of
            None \<Rightarrow> Undefined
          | Some (Must_wait, h', st', e) \<Rightarrow>
              if wait_rv k \<noteq> APR_SUCCESS \<and> wait_rv k \<noteq> APR_TIMEUP
              then Done (wait_rv k, env (Suc k) (h', st', se), effs @ e)
              else append_loop env wait_rv mal fuel (Suc k) data len off (h', st', se) (effs @ e)
          | Some (Returned rv, h', st', e) \<Rightarrow> Done (rv, (h', st', se), effs @ e)
          | Some (Queued n, h', st', e) \<Rightarrow>
              append_loop env wait_rv mal fuel (Suc k) data len (off + n) (h', st', se) (effs @ e)))
     else Done (APR_SUCCESS, s, effs))"

definition h3_stream_response_append ::
  "(nat \<Rightarrow> resp_state \<Rightarrow> resp_state) \<Rightarrow> (nat \<Rightarrow> apr_status) \<Rightarrow> (nat \<Rightarrow> bool) \<Rightarrow> nat \<Rightarrow>
   byte list option \<Rightarrow> size_t \<Rightarrow> resp_state option \<Rightarrow>
   (apr_status \<times> resp_state option \<times> resp_effect list) c_run" where
  "h3_stream_response_append env wait_rv mal fuel data len stream =
    (case stream of
       None \<Rightarrow> Done (APR_EINVAL, None, [])
     | Some s \<Rightarrow>
       if data = None \<and> len \<noteq> 0 then Done (APR_EINVAL, Some s, [])
       else (case append_loop env wait_rv mal fuel 0 (case data of None \<Rightarrow> [] | Some d \<Rightarrow> d) len 0 s [] of
               Done (rv, s', e) \<Rightarrow> Done (rv, Some s', e)
             | Undefined \<Rightarrow> Undefined
             | Out_of_fuel \<Rightarrow> Out_of_fuel))"

definition h3_stream_response_complete :: "h3_session \<Rightarrow> h3_stream \<Rightarrow> h3_stream \<times> resp_effect list" where
  "h3_stream_response_complete se st =
    (st\<lparr>response_complete := True\<rparr>,
     (if response_submitted st \<and> ngh3 se \<and> \<not> ngh3_dead se then [Resume_stream (stream_id st)] else []) @
     [Cond_broadcast, Wake_event_thread])"

text \<open>
  Acknowledging bytes. Each round takes what the head chunk still holds or what is left of
  the acknowledgement; a fully acknowledged head is unlinked and freed.
\<close>

definition chunk_unlink_head :: "chunk_heap \<times> h3_stream \<Rightarrow> (chunk_heap \<times> h3_stream) option" where
  "chunk_unlink_head s = (case s of (h, st) \<Rightarrow>
    (case response_head st of None \<Rightarrow> None
     | Some a \<Rightarrow> (case deref h a of None \<Rightarrow> None
       | Some c \<Rightarrow> Some (heap_free h a,
           st\<lparr>response_head := chunk_next c,
              response_tail := (if chunk_next c = None then None else response_tail st)\<rparr>))))"

function ack_loop :: "chunk_heap \<Rightarrow> h3_stream \<Rightarrow> uint64_t \<Rightarrow> bool \<Rightarrow> (chunk_heap \<times> h3_stream \<times> bool) option" where
  "ack_loop h st datalen released =
    (if datalen = 0 then Some (h, st, released)
     else (case response_head st of
        None \<Rightarrow> Some (h, st, released)
      | Some a \<Rightarrow>
        (case deref h a of
           None \<Rightarrow> None
         | Some c \<Rightarrow>
           (let available = chunk_len c - chunk_acked c;
                consumed = (if datalen < available then datalen else available);
                c' = c\<lparr>chunk_acked := chunk_acked c + consumed\<rparr>;
                h' = heap_set h a c';
                st' = st\<lparr>response_buffered := response_buffered st - consumed\<rparr>
            in if chunk_acked c' = chunk_len c'
               then (case chunk_unlink_head (h', st') of None \<Rightarrow> None
                     | Some (h2, st2) \<Rightarrow> ack_loop h2 st2 (datalen - consumed) True)
               else ack_loop h' st' (datalen - consumed) True))))"
  by pat_completeness auto
termination
proof (relation "measures [\<lambda>(h, st, n, r). live_blocks h, \<lambda>(h, st, n, r). unat n]", goal_cases)
  case 1
  then show ?case by simp
next
  case (2 h st n r a c available consumed c' h' st' s2 h2 st2)
  then have lt: "a < length h" by (auto dest: deref_lt)
  then have "deref (heap_set h a c') a = Some c'" by (simp add: deref_set)
  then have "live_blocks (heap_free (heap_set h a c') a) < live_blocks (heap_set h a c')"
    by (rule live_blocks_free)
  with 2 lt show ?case
    by (auto simp: chunk_unlink_head_def live_blocks_set deref_set)
next
  case (3 h st n r a c available consumed c' h' st')
  then have "consumed = n" by (cases "n < available") auto
  with 3 show ?case by (simp add: live_blocks_set unat_gt_0)
qed

declare ack_loop.simps [simp del]

definition h3_stream_response_ack_locked ::
  "chunk_heap \<Rightarrow> h3_stream \<Rightarrow> uint64_t \<Rightarrow> (chunk_heap \<times> h3_stream \<times> resp_effect list) option" where
  "h3_stream_response_ack_locked h st datalen =
     map_option (\<lambda>(h', st', released). (h', st', if released then [Cond_broadcast] else []))
       (ack_loop h st datalen False)"

definition h3_stream_response_cleanup_locked :: "chunk_heap \<Rightarrow> h3_stream \<Rightarrow> (chunk_heap \<times> h3_stream) option" where
  "h3_stream_response_cleanup_locked h st =
     map_option (\<lambda>h'. (h', st\<lparr>response_head := None, response_tail := None, response_submit_chunk := None,
         response_submit_offset := 0, response_buffered := 0\<rparr>))
       (free_chain chunk_next h (response_head st))"

text \<open>
  The data reader. A vector points at the bytes of a chunk from an offset on; the answer is
  the number of vectors filled, or one of the two error codes, with the end-of-data flag.
\<close>

record nghttp3_vec =
  vec_base :: addr
  vec_off :: size_t
  vec_len :: size_t

datatype read_ret = Filled nat | Err_wouldblock | Err_callback_failure

fun read_loop :: "chunk_heap \<Rightarrow> nat \<Rightarrow> h3_stream \<Rightarrow> (nghttp3_vec list \<times> h3_stream) option" where
  "read_loop h 0 st = Some ([], st)"
| "read_loop h (Suc k) st =
    (case response_submit_chunk st of
       None \<Rightarrow> Some ([], st)
     | Some a \<Rightarrow>
       (case deref h a of
          None \<Rightarrow> None
        | Some c \<Rightarrow>
          map_option (\<lambda>(vs, st'). (\<lparr>vec_base = a, vec_off = response_submit_offset st,
                vec_len = chunk_len c - response_submit_offset st\<rparr> # vs, st'))
            (read_loop h k (st\<lparr>response_submit_chunk := chunk_next c, response_submit_offset := 0\<rparr>))))"

definition h3_session_read_data ::
  "chunk_heap \<Rightarrow> h3_stream option \<Rightarrow> nat \<Rightarrow> (read_ret \<times> bool \<times> nghttp3_vec list \<times> h3_stream option) option" where
  "h3_session_read_data h stream veccnt =
    (case stream of
       None \<Rightarrow> Some (Err_callback_failure, False, [], None)
     | Some st \<Rightarrow>
       if veccnt = 0 then Some (Err_callback_failure, False, [], Some st)
       else if response_cancelled st then Some (Filled 0, True, [], Some st)
       else (case read_loop h veccnt st of
           None \<Rightarrow> None
         | Some (vs, st') \<Rightarrow>
           if vs \<noteq> [] then Some (Filled (length vs),
               response_submit_chunk st' = None \<and> response_complete st', vs, Some st')
           else if response_complete st' then Some (Filled 0, True, [], Some st')
           else Some (Err_wouldblock, False, [], Some st')))"

text \<open>The bytes a vector points at, as nghttp3 reads them.\<close>

definition vec_bytes :: "chunk_heap \<Rightarrow> nghttp3_vec \<Rightarrow> byte list" where
  "vec_bytes h v = (case deref h (vec_base v) of None \<Rightarrow> []
     | Some c \<Rightarrow> take (unat (vec_len v)) (drop (unat (vec_off v)) (chunk_data c)))"


section \<open>The representation of the queue\<close>

text \<open>
  \<open>chunk_rest h a\<close> are the bytes of chunk \<open>a\<close> not acknowledged yet. A queue is represented by
  the chunks \<open>us\<close> handed to nghttp3 followed by the chunks \<open>vs\<close> still to be handed over; the
  abstract state is the pair of byte strings in flight and unsent.
\<close>

definition chunk_view :: "h3_response_chunk \<Rightarrow> size_t \<times> size_t \<times> byte list" where
  "chunk_view c = (chunk_len c, chunk_acked c, chunk_data c)"

definition chunk_ok :: "h3_response_chunk \<Rightarrow> bool" where
  "chunk_ok c \<longleftrightarrow> unat (chunk_len c) = length (chunk_data c) \<and> chunk_acked c < chunk_len c"

definition chunk_good :: "chunk_heap \<Rightarrow> addr \<Rightarrow> bool" where
  "chunk_good h a = (case deref h a of None \<Rightarrow> False | Some c \<Rightarrow> chunk_ok c)"

definition chunk_fresh :: "chunk_heap \<Rightarrow> addr \<Rightarrow> bool" where
  "chunk_fresh h a = (case deref h a of None \<Rightarrow> False | Some c \<Rightarrow> chunk_acked c = 0)"

definition chunk_rest :: "chunk_heap \<Rightarrow> addr \<Rightarrow> byte list" where
  "chunk_rest h a = (case deref h a of None \<Rightarrow> [] | Some c \<Rightarrow> drop (unat (chunk_acked c)) (chunk_data c))"

definition resp_bytes :: "chunk_heap \<Rightarrow> addr list \<Rightarrow> byte list" where
  "resp_bytes h as = concat (map (chunk_rest h) as)"

definition resp_rep :: "chunk_heap \<Rightarrow> h3_stream \<Rightarrow> addr list \<Rightarrow> addr list \<Rightarrow> bool" where
  "resp_rep h st us vs \<longleftrightarrow>
     lqueue chunk_next h (response_head st) (response_tail st) (us @ vs) \<and>
     list_all (chunk_good h) (us @ vs) \<and> list_all (chunk_fresh h) vs \<and>
     response_submit_chunk st = (case vs of [] \<Rightarrow> None | v # _ \<Rightarrow> Some v) \<and>
     response_submit_offset st = 0 \<and>
     unat (response_buffered st) = length (resp_bytes h (us @ vs)) \<and>
     response_buffered st \<le> response_buffer_limit st"

lemma resp_bytes_simps [simp]:
  "resp_bytes h [] = []"
  "resp_bytes h (a # as) = chunk_rest h a @ resp_bytes h as"
  "resp_bytes h (as @ bs) = resp_bytes h as @ resp_bytes h bs"
  by (simp_all add: resp_bytes_def)

lemma chunk_views_cong:
  assumes "map_option chunk_view (deref h' a) = map_option chunk_view (deref h a)"
  shows "chunk_good h' a = chunk_good h a" "chunk_fresh h' a = chunk_fresh h a" "chunk_rest h' a = chunk_rest h a"
  using assms
  by (auto simp: chunk_good_def chunk_fresh_def chunk_rest_def chunk_ok_def chunk_view_def split: option.splits)

lemma resp_bytes_cong:
  assumes "\<And>a. a \<in> set as \<Longrightarrow> map_option chunk_view (deref h' a) = map_option chunk_view (deref h a)"
  shows "resp_bytes h' as = resp_bytes h as"
  unfolding resp_bytes_def
  by (intro arg_cong [where f = concat] map_cong refl chunk_views_cong(3) assms)

lemma list_views_cong:
  assumes "\<And>a. a \<in> set as \<Longrightarrow> map_option chunk_view (deref h' a) = map_option chunk_view (deref h a)"
  shows "list_all (chunk_good h') as = list_all (chunk_good h) as"
    and "list_all (chunk_fresh h') as = list_all (chunk_fresh h) as"
  unfolding list_all_iff by (intro ball_cong refl chunk_views_cong assms; simp)+

lemma chunk_rest_length:
  assumes "deref h a = Some c" and "chunk_ok c"
  shows "length (chunk_rest h a) = unat (chunk_len c - chunk_acked c)"
    and "0 < unat (chunk_len c - chunk_acked c)"
proof -
  have "unat (chunk_acked c) < unat (chunk_len c)"
    using assms(2) by (simp add: chunk_ok_def word_less_nat_alt)
  then have "unat (chunk_len c - chunk_acked c) = unat (chunk_len c) - unat (chunk_acked c)"
    by (intro unat_sub_64) simp
  with assms \<open>unat (chunk_acked c) < unat (chunk_len c)\<close> show
    "length (chunk_rest h a) = unat (chunk_len c - chunk_acked c)"
    "0 < unat (chunk_len c - chunk_acked c)"
    by (auto simp: chunk_rest_def chunk_ok_def)
qed

text \<open>The two pointer operations are a queue; the chunks are its elements up to their links.\<close>

definition chunk_inv :: "chunk_heap \<times> h3_stream \<Rightarrow> bool" where
  "chunk_inv s = (case s of (h, st) \<Rightarrow>
     lqueue chunk_next h (response_head st) (response_tail st) (chain_of chunk_next h (response_head st)))"

definition chunk_at :: "chunk_heap \<Rightarrow> addr \<Rightarrow> size_t \<times> size_t \<times> byte list" where
  "chunk_at h a = (case deref h a of None \<Rightarrow> (0, 0, []) | Some c \<Rightarrow> chunk_view c)"

definition chunk_items :: "chunk_heap \<times> h3_stream \<Rightarrow> (size_t \<times> size_t \<times> byte list) list" where
  "chunk_items s = (case s of (h, st) \<Rightarrow> map (chunk_at h) (chain_of chunk_next h (response_head st)))"

definition chunk_of :: "size_t \<times> size_t \<times> byte list \<Rightarrow> h3_response_chunk" where
  "chunk_of x = (case x of (l, k, d) \<Rightarrow> \<lparr>chunk_next = None, chunk_len = l, chunk_acked = k, chunk_data = d\<rparr>)"

lemma chunk_link_lqueue:
  assumes q: "lqueue chunk_next h (response_head st) (response_tail st) as"
  shows "\<exists>h' st'. chunk_link c (h, st) = Some (h', st') \<and>
     lqueue chunk_next h' (response_head st') (response_tail st') (as @ [length h]) \<and>
     deref h' (length h) = Some (c\<lparr>chunk_next := None\<rparr>) \<and>
     (\<forall>a. a < length h \<longrightarrow> (as = [] \<or> a \<noteq> last as) \<longrightarrow> deref h' a = deref h a) \<and>
     (\<forall>a. a < length h \<longrightarrow> map_option chunk_view (deref h' a) = map_option chunk_view (deref h a)) \<and>
     length h' = Suc (length h) \<and>
     st' = (st\<lparr>response_head := response_head st', response_tail := Some (length h),
        response_submit_chunk := (if response_submit_chunk st = None then Some (length h) else response_submit_chunk st),
        response_submit_offset := (if response_submit_chunk st = None then 0 else response_submit_offset st)\<rparr>)"
proof (cases "response_tail st")
  case None
  with q have "as = []" by (auto simp: lqueue_def split: if_splits)
  with None show ?thesis
    by (auto simp: chunk_link_def heap_alloc_def Let_def lqueue_push_empty deref_alloc)
next
  case (Some t)
  with q have as: "as \<noteq> []" "t = last as" by (auto simp: lqueue_def split: if_splits)
  from lqueue_tail [OF q as(1)] as(2) obtain tc where tc: "deref h t = Some tc" by auto
  have lt: "t < length h" using tc by (rule deref_lt)
  have d: "deref (heap_set (h @ [Some (c\<lparr>chunk_next := None\<rparr>)]) t (tc\<lparr>chunk_next := Some (length h)\<rparr>)) b =
      (if b = t then Some (tc\<lparr>chunk_next := Some (length h)\<rparr>)
       else if b = length h then Some (c\<lparr>chunk_next := None\<rparr>) else deref h b)" for b
    using lt by (auto simp: deref_set deref_alloc)
  have "lqueue chunk_next (heap_set (h @ [Some (c\<lparr>chunk_next := None\<rparr>)]) t (tc\<lparr>chunk_next := Some (length h)\<rparr>))
      (response_head st) (Some (length h)) (as @ [length h])"
    using q Some tc by (intro lqueue_push [where m = tc]) simp_all
  moreover have "chunk_link c (h, st) = Some (heap_set (h @ [Some (c\<lparr>chunk_next := None\<rparr>)]) t (tc\<lparr>chunk_next := Some (length h)\<rparr>),
      st\<lparr>response_tail := Some (length h),
        response_submit_chunk := (if response_submit_chunk st = None then Some (length h) else response_submit_chunk st),
        response_submit_offset := (if response_submit_chunk st = None then 0 else response_submit_offset st)\<rparr>)"
    using Some tc lt by (simp add: chunk_link_def heap_alloc_def Let_def deref_alloc)
  ultimately show ?thesis using tc lt as by (auto simp: d [unfolded as(2)] chunk_view_def)
qed

lemma chunk_unlink_lqueue:
  assumes q: "lqueue chunk_next h (response_head st) (response_tail st) (a # as)" and c: "deref h a = Some c"
  shows "\<exists>st'. chunk_unlink_head (h, st) = Some (heap_free h a, st') \<and>
     lqueue chunk_next (heap_free h a) (response_head st') (response_tail st') as \<and>
     st' = st\<lparr>response_head := response_head st', response_tail := response_tail st'\<rparr>"
  using lqueue_drop [OF q c] c by (auto simp: chunk_unlink_head_def)

lemma chunk_at_cong: "map_option chunk_view (deref h' a) = map_option chunk_view (deref h a) \<Longrightarrow> chunk_at h' a = chunk_at h a"
  by (auto simp: chunk_at_def split: option.splits)

interpretation chunkq: fifo_contract chunk_inv chunk_items "\<lambda>_. True"
  "\<lambda>x. chunk_link (chunk_of x)" chunk_unlink_head "\<lambda>(h, st). h3_stream_response_cleanup_locked h st"
proof (unfold_locales, goal_cases)
  case (1 s x)
  obtain h st where s: "s = (h, st)" by (cases s)
  let ?as = "chain_of chunk_next h (response_head st)"
  have q: "lqueue chunk_next h (response_head st) (response_tail st) ?as"
    using 1 s by (simp add: chunk_inv_def)
  from chunk_link_lqueue [OF q, of "chunk_of x"] obtain h' st' where
    l: "chunk_link (chunk_of x) (h, st) = Some (h', st')"
       "lqueue chunk_next h' (response_head st') (response_tail st') (?as @ [length h])"
       "deref h' (length h) = Some ((chunk_of x)\<lparr>chunk_next := None\<rparr>)"
       "\<And>a. a < length h \<Longrightarrow> map_option chunk_view (deref h' a) = map_option chunk_view (deref h a)"
    by blast
  have lt: "a < length h" if "a \<in> set ?as" for a
    using q that lseg_live [of chunk_next h _ ?as None a] by (auto simp: lqueue_def dest: deref_lt)
  have "map (chunk_at h') ?as = map (chunk_at h) ?as"
    using lt by (auto intro!: chunk_at_cong l(4))
  moreover have "chunk_at h' (length h) = x"
    using l(3) by (cases x) (simp add: chunk_at_def chunk_view_def chunk_of_def)
  ultimately show ?case
    using l s lqueue_chain [OF l(2)] by (simp add: chunk_inv_def chunk_items_def)
next
  case (2 s x xs)
  obtain h st where s: "s = (h, st)" by (cases s)
  let ?as = "chain_of chunk_next h (response_head st)"
  have q: "lqueue chunk_next h (response_head st) (response_tail st) ?as"
    using 2 s by (simp add: chunk_inv_def)
  from 2 s obtain a as where as: "?as = a # as" "xs = map (chunk_at h) as"
    by (auto simp: chunk_items_def)
  obtain c where c: "deref h a = Some c"
    using q as(1) lseg_live [of chunk_next h _ ?as None a] by (auto simp: lqueue_def)
  from chunk_unlink_lqueue [OF q [unfolded as(1)] c] obtain st' where
    l: "chunk_unlink_head (h, st) = Some (heap_free h a, st')"
       "lqueue chunk_next (heap_free h a) (response_head st') (response_tail st') as" by blast
  have "a \<notin> set as" using q as(1) lseg_distinct [of chunk_next h _ ?as] by (auto simp: lqueue_def)
  then have "map (chunk_at (heap_free h a)) as = map (chunk_at h) as"
    by (auto simp: chunk_at_def deref_free)
  then show ?case
    using l s as lqueue_chain [OF l(2)] by (simp add: chunk_inv_def chunk_items_def)
next
  case (3 s)
  obtain h st where s: "s = (h, st)" by (cases s)
  then have "lseg chunk_next h (response_head st) (chain_of chunk_next h (response_head st)) None"
    using 3 by (simp add: chunk_inv_def lqueue_def)
  from free_chain_lseg [OF this] obtain h' where "free_chain chunk_next h (response_head st) = Some h'"
    by auto
  with s show ?case
    by (simp add: h3_stream_response_cleanup_locked_def chunk_inv_def chunk_items_def
        lqueue_chain [OF lqueue_empty])
qed


section \<open>Refinement of the operations\<close>

lemma resp_rep_addrs:
  assumes "resp_rep h st us vs"
  shows "distinct (us @ vs)" and "a \<in> set (us @ vs) \<Longrightarrow> a < length h"
  using assms lseg_distinct [of chunk_next h "response_head st" "us @ vs"]
    lseg_live [of chunk_next h "response_head st" "us @ vs" None a]
  by (auto simp: resp_rep_def lqueue_def dest: deref_lt)

lemma resp_rep_push:
  assumes rep: "resp_rep h st us vs" and ne: "bytes \<noteq> []" and n: "unat n = length bytes"
    and room: "length bytes \<le> unat (response_buffer_limit st) - unat (response_buffered st)"
  shows "\<exists>h' st1. chunk_link \<lparr>chunk_next = None, chunk_len = n, chunk_acked = 0, chunk_data = bytes\<rparr> (h, st) = Some (h', st1) \<and>
    resp_rep h' (st1\<lparr>response_buffered := response_buffered st1 + n, response_len := response_len st1 + n\<rparr>) us (vs @ [length h]) \<and>
    resp_bytes h' us = resp_bytes h us \<and> resp_bytes h' (vs @ [length h]) = resp_bytes h vs @ bytes \<and>
    (\<forall>a. deref h' a = None \<longleftrightarrow> deref h a = None \<and> a \<noteq> length h)"
proof -
  have q: "lqueue chunk_next h (response_head st) (response_tail st) (us @ vs)"
    using rep by (simp add: resp_rep_def)
  let ?c = "\<lparr>chunk_next = None, chunk_len = n, chunk_acked = 0, chunk_data = bytes\<rparr>"
  from chunk_link_lqueue [OF q, of ?c] obtain h' st1 where
    l: "chunk_link ?c (h, st) = Some (h', st1)"
       "lqueue chunk_next h' (response_head st1) (response_tail st1) ((us @ vs) @ [length h])"
       "deref h' (length h) = Some ?c"
       "\<And>a. a < length h \<Longrightarrow> map_option chunk_view (deref h' a) = map_option chunk_view (deref h a)"
       "length h' = Suc (length h)"
    and st1: "st1 = st\<lparr>response_head := response_head st1, response_tail := Some (length h),
        response_submit_chunk := (if response_submit_chunk st = None then Some (length h) else response_submit_chunk st),
        response_submit_offset := (if response_submit_chunk st = None then 0 else response_submit_offset st)\<rparr>"
    by auto
  have eqs: "response_submit_chunk st1 = (if response_submit_chunk st = None then Some (length h) else response_submit_chunk st)"
    "response_submit_offset st1 = (if response_submit_chunk st = None then 0 else response_submit_offset st)"
    "response_buffered st1 = response_buffered st" "response_len st1 = response_len st"
    "response_buffer_limit st1 = response_buffer_limit st"
    by (subst st1, simp)+
  have view: "map_option chunk_view (deref h' a) = map_option chunk_view (deref h a)" if "a \<in> set (us @ vs)" for a
    using resp_rep_addrs(2) [OF rep that] by (rule l(4))
  have b: "resp_bytes h' us = resp_bytes h us" "resp_bytes h' vs = resp_bytes h vs"
    by (intro resp_bytes_cong view; simp)+
  have g: "list_all (chunk_good h') us = list_all (chunk_good h) us" "list_all (chunk_good h') vs = list_all (chunk_good h) vs"
    "list_all (chunk_fresh h') vs = list_all (chunk_fresh h) vs"
    by (intro list_views_cong view; simp)+
  have c: "chunk_good h' (length h)" "chunk_fresh h' (length h)" "chunk_rest h' (length h) = bytes"
    using l(3) n ne by (auto simp: chunk_good_def chunk_fresh_def chunk_rest_def chunk_ok_def word_less_nat_alt)
  have le: "unat (response_buffered st) \<le> unat (response_buffer_limit st)"
    using rep by (simp add: resp_rep_def word_le_nat_alt)
  have "unat (response_buffered st) + length bytes < 2 ^ 64"
    using room le unat_lt_64 [of "response_buffer_limit st"] by (simp del: unat_lt_64)
  then have s: "unat (response_buffered st + n) = unat (response_buffered st) + length bytes"
    using n by (simp add: unat_add_64)
  then have "response_buffered st + n \<le> response_buffer_limit st"
    using room le by (simp add: word_le_nat_alt)
  then have "resp_rep h' (st1\<lparr>response_buffered := response_buffered st1 + n, response_len := response_len st1 + n\<rparr>) us (vs @ [length h])"
    using rep l(2) b g c s by (auto simp: resp_rep_def eqs split: list.splits)
  moreover have "deref h' a = None \<longleftrightarrow> deref h a = None \<and> a \<noteq> length h" for a
  proof (cases "a < length h")
    case True
    then show ?thesis using l(4) [of a] by (cases "deref h a"; cases "deref h' a") auto
  next
    case False
    then show ?thesis using l(3,5) by (cases "a = length h") (auto simp: deref_def)
  qed
  ultimately show ?thesis using l(1) b c by simp
qed

text \<open>What an effect list put into the queue.\<close>

fun enqueued :: "resp_effect list \<Rightarrow> byte list" where
  "enqueued [] = []"
| "enqueued (Enqueued bs # es) = bs @ enqueued es"
| "enqueued (Resume_stream sid # es) = enqueued es"
| "enqueued (Cond_broadcast # es) = enqueued es"
| "enqueued (Wake_event_thread # es) = enqueued es"

lemma enqueued_append [simp]: "enqueued (xs @ ys) = enqueued xs @ enqueued ys"
  by (induction xs rule: enqueued.induct) auto

lemma next_chunk_len_bounds:
  assumes "off < len"
  shows "unat (next_chunk_len st len off) \<le> unat len - unat off"
    and "next_chunk_len st len off \<le> response_buffer_limit st - response_buffered st"
    and "next_chunk_len st len off \<le> STREAM_CHUNK_BYTES"
    and "response_buffered st < response_buffer_limit st \<Longrightarrow> 0 < next_chunk_len st len off"
proof -
  have u: "unat (len - off) = unat len - unat off" "0 < unat len - unat off"
    using assms by (auto simp: unat_sub_64 word_less_nat_alt)
  have S: "0 < unat STREAM_CHUNK_BYTES" by (simp add: STREAM_CHUNK_BYTES_def)
  note d = next_chunk_len_def Let_def word_less_nat_alt word_le_nat_alt
  show "unat (next_chunk_len st len off) \<le> unat len - unat off"
    using u by (auto simp: d)
  show "next_chunk_len st len off \<le> response_buffer_limit st - response_buffered st"
    "next_chunk_len st len off \<le> STREAM_CHUNK_BYTES"
    by (auto simp: d)
  assume "response_buffered st < response_buffer_limit st"
  then have "0 < unat (response_buffer_limit st - response_buffered st)"
    by (simp add: unat_sub_64 word_less_nat_alt)
  with u S show "0 < next_chunk_len st len off" by (auto simp: d)
qed

lemma resp_rep_cancel:
  "resp_rep h (fst (h3_stream_response_cancel_locked st)) us vs = resp_rep h st us vs"
  by (simp add: h3_stream_response_cancel_locked_def resp_rep_def)

lemma enqueued_cancel [simp]: "enqueued (snd (h3_stream_response_cancel_locked st)) = []"
  by (simp add: h3_stream_response_cancel_locked_def)

lemma append_iteration_rep:
  assumes rep: "resp_rep h st us vs" and len: "unat len = length data" and off: "off < len"
  obtains (wait) "append_iteration m se data len off h st = Some (Must_wait, h, st, [])"
      "response_must_wait se st"
  | (error) rv st' e where "append_iteration m se data len off h st = Some (Returned rv, h, st', e)"
      "rv \<noteq> APR_SUCCESS" "resp_rep h st' us vs" "enqueued e = []" "\<not> response_must_wait se st"
  | (queued) n h' st' e where "append_iteration m se data len off h st = Some (Queued n, h', st', e)"
      "0 < unat n" "unat n \<le> unat len - unat off" "resp_rep h' st' us (vs @ [length h])"
      "enqueued e = take (unat n) (drop (unat off) data)"
      "resp_bytes h' us = resp_bytes h us"
      "resp_bytes h' (vs @ [length h]) = resp_bytes h vs @ enqueued e" "\<not> response_must_wait se st"
      "\<And>a. deref h' a = None \<longleftrightarrow> deref h a = None \<and> a \<noteq> length h"
proof -
  let ?n = "next_chunk_len st len off"
  let ?bytes = "take (unat ?n) (drop (unat off) data)"
  note b = next_chunk_len_bounds [OF off, of st]
  consider (w) "response_must_wait se st"
    | (a) "\<not> response_must_wait se st" "response_cancelled st \<or> aborted se \<or> ngh3_dead se \<or> \<not> ngh3 se"
    | (g) "\<not> response_must_wait se st" "\<not> (response_cancelled st \<or> aborted se \<or> ngh3_dead se \<or> \<not> ngh3 se)"
        "(?n = 0 \<or> SIZE_MAX - ?n < response_len st) \<or> \<not> m"
    | (q) "\<not> response_must_wait se st" "\<not> (response_cancelled st \<or> aborted se \<or> ngh3_dead se \<or> \<not> ngh3 se)"
        "\<not> (?n = 0 \<or> SIZE_MAX - ?n < response_len st)" m
    by blast
  then show thesis
  proof cases
    case w
    then show thesis by (intro wait) (simp_all add: append_iteration_def)
  next
    case a
    then show thesis using rep
      by (intro error [where rv = APR_ECONNABORTED and st' = st and e = "[]"]) (simp_all add: append_iteration_def)
  next
    case g
    then show thesis
      using rep resp_rep_cancel [of h st us vs]
        enqueued_cancel [of st]
      by (intro error [where st' = "fst (h3_stream_response_cancel_locked st)"
            and e = "snd (h3_stream_response_cancel_locked st)"
            and rv = "if ?n = 0 \<or> SIZE_MAX - ?n < response_len st then APR_EGENERAL else APR_ENOMEM"])
        (auto simp: append_iteration_def Let_def split: prod.splits)
  next
    case q
    have n0: "0 < unat ?n" using q(3) by (simp add: unat_gt_0)
    have nl: "unat ?n = length ?bytes" using b(1) len by simp
    have ne: "?bytes \<noteq> []" using nl n0 by auto
    have "unat (response_buffer_limit st - response_buffered st) = unat (response_buffer_limit st) - unat (response_buffered st)"
      using rep by (intro unat_sub_64) (simp add: resp_rep_def word_le_nat_alt)
    then have room: "length ?bytes \<le> unat (response_buffer_limit st) - unat (response_buffered st)"
      using b(2) nl by (simp add: word_le_nat_alt)
    from resp_rep_push [OF rep ne nl room] obtain h' st1 where
      p: "chunk_link \<lparr>chunk_next = None, chunk_len = ?n, chunk_acked = 0, chunk_data = ?bytes\<rparr> (h, st) = Some (h', st1)"
        "resp_rep h' (st1\<lparr>response_buffered := response_buffered st1 + ?n, response_len := response_len st1 + ?n\<rparr>) us (vs @ [length h])"
        "resp_bytes h' us = resp_bytes h us" "resp_bytes h' (vs @ [length h]) = resp_bytes h vs @ ?bytes"
        "\<And>a. deref h' a = None \<longleftrightarrow> deref h a = None \<and> a \<noteq> length h"
      by blast
    show thesis
      by (rule queued [where n = ?n and e = "[Enqueued ?bytes] @ (if response_submitted st then [Resume_stream (stream_id st)] else []) @ [Wake_event_thread]",
            OF _ n0 b(1) p(2) _ p(3)]) (use q p in \<open>simp_all add: append_iteration_def Let_def\<close>)
  qed
qed

lemma read_loop_rep:
  assumes "resp_rep h st us vs"
  shows "\<exists>vecs st'. read_loop h k st = Some (vecs, st') \<and> resp_rep h st' (us @ take k vs) (drop k vs) \<and>
    map (vec_bytes h) vecs = map (chunk_rest h) (take k vs) \<and>
    st' = st\<lparr>response_submit_chunk := response_submit_chunk st'\<rparr>"
  using assms
proof (induction k arbitrary: st us vs)
  case 0
  then show ?case by simp
next
  case (Suc k)
  show ?case
  proof (cases vs)
    case Nil
    with Suc.prems show ?thesis by (simp add: resp_rep_def)
  next
    case (Cons v ws)
    let ?st = "st\<lparr>response_submit_chunk := (case ws of [] \<Rightarrow> None | w # _ \<Rightarrow> Some w), response_submit_offset := 0\<rparr>"
    from Suc.prems Cons obtain c where c: "deref h v = Some c" "chunk_ok c" "chunk_acked c = 0"
      by (auto simp: resp_rep_def chunk_good_def chunk_fresh_def split: option.splits)
    have "lseg chunk_next h (chunk_next c) ws None"
      using Suc.prems Cons c(1) by (auto simp: resp_rep_def lqueue_def lseg_append lseg_Cons)
    then have nx: "chunk_next c = (case ws of [] \<Rightarrow> None | w # _ \<Rightarrow> Some w)"
      by (cases ws) (auto simp: lseg_Cons)
    have "resp_rep h ?st (us @ [v]) ws" using Suc.prems Cons by (simp add: resp_rep_def)
    from Suc.IH [OF this] obtain vecs st' where
      ih: "read_loop h k ?st = Some (vecs, st')" "resp_rep h st' ((us @ [v]) @ take k ws) (drop k ws)"
        "map (vec_bytes h) vecs = map (chunk_rest h) (take k ws)"
        "st' = ?st\<lparr>response_submit_chunk := response_submit_chunk st'\<rparr>" by blast
    have off: "response_submit_offset st = 0" "response_submit_chunk st = Some v"
      using Suc.prems Cons by (simp_all add: resp_rep_def)
    have "vec_bytes h \<lparr>vec_base = v, vec_off = 0, vec_len = chunk_len c\<rparr> = chunk_rest h v"
      using c by (simp add: vec_bytes_def chunk_rest_def chunk_ok_def)
    moreover have "st' = st\<lparr>response_submit_chunk := response_submit_chunk st'\<rparr>"
      by (subst ih(4)) (simp add: off(1))
    ultimately show ?thesis using Cons c nx off ih(1-3) by simp
  qed
qed

lemma lqueue_set_node:
  assumes "lqueue chunk_next h p q as" and "deref h a = Some c" and "chunk_next c' = chunk_next c"
  shows "lqueue chunk_next (heap_set h a c') p q as"
proof -
  have "map_option chunk_next (deref (heap_set h a c') b) = map_option chunk_next (deref h b)" for b
    using assms(2,3) deref_lt [OF assms(2)] by (auto simp: deref_set)
  then show ?thesis using assms(1) lqueue_cong_next [of as chunk_next "heap_set h a c'" h p q] by simp
qed

text \<open>Acknowledging part of the head chunk, and all of it.\<close>

lemma ack_partial:
  assumes rep: "resp_rep h st (u # us) vs" and c: "deref h u = Some c" and n: "n < chunk_len c - chunk_acked c"
  defines "c' \<equiv> c\<lparr>chunk_acked := chunk_acked c + n\<rparr>"
  shows "chunk_acked c' \<noteq> chunk_len c'"
    and "resp_rep (heap_set h u c') (st\<lparr>response_buffered := response_buffered st - n\<rparr>) (u # us) vs"
    and "resp_bytes (heap_set h u c') (u # us) = drop (unat n) (resp_bytes h (u # us))"
    and "resp_bytes (heap_set h u c') vs = resp_bytes h vs"
proof -
  have ok: "chunk_ok c" using rep c by (simp add: resp_rep_def chunk_good_def)
  have lt: "unat (chunk_acked c) < unat (chunk_len c)" using ok by (simp add: chunk_ok_def word_less_nat_alt)
  have nl: "unat n < unat (chunk_len c) - unat (chunk_acked c)"
    using n lt by (simp add: word_less_nat_alt unat_sub_64)
  then have ua: "unat (chunk_acked c + n) = unat (chunk_acked c) + unat n"
    using unat_lt_64 [of "chunk_len c"] by (intro unat_add_64) (simp del: unat_lt_64)
  show ne: "chunk_acked c' \<noteq> chunk_len c'"
    using ua nl by (auto simp: c'_def dest: arg_cong [where f = unat])
  have du: "deref (heap_set h u c') b = (if b = u then Some c' else deref h b)" for b
    using deref_lt [OF c] by (auto simp: deref_set)
  have nin: "u \<notin> set us" "u \<notin> set vs" using resp_rep_addrs(1) [OF rep] by auto
  have b: "resp_bytes (heap_set h u c') us = resp_bytes h us" "resp_bytes (heap_set h u c') vs = resp_bytes h vs"
    using nin by (auto intro!: resp_bytes_cong simp: du)
  have r: "chunk_rest (heap_set h u c') u = drop (unat n) (chunk_rest h u)"
  proof -
    have "chunk_acked c' = chunk_acked c + n" "chunk_data c' = chunk_data c" by (simp_all add: c'_def)
    then show ?thesis using c ua by (simp add: chunk_rest_def du add.commute)
  qed
  have ln: "unat n < length (chunk_rest h u)"
    using n chunk_rest_length(1) [OF c ok] by (simp add: word_less_nat_alt)
  show "resp_bytes (heap_set h u c') (u # us) = drop (unat n) (resp_bytes h (u # us))"
    using b r ln by simp
  show "resp_bytes (heap_set h u c') vs = resp_bytes h vs" by (rule b(2))
  have g: "list_all (chunk_good (heap_set h u c')) us" "list_all (chunk_good (heap_set h u c')) vs"
    "list_all (chunk_fresh (heap_set h u c')) vs"
  proof -
    have v: "map_option chunk_view (deref (heap_set h u c') a) = map_option chunk_view (deref h a)"
      if "a \<in> set us \<union> set vs" for a using nin that by (auto simp: du)
    show "list_all (chunk_good (heap_set h u c')) us" "list_all (chunk_good (heap_set h u c')) vs"
      "list_all (chunk_fresh (heap_set h u c')) vs"
      using rep list_views_cong [of us "heap_set h u c'" h, OF v] list_views_cong [of vs "heap_set h u c'" h, OF v]
      by (auto simp: resp_rep_def)
  qed
  have "chunk_ok c'"
    using ok ua nl by (simp add: chunk_ok_def c'_def word_less_nat_alt)
  then have "chunk_good (heap_set h u c') u" by (simp add: chunk_good_def du)
  moreover have "lqueue chunk_next (heap_set h u c') (response_head st) (response_tail st) ((u # us) @ vs)"
    using rep c by (intro lqueue_set_node) (auto simp: resp_rep_def c'_def)
  moreover have bl: "unat (response_buffered st) = length (resp_bytes h ((u # us) @ vs))"
    "response_buffered st \<le> response_buffer_limit st" using rep by (simp_all add: resp_rep_def)
  moreover have "unat (response_buffered st - n) = unat (response_buffered st) - unat n"
    using bl(1) ln by (intro unat_sub_64) simp
  ultimately show "resp_rep (heap_set h u c') (st\<lparr>response_buffered := response_buffered st - n\<rparr>) (u # us) vs"
    using rep g b r ln by (auto simp: resp_rep_def word_le_nat_alt)
qed

lemma ack_whole:
  assumes rep: "resp_rep h st (u # us) vs" and c: "deref h u = Some c"
  defines "n \<equiv> chunk_len c - chunk_acked c"
  defines "c' \<equiv> c\<lparr>chunk_acked := chunk_acked c + n\<rparr>"
  shows "chunk_acked c' = chunk_len c'"
    and "\<exists>st'. chunk_unlink_head (heap_set h u c', st\<lparr>response_buffered := response_buffered st - n\<rparr>) =
          Some (heap_free (heap_set h u c') u, st') \<and>
       resp_rep (heap_free (heap_set h u c') u) st' us vs \<and>
       resp_bytes (heap_free (heap_set h u c') u) us = drop (unat n) (resp_bytes h (u # us)) \<and>
       resp_bytes (heap_free (heap_set h u c') u) vs = resp_bytes h vs \<and>
       st' = st\<lparr>response_head := response_head st', response_tail := response_tail st', response_buffered := response_buffered st'\<rparr>"
proof -
  show "chunk_acked c' = chunk_len c'" by (simp add: c'_def n_def)
  let ?h = "heap_free (heap_set h u c') u" and ?st = "st\<lparr>response_buffered := response_buffered st - n\<rparr>"
  have ok: "chunk_ok c" using rep c by (simp add: resp_rep_def chunk_good_def)
  have l: "lqueue chunk_next (heap_set h u c') (response_head ?st) (response_tail ?st) (u # us @ vs)"
    using rep c lqueue_set_node [of h "response_head st" "response_tail st" "u # us @ vs" u c c']
    by (simp add: resp_rep_def c'_def)
  have d: "deref (heap_set h u c') u = Some c'" using deref_lt [OF c] by (simp add: deref_set)
  from chunk_unlink_lqueue [OF l d] obtain st' where
    st': "chunk_unlink_head (heap_set h u c', ?st) = Some (?h, st')"
      "lqueue chunk_next ?h (response_head st') (response_tail st') (us @ vs)"
      "st' = ?st\<lparr>response_head := response_head st', response_tail := response_tail st'\<rparr>" by blast
  have eqs: "response_submit_chunk st' = response_submit_chunk st" "response_submit_offset st' = response_submit_offset st"
    "response_buffered st' = response_buffered st - n" "response_buffer_limit st' = response_buffer_limit st"
    by (subst st'(3), simp)+
  have du: "b \<noteq> u \<Longrightarrow> deref ?h b = deref h b" for b
    using deref_lt [OF c] by (simp add: deref_set deref_free)
  have nin: "u \<notin> set us" "u \<notin> set vs" using resp_rep_addrs(1) [OF rep] by auto
  then have v: "b \<in> set us \<Longrightarrow> deref ?h b = deref h b" "b \<in> set vs \<Longrightarrow> deref ?h b = deref h b" for b
    by (auto intro: du)
  have b: "resp_bytes ?h us = resp_bytes h us" "resp_bytes ?h vs = resp_bytes h vs"
    by (auto intro!: resp_bytes_cong simp: v)
  have g: "list_all (chunk_good ?h) us" "list_all (chunk_good ?h) vs" "list_all (chunk_fresh ?h) vs"
    using rep list_views_cong [of us ?h h] list_views_cong [of vs ?h h]
    by (auto simp: resp_rep_def v)
  have ln: "length (chunk_rest h u) = unat n" using chunk_rest_length(1) [OF c ok] by (simp add: n_def)
  have bl: "unat (response_buffered st) = length (resp_bytes h ((u # us) @ vs))"
    "response_buffered st \<le> response_buffer_limit st" using rep by (simp_all add: resp_rep_def)
  have ub: "unat (response_buffered st - n) = unat (response_buffered st) - unat n"
    using bl(1) ln by (intro unat_sub_64) simp
  have "resp_rep ?h st' us vs"
    using rep st'(2) g b bl ub ln by (auto simp: resp_rep_def eqs word_le_nat_alt)
  moreover have "st' = st\<lparr>response_head := response_head st', response_tail := response_tail st', response_buffered := response_buffered st'\<rparr>"
    by (subst st'(3)) (simp add: eqs)
  ultimately show "\<exists>st'. chunk_unlink_head (heap_set h u c', ?st) = Some (?h, st') \<and> resp_rep ?h st' us vs \<and>
       resp_bytes ?h us = drop (unat n) (resp_bytes h (u # us)) \<and> resp_bytes ?h vs = resp_bytes h vs \<and>
       st' = st\<lparr>response_head := response_head st', response_tail := response_tail st', response_buffered := response_buffered st'\<rparr>"
    using st'(1) b ln by auto
qed

lemma ack_loop_rep:
  assumes "resp_rep h st us vs" and "unat n \<le> length (resp_bytes h us)"
  shows "\<exists>h' st' us'. ack_loop h st n r = Some (h', st', r \<or> n \<noteq> 0) \<and> resp_rep h' st' us' vs \<and>
    resp_bytes h' us' = drop (unat n) (resp_bytes h us) \<and> resp_bytes h' vs = resp_bytes h vs \<and>
    set us' \<subseteq> set us \<and> (\<forall>a. deref h' a = None \<longleftrightarrow> deref h a = None \<or> a \<in> set us - set us') \<and>
    st' = st\<lparr>response_head := response_head st', response_tail := response_tail st', response_buffered := response_buffered st'\<rparr>"
  using assms
proof (induction us arbitrary: h st n r)
  case Nil
  then have "n = 0" by (simp add: unat_eq_zero)
  with Nil show ?case by (subst ack_loop.simps) auto
next
  case (Cons u us)
  obtain c where c: "deref h u = Some c" "chunk_ok c"
    using Cons.prems(1) by (auto simp: resp_rep_def chunk_good_def split: option.splits)
  have hd: "response_head st = Some u" using Cons.prems(1) by (auto simp: resp_rep_def lqueue_def lseg_Cons)
  have ln: "length (chunk_rest h u) = unat (chunk_len c - chunk_acked c)"
    by (rule chunk_rest_length(1) [OF c])
  consider "n = 0" | "n \<noteq> 0" "n < chunk_len c - chunk_acked c" | "n \<noteq> 0" "\<not> n < chunk_len c - chunk_acked c"
    by blast
  then show ?case
  proof cases
    case 1
    with Cons.prems show ?thesis by (subst ack_loop.simps) auto
  next
    case 2
    note p = ack_partial [OF Cons.prems(1) c(1) 2(2)]
    let ?h = "heap_set h u (c\<lparr>chunk_acked := chunk_acked c + n\<rparr>)"
      and ?st = "st\<lparr>response_buffered := response_buffered st - n\<rparr>"
    have "ack_loop h st n r = ack_loop ?h ?st 0 True"
      using 2 hd c p(1) by (subst ack_loop.simps) (simp add: Let_def)
    then have "ack_loop h st n r = Some (?h, ?st, True)" by (subst (asm) (2) ack_loop.simps) simp
    moreover have "deref ?h a = None \<longleftrightarrow> deref h a = None" for a
      using c(1) by (auto simp: deref_set [OF deref_lt [OF c(1)]])
    ultimately show ?thesis using p(2-4) 2(1)
      by (intro exI [of _ ?h] exI [of _ ?st] exI [of _ "u # us"]) (auto simp del: resp_bytes_simps)
  next
    case 3
    define k where "k = chunk_len c - chunk_acked c"
    note p = ack_whole [OF Cons.prems(1) c(1), folded k_def]
    have un: "u \<notin> set us" using resp_rep_addrs(1) [OF Cons.prems(1)] by simp
    from p(2) obtain h1 st1 where
      s1: "chunk_unlink_head (heap_set h u (c\<lparr>chunk_acked := chunk_acked c + k\<rparr>),
             st\<lparr>response_buffered := response_buffered st - k\<rparr>) = Some (h1, st1)"
        "resp_rep h1 st1 us vs" "resp_bytes h1 us = drop (unat k) (resp_bytes h (u # us))"
        "resp_bytes h1 vs = resp_bytes h vs"
        "h1 = heap_free (heap_set h u (c\<lparr>chunk_acked := chunk_acked c + k\<rparr>)) u"
        "st1 = st\<lparr>response_head := response_head st1, response_tail := response_tail st1, response_buffered := response_buffered st1\<rparr>"
      by blast
    have kn: "unat k \<le> unat n" using 3(2) by (simp add: k_def not_less word_le_nat_alt)
    have "\<not> n < k" using 3 by (simp add: k_def)
    then have step: "ack_loop h st n r = ack_loop h1 st1 (n - k) True"
      using 3(1) hd c p(1) s1(1) by (subst ack_loop.simps) (simp add: Let_def k_def [symmetric])
    have nk: "unat (n - k) = unat n - unat k" using kn by (rule unat_sub_64)
    have "unat (n - k) \<le> length (resp_bytes h1 us)"
      using Cons.prems(2) nk s1(3) by simp
    from Cons.IH [OF s1(2) this, of True] obtain h' st' us' where
      ih: "ack_loop h1 st1 (n - k) True = Some (h', st', True)" "resp_rep h' st' us' vs"
        "resp_bytes h' us' = drop (unat (n - k)) (resp_bytes h1 us)" "resp_bytes h' vs = resp_bytes h1 vs"
        "set us' \<subseteq> set us" "\<And>a. deref h' a = None \<longleftrightarrow> deref h1 a = None \<or> a \<in> set us - set us'"
        "st' = st1\<lparr>response_head := response_head st', response_tail := response_tail st', response_buffered := response_buffered st'\<rparr>"
      by auto
    have "resp_bytes h' us' = drop (unat n) (resp_bytes h (u # us))"
      using ih(3) s1(3) nk kn by (simp del: resp_bytes_simps)
    moreover have "st' = st\<lparr>response_head := response_head st', response_tail := response_tail st', response_buffered := response_buffered st'\<rparr>"
      by (subst ih(7), subst s1(6)) simp
    moreover have "deref h' a = None \<longleftrightarrow> deref h a = None \<or> a \<in> set (u # us) - set us'" for a
      using ih(5,6) un by (auto simp: s1(5) deref_free deref_set [OF deref_lt [OF c(1)]])
    ultimately show ?thesis using step ih(1,2,4,5) s1(4) 3(1) by (auto simp del: resp_bytes_simps)
  qed
qed

text \<open>With nothing left to hand over, an acknowledgement of any size is harmless.\<close>

lemma ack_loop_drained:
  assumes "resp_rep h st us []"
  shows "\<exists>h' st' us' r'. ack_loop h st n r = Some (h', st', r') \<and> resp_rep h' st' us' [] \<and>
    st' = st\<lparr>response_head := response_head st', response_tail := response_tail st', response_buffered := response_buffered st'\<rparr>"
  using assms
proof (induction us arbitrary: h st n r)
  case Nil
  then have "response_head st = None" by (simp add: resp_rep_def lqueue_def)
  with Nil show ?case by (subst ack_loop.simps) auto
next
  case (Cons u us)
  show ?case
  proof (cases "unat n \<le> length (resp_bytes h (u # us))")
    case True
    from ack_loop_rep [OF Cons.prems True, of r] show ?thesis by blast
  next
    case False
    obtain c where c: "deref h u = Some c" "chunk_ok c"
      using Cons.prems by (auto simp: resp_rep_def chunk_good_def split: option.splits)
    have hd: "response_head st = Some u" using Cons.prems by (auto simp: resp_rep_def lqueue_def lseg_Cons)
    define k where "k = chunk_len c - chunk_acked c"
    note p = ack_whole [OF Cons.prems c(1), folded k_def]
    have "unat k < unat n" using False chunk_rest_length(1) [OF c] by (simp add: k_def)
    then have n: "\<not> n < k" "n \<noteq> 0" by (auto simp: word_less_nat_alt)
    from p(2) obtain h1 st1 where
      s1: "chunk_unlink_head (heap_set h u (c\<lparr>chunk_acked := chunk_acked c + k\<rparr>),
             st\<lparr>response_buffered := response_buffered st - k\<rparr>) = Some (h1, st1)" "resp_rep h1 st1 us []"
        "st1 = st\<lparr>response_head := response_head st1, response_tail := response_tail st1, response_buffered := response_buffered st1\<rparr>"
      by blast
    have step: "ack_loop h st n r = ack_loop h1 st1 (n - k) True"
      using n hd c p(1) s1(1) by (subst ack_loop.simps) (simp add: Let_def k_def [symmetric])
    from Cons.IH [OF s1(2), of "n - k" True] obtain h' st' us' r' where
      ih: "ack_loop h1 st1 (n - k) True = Some (h', st', r')" "resp_rep h' st' us' []"
        "st' = st1\<lparr>response_head := response_head st', response_tail := response_tail st', response_buffered := response_buffered st'\<rparr>"
      by blast
    have "st' = st\<lparr>response_head := response_head st', response_tail := response_tail st', response_buffered := response_buffered st'\<rparr>"
      by (subst ih(3), subst s1(3)) simp
    with step ih(1,2) show ?thesis by (intro exI [of _ h'] exI [of _ st'] exI [of _ us'] exI [of _ r']) simp
  qed
qed

lemma cleanup_rep:
  assumes "resp_rep h st us vs"
  shows "\<exists>h' st'. h3_stream_response_cleanup_locked h st = Some (h', st') \<and> resp_rep h' st' [] [] \<and>
    (\<forall>a. deref h' a = (if a \<in> set (us @ vs) then None else deref h a)) \<and>
    response_cancelled st' = response_cancelled st"
proof -
  have "lseg chunk_next h (response_head st) (us @ vs) None" using assms by (simp add: resp_rep_def lqueue_def)
  from free_chain_lseg [OF this] obtain h' where
    "free_chain chunk_next h (response_head st) = Some h'"
    "\<forall>b. deref h' b = (if b \<in> set (us @ vs) then None else deref h b)" by blast
  then show ?thesis by (simp add: h3_stream_response_cleanup_locked_def resp_rep_def)
qed

section \<open>Workers and event thread interleaved\<close>

text \<open>
  One stream's queue as both threads use it. \<open>appended\<close>, \<open>handed\<close> and \<open>acked\<close> record the
  bytes that went in, the bytes nghttp3 was pointed at, and how many were acknowledged.
  nghttp3 acknowledges only bytes it was given: that is the guard of \<open>ack\<close>.
\<close>

record resp_sys =
  rs_heap :: chunk_heap
  rs_stream :: h3_stream
  rs_session :: h3_session
  appended :: "byte list"
  handed :: "byte list"
  acked :: nat

inductive resp_step :: "resp_sys \<Rightarrow> resp_sys \<Rightarrow> bool" where
  produce: "\<lbrakk>unat len = length data; off < len;
     append_iteration m (rs_session s) data len off (rs_heap s) (rs_stream s) = Some (out, h', st', e)\<rbrakk>
   \<Longrightarrow> resp_step s (s\<lparr>rs_heap := h', rs_stream := st', appended := appended s @ enqueued e\<rparr>)"
| read: "\<lbrakk>h3_session_read_data (rs_heap s) (Some (rs_stream s)) k = Some (ret, eof, vecs, Some st')\<rbrakk>
   \<Longrightarrow> resp_step s (s\<lparr>rs_stream := st', handed := handed s @ concat (map (vec_bytes (rs_heap s)) vecs)\<rparr>)"
| ack: "\<lbrakk>acked s + unat n \<le> length (handed s);
     h3_stream_response_ack_locked (rs_heap s) (rs_stream s) n = Some (h', st', e)\<rbrakk>
   \<Longrightarrow> resp_step s (s\<lparr>rs_heap := h', rs_stream := st', acked := acked s + unat n\<rparr>)"
| complete: "resp_step s (s\<lparr>rs_stream := fst (h3_stream_response_complete (rs_session s) (rs_stream s))\<rparr>)"
| cancel: "resp_step s (s\<lparr>rs_stream := fst (h3_stream_response_cancel_locked (rs_stream s))\<rparr>)"
| submit: "resp_step s (s\<lparr>rs_stream := (rs_stream s)\<lparr>response_submitted := True\<rparr>\<rparr>)"
| session: "resp_step s (s\<lparr>rs_session := se\<rparr>)"

inductive_cases resp_stepE: "resp_step s t"

definition resp_init :: "h3_session \<Rightarrow> h3_stream \<Rightarrow> resp_sys" where
  "resp_init se st = \<lparr>rs_heap = [], rs_stream = st, rs_session = se, appended = [], handed = [], acked = 0\<rparr>"

text \<open>A stream as it leaves \<^verbatim>\<open>track_stream\<close>: nothing queued.\<close>

definition resp_blank :: "h3_stream \<Rightarrow> bool" where
  "resp_blank st \<longleftrightarrow> response_head st = None \<and> response_tail st = None \<and> response_submit_chunk st = None \<and>
     response_submit_offset st = 0 \<and> response_buffered st = 0"

definition resp_sys_rep :: "resp_sys \<Rightarrow> addr list \<Rightarrow> addr list \<Rightarrow> bool" where
  "resp_sys_rep s us vs \<longleftrightarrow> resp_rep (rs_heap s) (rs_stream s) us vs \<and>
     (\<forall>a. deref (rs_heap s) a = None \<longleftrightarrow> a \<notin> set (us @ vs)) \<and>
     acked s \<le> length (handed s) \<and>
     resp_bytes (rs_heap s) us = drop (acked s) (handed s) \<and>
     handed s @ resp_bytes (rs_heap s) vs = appended s"

lemma resp_init_rep: "resp_blank st \<Longrightarrow> resp_sys_rep (resp_init se st) [] []"
  by (simp add: resp_blank_def resp_sys_rep_def resp_init_def resp_rep_def deref_def)

lemma read_data_rep:
  assumes rep: "resp_rep h st us vs"
  shows "\<exists>ret eof vecs st' k'. h3_session_read_data h (Some st) k = Some (ret, eof, vecs, Some st') \<and>
     resp_rep h st' (us @ take k' vs) (drop k' vs) \<and>
     concat (map (vec_bytes h) vecs) = resp_bytes h (take k' vs) \<and>
     (\<not> response_cancelled st \<longrightarrow> eof \<longrightarrow> response_complete st \<and> drop k' vs = []) \<and>
     (\<not> response_cancelled st \<longrightarrow> response_complete st \<longrightarrow> 0 < k \<longrightarrow> drop k' vs = [] \<longrightarrow> eof) \<and>
     (ret = Err_wouldblock \<longrightarrow> vs = [] \<and> \<not> response_complete st) \<and>
     (\<forall>n. ret = Filled n \<longrightarrow> n = length vecs \<and> n \<le> k)"
proof (cases "k = 0 \<or> response_cancelled st")
  case True
  with rep show ?thesis
    by (intro exI [of _ "if k = 0 then Err_callback_failure else Filled 0"] exI [of _ "k \<noteq> 0"] exI [of _ "[]"]
        exI [of _ st] exI [of _ "0::nat"]) (auto simp: h3_session_read_data_def)
next
  case False
  from read_loop_rep [OF rep, of k] obtain vecs st' where
    l: "read_loop h k st = Some (vecs, st')" "resp_rep h st' (us @ take k vs) (drop k vs)"
      "map (vec_bytes h) vecs = map (chunk_rest h) (take k vs)"
    and st': "st' = st\<lparr>response_submit_chunk := response_submit_chunk st'\<rparr>" by blast
  have c: "response_complete st' = response_complete st" by (subst st') simp
  have e: "vecs = [] \<longleftrightarrow> vs = []" using l(3) False by (cases vecs; cases vs; cases k) auto
  have sub: "response_submit_chunk st' = None \<longleftrightarrow> drop k vs = []"
    using l(2) by (auto simp: resp_rep_def split: list.splits)
  have ln: "length vecs \<le> k" using arg_cong [OF l(3), of length] by simp
  show ?thesis
    using False l c e sub ln
    by (intro exI [of _ "if vecs \<noteq> [] then Filled (length vecs) else if response_complete st then Filled 0 else Err_wouldblock"]
        exI [of _ "response_complete st \<and> drop k vs = []"] exI [of _ vecs] exI [of _ st'] exI [of _ k])
      (auto simp: h3_session_read_data_def resp_bytes_def)
qed

lemma ack_locked_rep:
  assumes "resp_rep h st us vs" and "unat n \<le> length (resp_bytes h us)"
  shows "\<exists>h' st' us' e. h3_stream_response_ack_locked h st n = Some (h', st', e) \<and> resp_rep h' st' us' vs \<and>
    resp_bytes h' us' = drop (unat n) (resp_bytes h us) \<and> resp_bytes h' vs = resp_bytes h vs \<and>
    set us' \<subseteq> set us \<and> (\<forall>a. deref h' a = None \<longleftrightarrow> deref h a = None \<or> a \<in> set us - set us') \<and>
    e = (if n = 0 then [] else [Cond_broadcast])"
  using ack_loop_rep [OF assms, of False] by (fastforce simp: h3_stream_response_ack_locked_def)

lemma resp_step_rep:
  assumes step: "resp_step s t" and inv: "resp_sys_rep s us vs"
  shows "\<exists>us' vs'. resp_sys_rep t us' vs'"
  using step
proof (cases rule: resp_step.cases)
  case (produce len data off m out h' st' e)
  have rep: "resp_rep (rs_heap s) (rs_stream s) us vs" using inv by (simp add: resp_sys_rep_def)
  show ?thesis
  proof (cases rule: append_iteration_rep [OF rep produce(2,3), of m "rs_session s", case_names wait error queued])
    case wait
    with produce inv have "resp_sys_rep t us vs" by (simp add: resp_sys_rep_def)
    then show ?thesis by blast
  next
    case (error rv st'' e'')
    with produce inv have "resp_sys_rep t us vs" by (simp add: resp_sys_rep_def)
    then show ?thesis by blast
  next
    case (queued n h'' st'' e'')
    moreover have "deref (rs_heap s) a = None \<longleftrightarrow> a \<notin> set (us @ vs)" for a
      using inv by (simp add: resp_sys_rep_def)
    ultimately have "resp_sys_rep t us (vs @ [length (rs_heap s)])"
      using produce inv by (auto simp: resp_sys_rep_def simp del: resp_bytes_simps)
    then show ?thesis by blast
  qed
next
  case (read k ret eof vecs st')
  from inv read_data_rep [of "rs_heap s" "rs_stream s" us vs k] read obtain k' where
    k': "resp_rep (rs_heap s) st' (us @ take k' vs) (drop k' vs)"
      "concat (map (vec_bytes (rs_heap s)) vecs) = resp_bytes (rs_heap s) (take k' vs)"
    by (auto simp: resp_sys_rep_def)
  have "resp_bytes (rs_heap s) vs = resp_bytes (rs_heap s) (take k' vs) @ resp_bytes (rs_heap s) (drop k' vs)"
    by (metis append_take_drop_id resp_bytes_simps(3))
  moreover have "set vs = set (take k' vs) \<union> set (drop k' vs)"
    by (metis append_take_drop_id set_append)
  ultimately have "resp_sys_rep t (us @ take k' vs) (drop k' vs)"
    using k' inv read(1) by (auto simp: resp_sys_rep_def)
  then show ?thesis by blast
next
  case (ack n h' st' e)
  have rep: "resp_rep (rs_heap s) (rs_stream s) us vs" using inv by (simp add: resp_sys_rep_def)
  have n: "unat n \<le> length (resp_bytes (rs_heap s) us)" using inv ack(2) by (simp add: resp_sys_rep_def)
  from ack_locked_rep [OF rep n] ack(3) obtain us' where
    r: "resp_rep h' st' us' vs" "resp_bytes h' us' = drop (unat n) (resp_bytes (rs_heap s) us)"
      "resp_bytes h' vs = resp_bytes (rs_heap s) vs" "set us' \<subseteq> set us"
      "\<And>a. deref h' a = None \<longleftrightarrow> deref (rs_heap s) a = None \<or> a \<in> set us - set us'"
    by auto
  have "set us \<inter> set vs = {}" using resp_rep_addrs(1) [OF rep] by simp
  then have "deref h' a = None \<longleftrightarrow> a \<notin> set (us' @ vs)" for a
    using r(4,5) inv by (auto simp: resp_sys_rep_def)
  then have "resp_sys_rep t us' vs"
    using r(1-3) inv ack(1,2) by (simp add: resp_sys_rep_def add.commute)
  then show ?thesis by blast
next
  case complete
  with inv have "resp_sys_rep t us vs"
    by (simp add: resp_sys_rep_def h3_stream_response_complete_def resp_rep_def)
  then show ?thesis by blast
next
  case cancel
  with inv have "resp_sys_rep t us vs" by (simp add: resp_sys_rep_def resp_rep_cancel)
  then show ?thesis by blast
next
  case submit
  with inv have "resp_sys_rep t us vs" by (simp add: resp_sys_rep_def resp_rep_def)
  then show ?thesis by blast
next
  case (session se)
  with inv have "resp_sys_rep t us vs" by (simp add: resp_sys_rep_def)
  then show ?thesis by blast
qed

lemma resp_reachable_rep:
  assumes "resp_step\<^sup>*\<^sup>* (resp_init se st) s" and "resp_blank st"
  shows "\<exists>us vs. resp_sys_rep s us vs"
  using assms
proof (induction rule: rtranclp_induct)
  case base
  then show ?case using resp_init_rep by blast
next
  case (step t u)
  then show ?case using resp_step_rep by blast
qed

lemma read_data_eof:
  assumes inv: "resp_sys_rep s us vs"
    and rd: "h3_session_read_data (rs_heap s) (Some (rs_stream s)) k = Some (ret, eof, vecs, Some st')"
    and "\<not> response_cancelled (rs_stream s)" and "0 < k"
  shows "eof \<longleftrightarrow> response_complete (rs_stream s) \<and>
    handed s @ concat (map (vec_bytes (rs_heap s)) vecs) = appended s"
proof -
  let ?h = "rs_heap s"
  have rep: "resp_rep ?h (rs_stream s) us vs" using inv by (simp add: resp_sys_rep_def)
  from read_data_rep [OF rep, of k] rd assms(3,4) obtain k' where
    k': "resp_rep ?h st' (us @ take k' vs) (drop k' vs)"
      "concat (map (vec_bytes ?h) vecs) = resp_bytes ?h (take k' vs)"
      "eof \<longleftrightarrow> response_complete (rs_stream s) \<and> drop k' vs = []" by auto
  have "appended s = handed s @ resp_bytes ?h (take k' vs) @ resp_bytes ?h (drop k' vs)"
    using inv by (metis append_take_drop_id resp_bytes_simps(3) resp_sys_rep_def)
  moreover have "resp_bytes ?h (drop k' vs) = [] \<longleftrightarrow> drop k' vs = []"
  proof (cases "drop k' vs")
    case (Cons v ws)
    with k'(1) obtain c where c: "deref ?h v = Some c" "chunk_ok c"
      by (auto simp: resp_rep_def chunk_good_def split: option.splits)
    from chunk_rest_length [OF c] Cons show ?thesis by auto
  qed simp
  ultimately show ?thesis using k'(2,3) by auto
qed

section \<open>The append loop\<close>

definition resp_ok :: "resp_state \<Rightarrow> bool" where
  "resp_ok s \<longleftrightarrow> (case s of (h, st, se) \<Rightarrow> \<exists>us vs. resp_rep h st us vs)"

text \<open>What the other threads may do: anything that keeps the queue represented.\<close>

definition env_ok :: "(nat \<Rightarrow> resp_state \<Rightarrow> resp_state) \<Rightarrow> bool" where
  "env_ok env \<longleftrightarrow> (\<forall>k s. resp_ok s \<longrightarrow> resp_ok (env k s))"

text \<open>From round \<open>w\<close> on, the other threads leave room in the queue whenever the worker looks.\<close>

definition makes_room :: "nat \<Rightarrow> (nat \<Rightarrow> resp_state \<Rightarrow> resp_state) \<Rightarrow> bool" where
  "makes_room w env \<longleftrightarrow> (\<forall>k s. w \<le> k \<longrightarrow> resp_ok s \<longrightarrow>
     (case env k s of (h, st, se) \<Rightarrow> \<not> response_must_wait se st))"

lemma append_step:
  assumes ok: "resp_ok s" and env: "env_ok env" and len: "unat len = length data" and off: "off < len"
    and e: "env k s = (h, st, se)"
  obtains (wait) "append_iteration m se data len off h st = Some (Must_wait, h, st, [])"
      "response_must_wait se st" "resp_ok (h, st, se)"
  | (error) rv st' e where "append_iteration m se data len off h st = Some (Returned rv, h, st', e)"
      "rv \<noteq> APR_SUCCESS" "resp_ok (h, st', se)" "enqueued e = []"
  | (queued) n h' st' e where "append_iteration m se data len off h st = Some (Queued n, h', st', e)"
      "0 < unat n" "unat (off + n) = unat off + unat n" "unat off + unat n \<le> length data"
      "resp_ok (h', st', se)" "enqueued e = take (unat n) (drop (unat off) data)"
proof -
  from ok env have "resp_ok (env k s)" unfolding env_ok_def by blast
  then have ok1: "resp_ok (h, st, se)" by (simp only: e)
  then obtain us vs where rep: "resp_rep h st us vs" by (auto simp: resp_ok_def)
  show thesis
  proof (cases rule: append_iteration_rep [OF rep len off, of m se, case_names w er q])
    case w
    with ok1 show thesis by (intro wait)
  next
    case (er rv st' e)
    then show thesis by (intro error) (auto simp: resp_ok_def)
  next
    case (q n h' st' e)
    have le: "unat off + unat n \<le> length data" using q(3) len off by (simp add: word_less_nat_alt)
    then have "unat off + unat n < 2 ^ 64" using len unat_lt_64 [of len] by (simp del: unat_lt_64)
    with q le show thesis by (intro queued) (auto simp: resp_ok_def unat_add_64)
  qed
qed

lemma append_loop_result:
  assumes "resp_ok s" and env: "env_ok env" and len: "unat len = length data"
  shows "append_loop env wait_rv mal fuel k data len off s effs \<noteq> Undefined"
    and "append_loop env wait_rv mal fuel k data len off s effs = Done (rv, s', e) \<Longrightarrow>
      resp_ok s' \<and> (\<exists>rest. enqueued e @ rest = enqueued effs @ drop (unat off) data \<and> (rv = APR_SUCCESS \<longrightarrow> rest = []))"
  using assms(1)
proof (induction fuel arbitrary: k off s effs)
  case 0
  {
    case 1
    then show ?case by simp
  next
    case 2
    then show ?case by simp
  }
next
  case (Suc fuel)
  {
    case (1 k off s effs)
    obtain h st se where es: "env k s = (h, st, se)" by (cases "env k s")
    show ?case
    proof (cases "off < len")
      case True
      show ?thesis
      proof (cases rule: append_step [where env = env and k = k and s = s, OF 1 env len True es, of "mal k", case_names w er q])
        case w
        with True es Suc.IH(1) show ?thesis by simp
      next
        case (er rv st' e)
        with True es show ?thesis by simp
      next
        case (q n h' st' e)
        with True es Suc.IH(1) show ?thesis by simp
      qed
    qed simp
  next
    case (2 k off s effs)
    obtain h st se where es: "env k s = (h, st, se)" by (cases "env k s")
    show ?case
    proof (cases "off < len")
      case True
      show ?thesis
      proof (cases rule: append_step [where env = env and k = k and s = s, OF 2(2) env len True es, of "mal k", case_names w er q])
        case w
        show ?thesis
        proof (cases "wait_rv k \<noteq> APR_SUCCESS \<and> wait_rv k \<noteq> APR_TIMEUP")
          case True
          with 2(1) \<open>off < len\<close> es w(1) have "rv = wait_rv k" "s' = env (Suc k) (h, st, se)" "e = effs"
            by simp_all
          with True w(3) env show ?thesis unfolding env_ok_def by blast
        next
          case False
          with 2(1) \<open>off < len\<close> es w(1) have
            "append_loop env wait_rv mal fuel (Suc k) data len off (h, st, se) effs = Done (rv, s', e)" by auto
          then show ?thesis by (rule Suc.IH(2) [OF _ w(3)])
        qed
      next
        case (er rv' st' e')
        with 2(1) True es show ?thesis by auto
      next
        case (q n h' st' e')
        with 2(1) True es have
          "append_loop env wait_rv mal fuel (Suc k) data len (off + n) (h', st', se) (effs @ e') = Done (rv, s', e)" by simp
        from Suc.IH(2) [OF this q(5)] q(3,6) show ?thesis
          by (simp add: add.commute) (metis append.assoc append_take_drop_id drop_drop)
      qed
    next
      case False
      with 2 len show ?thesis by (auto simp: word_less_nat_alt)
    qed
  }
qed

lemma append_loop_returns:
  assumes "resp_ok s" and env: "env_ok env" and room: "makes_room w env" and len: "unat len = length data"
    and "(w - k) + (length data - unat off) < fuel"
  shows "\<exists>rv s' e. append_loop env wait_rv mal fuel k data len off s effs = Done (rv, s', e)"
  using assms(1,5)
proof (induction fuel arbitrary: k off s effs)
  case 0
  then show ?case by simp
next
  case (Suc fuel)
  obtain h st se where es: "env k s = (h, st, se)" by (cases "env k s")
  show ?case
  proof (cases "off < len")
    case True
    show ?thesis
    proof (cases rule: append_step [where env = env and k = k and s = s, OF Suc.prems(1) env len True es, of "mal k", case_names w er q])
      case w
      have "k < w"
      proof (rule ccontr)
        assume "\<not> k < w"
        with room Suc.prems(1) have "case env k s of (h, st, se) \<Rightarrow> \<not> response_must_wait se st"
          unfolding makes_room_def by (meson not_less)
        with w(2) es show False by simp
      qed
      then have "(w - Suc k) + (length data - unat off) < fuel" using Suc.prems(2) by simp
      from Suc.IH [OF w(3) this, of effs] True es w(1) show ?thesis
        by (cases "env (Suc k) (h, st, se)") simp
    next
      case (er rv st' e)
      with True es show ?thesis by simp
    next
      case (q n h' st' e)
      have "(w - Suc k) + (length data - unat (off + n)) < fuel" using Suc.prems(2) q(2-4) by simp
      from Suc.IH [OF q(5) this] True es q(1) show ?thesis by simp
    qed
  next
    case False
    then show ?thesis by (cases s) simp
  qed
qed

lemma ack_loop_step:
  assumes "n \<noteq> 0" and "response_head st = Some a" and "deref h a = Some c"
    and k: "k = (if n < chunk_len c - chunk_acked c then n else chunk_len c - chunk_acked c)"
  shows "ack_loop h st n b =
    (let h' = heap_set h a (c\<lparr>chunk_acked := chunk_acked c + k\<rparr>);
         st' = st\<lparr>response_buffered := response_buffered st - k\<rparr>
     in if chunk_acked c + k = chunk_len c
        then (case chunk_unlink_head (h', st') of None \<Rightarrow> None | Some (h2, st2) \<Rightarrow> ack_loop h2 st2 (n - k) True)
        else ack_loop h' st' (n - k) True)"
  unfolding k using assms(1-3) by (subst ack_loop.simps) (simp add: Let_def)

lemma ack_loop_released: "ack_loop h st n b = Some (h', st', r) \<Longrightarrow> b \<Longrightarrow> r"
proof (induction h st n b rule: ack_loop.induct)
  case (1 h st n b)
  show ?case
  proof (cases "n = 0 \<or> response_head st = None")
    case True
    then show ?thesis using "1.prems" by (subst (asm) ack_loop.simps) (auto split: if_splits)
  next
    case False
    then obtain a where a: "n \<noteq> 0" "response_head st = Some a" by auto
    with "1.prems"(1) obtain c where c: "deref h a = Some c"
      by (subst (asm) ack_loop.simps) (auto split: option.splits)
    define k where "k = (if n < chunk_len c - chunk_acked c then n else chunk_len c - chunk_acked c)"
    note ih = "1.IH" [OF a c refl k_def refl refl refl]
    let ?h = "heap_set h a (c\<lparr>chunk_acked := chunk_acked c + k\<rparr>)"
      and ?st = "st\<lparr>response_buffered := response_buffered st - k\<rparr>"
    have step: "(if chunk_acked c + k = chunk_len c
        then (case chunk_unlink_head (?h, ?st) of None \<Rightarrow> None | Some (h2, st2) \<Rightarrow> ack_loop h2 st2 (n - k) True)
        else ack_loop ?h ?st (n - k) True) = Some (h', st', r)"
      using "1.prems"(1) ack_loop_step [OF a c k_def] by (simp add: Let_def)
    show ?thesis
    proof (cases "chunk_acked c + k = chunk_len c")
      case True
      with step obtain h2 st2 where "chunk_unlink_head (?h, ?st) = Some (h2, st2)"
        "ack_loop h2 st2 (n - k) True = Some (h', st', r)" by (auto split: option.splits)
      with ih(1) [of "(h2, st2)" h2 st2] True show ?thesis by simp
    next
      case False
      with step ih(2) show ?thesis by simp
    qed
  qed
qed

lemma ack_loop_unreleased: "ack_loop h st n False = Some (h', st', False) \<Longrightarrow> st' = st"
  by (subst (asm) ack_loop.simps)
    (auto simp: Let_def dest: ack_loop_released split: if_splits option.splits)

section \<open>Properties\<close>

definition wit_stream :: h3_stream where
  "wit_stream = zero_stream\<lparr>response_buffer_limit := 4, response_cond := True\<rparr>"

definition wit_session :: h3_session where
  "wit_session = (zero_session (h3_create_server_config))\<lparr>ngh3 := True\<rparr>"

lemma wit_blank: "resp_blank wit_stream"
  by (simp add: wit_stream_def resp_blank_def zero_stream_def)

lemma wit_resp_ok: "resp_ok ([], wit_stream, wit_session)"
  using resp_init_rep [OF wit_blank, of wit_session] by (auto simp: resp_ok_def resp_sys_rep_def resp_init_def)

text \<open>
  C1: However workers, reader, acknowledgements, cancellation and session failure are
  interleaved, what nghttp3 was handed is a prefix of what the workers appended, the byte
  counter is exactly what is queued and not acknowledged, and it never exceeds the stream's
  buffer limit.
\<close>

theorem response_queue_fifo:
  assumes "resp_step\<^sup>*\<^sup>* (resp_init se st) s" and "resp_blank st"
  shows "take (length (handed s)) (appended s) = handed s \<and>
    unat (response_buffered (rs_stream s)) = length (appended s) - acked s \<and>
    response_buffered (rs_stream s) \<le> response_buffer_limit (rs_stream s)"
proof -
  from resp_reachable_rep [OF assms] obtain us vs where inv: "resp_sys_rep s us vs" by blast
  then have a: "appended s = handed s @ resp_bytes (rs_heap s) vs" "acked s \<le> length (handed s)"
    "length (resp_bytes (rs_heap s) us) = length (handed s) - acked s" by (simp_all add: resp_sys_rep_def)
  have "unat (response_buffered (rs_stream s)) = length (resp_bytes (rs_heap s) us) + length (resp_bytes (rs_heap s) vs)"
    using inv by (simp add: resp_sys_rep_def resp_rep_def)
  with a inv show ?thesis by (simp add: resp_sys_rep_def resp_rep_def)
qed

theorem response_queue_fifo_witness:
  "resp_step\<^sup>*\<^sup>* (resp_init wit_session wit_stream)
     ((resp_init wit_session wit_stream)\<lparr>rs_stream := fst (h3_stream_response_cancel_locked wit_stream)\<rparr>) \<and>
   resp_blank wit_stream \<and>
   unat (response_buffered (fst (h3_stream_response_cancel_locked wit_stream))) = 0"
proof -
  let ?s = "(resp_init wit_session wit_stream)\<lparr>rs_stream := fst (h3_stream_response_cancel_locked wit_stream)\<rparr>"
  have r: "resp_step\<^sup>*\<^sup>* (resp_init wit_session wit_stream) ?s"
    using cancel [of "resp_init wit_session wit_stream"] by (simp add: resp_init_def r_into_rtranclp)
  show ?thesis using r wit_blank response_queue_fifo [OF r wit_blank] by (simp add: resp_init_def)
qed

text \<open>
  C2: In every such state each operation of the queue runs without following a freed or null
  pointer, whatever its arguments, provided nghttp3 acknowledges no more than it was handed.
\<close>

theorem response_ops_defined:
  assumes "resp_step\<^sup>*\<^sup>* (resp_init se st) s" and "resp_blank st"
    and "unat len = length data" and "off < len" and "acked s + unat n \<le> length (handed s)"
  shows "append_iteration m (rs_session s) data len off (rs_heap s) (rs_stream s) \<noteq> None \<and>
    h3_session_read_data (rs_heap s) (Some (rs_stream s)) k \<noteq> None \<and>
    h3_stream_response_ack_locked (rs_heap s) (rs_stream s) n \<noteq> None"
proof -
  from resp_reachable_rep [OF assms(1,2)] obtain us vs where inv: "resp_sys_rep s us vs" by blast
  then have rep: "resp_rep (rs_heap s) (rs_stream s) us vs" by (simp add: resp_sys_rep_def)
  have "append_iteration m (rs_session s) data len off (rs_heap s) (rs_stream s) \<noteq> None"
    by (cases rule: append_iteration_rep [OF rep assms(3,4), of m "rs_session s"]) simp_all
  moreover have "unat n \<le> length (resp_bytes (rs_heap s) us)"
    using inv assms(5) by (simp add: resp_sys_rep_def)
  then have "h3_stream_response_ack_locked (rs_heap s) (rs_stream s) n \<noteq> None"
    using ack_locked_rep [OF rep, of n] by auto
  moreover have "h3_session_read_data (rs_heap s) (Some (rs_stream s)) k \<noteq> None"
    using read_data_rep [OF rep, of k] by auto
  ultimately show ?thesis by blast
qed

theorem response_ops_defined_witness:
  "resp_step\<^sup>*\<^sup>* (resp_init wit_session wit_stream) (resp_init wit_session wit_stream) \<and> resp_blank wit_stream \<and>
   unat (1 :: size_t) = length [7 :: byte] \<and>
   append_iteration True wit_session [7] 1 0 [] wit_stream \<noteq> None"
  using response_ops_defined [of wit_session wit_stream "resp_init wit_session wit_stream" 1 "[7]" 0 0 True 1] wit_blank
  by (simp add: resp_init_def)

text \<open>
  C6: Cleaning up a stream in any such state frees every response chunk it ever allocated
  and not yet freed: nothing is freed twice and no chunk is left behind.
\<close>

theorem response_cleanup_frees_all:
  assumes "resp_step\<^sup>*\<^sup>* (resp_init se st) s" and "resp_blank st"
  shows "\<exists>h' st'. h3_stream_response_cleanup_locked (rs_heap s) (rs_stream s) = Some (h', st') \<and>
    (\<forall>a. deref h' a = None) \<and> resp_blank st'"
proof -
  from resp_reachable_rep [OF assms] obtain us vs where inv: "resp_sys_rep s us vs" by blast
  then have "resp_rep (rs_heap s) (rs_stream s) us vs" by (simp add: resp_sys_rep_def)
  from cleanup_rep [OF this] inv show ?thesis
    by (auto simp: resp_sys_rep_def resp_blank_def h3_stream_response_cleanup_locked_def)
qed

theorem response_cleanup_frees_all_witness:
  "resp_blank wit_stream \<and> (\<exists>h' st'. h3_stream_response_cleanup_locked [] wit_stream = Some (h', st') \<and>
    (\<forall>a. deref h' a = None) \<and> resp_blank st')"
  using response_cleanup_frees_all [of wit_session wit_stream "resp_init wit_session wit_stream"] wit_blank
  by (simp add: resp_init_def)



text \<open>
  C3: A worker's append never follows a dangling pointer, whatever the other threads do to
  the queue between its rounds as long as they keep it well formed. What it queued is a
  prefix of its data, in order, and when it reports success it queued all of it.
\<close>

theorem append_queues_data_in_order:
  assumes "resp_ok s" and "env_ok env" and "unat len = length data"
  shows "h3_stream_response_append env wait_rv mal fuel (Some data) len (Some s) \<noteq> Undefined \<and>
    (\<forall>rv s' e. h3_stream_response_append env wait_rv mal fuel (Some data) len (Some s) = Done (rv, s', e) \<longrightarrow>
       (\<exists>rest. enqueued e @ rest = data \<and> (rv = APR_SUCCESS \<longrightarrow> rest = [])))"
  using append_loop_result [OF assms, of wait_rv mal fuel 0 0 "[]"]
  by (auto simp: h3_stream_response_append_def split: c_run.splits)

theorem append_queues_data_in_order_witness:
  "resp_ok ([], wit_stream, wit_session) \<and> env_ok (\<lambda>_ s. s) \<and> unat (2 :: size_t) = length [7 :: byte, 8] \<and>
   h3_stream_response_append (\<lambda>_ s. s) (\<lambda>_. APR_SUCCESS) (\<lambda>_. True) 5 (Some [7, 8]) 2
     (Some ([], wit_stream, wit_session)) \<noteq> Undefined"
  using append_queues_data_in_order [of "([], wit_stream, wit_session)" "\<lambda>_ s. s" 2 "[7, 8]"] wit_resp_ok
  by (simp add: env_ok_def)

text \<open>
  C4: The append returns. If from round \<open>w\<close> on the event thread leaves room, or has
  cancelled or failed the stream, whenever the worker looks, then the number of rounds is
  at most \<open>w\<close> plus the number of bytes, plus the last test.
\<close>

theorem append_terminates:
  assumes "resp_ok s" and "env_ok env" and "makes_room w env" and "unat len = length data"
    and "w + length data < fuel"
  shows "\<exists>rv s' e. h3_stream_response_append env wait_rv mal fuel (Some data) len (Some s) = Done (rv, s', e)"
  using append_loop_returns [OF assms(1-4), of 0 0 fuel wait_rv mal "[]"] assms(5)
  by (auto simp: h3_stream_response_append_def)

text \<open>An event thread that cancels the stream before the worker looks: the worker stops at once.\<close>

definition wit_env :: "nat \<Rightarrow> resp_state \<Rightarrow> resp_state" where
  "wit_env k s = (case s of (h, st, se) \<Rightarrow> (h, fst (h3_stream_response_cancel_locked st), se))"

theorem append_terminates_witness:
  "resp_ok ([], wit_stream, wit_session) \<and> env_ok wit_env \<and> makes_room 0 wit_env \<and>
   (\<exists>rv s' e. h3_stream_response_append wit_env (\<lambda>_. APR_TIMEUP) (\<lambda>_. True) 3 (Some [7, 8]) 2
     (Some ([], wit_stream, wit_session)) = Done (rv, s', e))"
proof -
  have e: "env_ok wit_env" unfolding env_ok_def wit_env_def resp_ok_def by (auto intro: resp_rep_cancel [THEN iffD2])
  have m: "makes_room 0 wit_env"
    by (auto simp: makes_room_def wit_env_def response_must_wait_def h3_stream_response_cancel_locked_def)
  show ?thesis
    using append_terminates [OF wit_resp_ok e m, of 2 "[7, 8]" 3 "\<lambda>_. APR_TIMEUP" "\<lambda>_. True"] wit_resp_ok e m by auto
qed

text \<open>
  C7: No wakeup is lost. When an acknowledgement or a cancellation makes a waiting worker's
  condition false, the same locked step broadcasts the stream's condition variable.
\<close>

theorem release_broadcasts:
  assumes "response_must_wait se st" and "response_cond st"
  shows "(h3_stream_response_ack_locked h st n = Some (h', st', e) \<longrightarrow> \<not> response_must_wait se st' \<longrightarrow> Cond_broadcast \<in> set e) \<and>
    (h3_stream_response_cancel_locked st = (st'', e'') \<longrightarrow> Cond_broadcast \<in> set e'')"
proof (intro conjI impI)
  assume a: "h3_stream_response_ack_locked h st n = Some (h', st', e)" and w: "\<not> response_must_wait se st'"
  from a obtain r where r: "ack_loop h st n False = Some (h', st', r)" "e = (if r then [Cond_broadcast] else [])"
    by (auto simp: h3_stream_response_ack_locked_def)
  then have "r \<or> st' = st" using ack_loop_unreleased [of h st n h' st'] by (cases r) auto
  with r(2) w assms show "Cond_broadcast \<in> set e" by auto
next
  assume "h3_stream_response_cancel_locked st = (st'', e'')"
  then show "Cond_broadcast \<in> set e''" using assms by (auto simp: h3_stream_response_cancel_locked_def)
qed

theorem release_broadcasts_witness:
  "response_must_wait wit_session (wit_stream\<lparr>response_buffered := 4\<rparr>) \<and>
   Cond_broadcast \<in> set (snd (h3_stream_response_cancel_locked (wit_stream\<lparr>response_buffered := 4\<rparr>)))"
proof -
  have w: "response_must_wait wit_session (wit_stream\<lparr>response_buffered := 4\<rparr>)"
    by (simp add: response_must_wait_def wit_stream_def wit_session_def zero_stream_def zero_session_def)
  have c: "response_cond (wit_stream\<lparr>response_buffered := 4\<rparr>)" by (simp add: wit_stream_def)
  show ?thesis using w release_broadcasts [OF w c] by (metis prod.collapse)
qed

end
