(* ===== verification/Quic_Stream.thy ===== *)
theory Quic_Stream
  imports H3_Types
begin

text \<open>
  The stream and connection wrappers of \<^verbatim>\<open>src/quic/h3q_stream.c\<close> and \<^verbatim>\<open>src/quic/h3q_conn.c\<close>.
  OpenSSL is a parameter: a record of the functions the wrappers call, over a state \<open>'o\<close> of
  OpenSSL's own. What is relied on of OpenSSL is stated as named predicates on that record.
\<close>

section \<open>The part of OpenSSL in use\<close>

datatype ssl_error = SSL_ERROR_WANT_READ | SSL_ERROR_WANT_WRITE | SSL_ERROR_ZERO_RETURN | SSL_ERROR_OTHER nat

datatype stream_state = SSL_STREAM_STATE_NONE | SSL_STREAM_STATE_OK | SSL_STREAM_STATE_WRONG_DIR
  | SSL_STREAM_STATE_FINISHED | SSL_STREAM_STATE_RESET_LOCAL | SSL_STREAM_STATE_RESET_REMOTE
  | SSL_STREAM_STATE_CONN_CLOSED

record 'o openssl =
  SSL_write_ex :: "'o \<Rightarrow> qstream \<Rightarrow> byte list \<Rightarrow> 'o \<times> int \<times> size_t"
  SSL_get_error :: "'o \<Rightarrow> qstream \<Rightarrow> int \<Rightarrow> ssl_error"
  SSL_stream_conclude :: "'o \<Rightarrow> qstream \<Rightarrow> 'o"
  SSL_write_buf_avail :: "'o \<Rightarrow> qstream \<Rightarrow> int \<times> uint64_t"
  SSL_read_ex :: "'o \<Rightarrow> qstream \<Rightarrow> size_t \<Rightarrow> 'o \<times> int \<times> byte list"
  SSL_get_stream_read_state :: "'o \<Rightarrow> qstream \<Rightarrow> stream_state"
  SSL_get_stream_write_state :: "'o \<Rightarrow> qstream \<Rightarrow> stream_state"
  SSL_stream_reset :: "'o \<Rightarrow> qstream \<Rightarrow> uint64_t \<Rightarrow> 'o"
  SSL_free_stream :: "'o \<Rightarrow> qstream \<Rightarrow> 'o"
  SSL_get_stream_id :: "'o \<Rightarrow> qstream \<Rightarrow> int"
  SSL_set_blocking_mode :: "'o \<Rightarrow> qconn \<Rightarrow> 'o \<times> bool"
  SSL_set_default_stream_mode_none :: "'o \<Rightarrow> qconn \<Rightarrow> 'o"
  SSL_set_incoming_stream_policy_accept :: "'o \<Rightarrow> qconn \<Rightarrow> 'o"
  SSL_set_idle_timeout :: "'o \<Rightarrow> qconn \<Rightarrow> uint64_t \<Rightarrow> 'o"
  SSL_new_stream :: "'o \<Rightarrow> qconn \<Rightarrow> 'o \<times> qstream option"
  SSL_accept_stream :: "'o \<Rightarrow> qconn \<Rightarrow> 'o \<times> qstream option"
  SSL_is_init_finished :: "'o \<Rightarrow> qconn \<Rightarrow> bool"
  SSL_get_shutdown :: "'o \<Rightarrow> qconn \<Rightarrow> int"
  SSL_shutdown_ex :: "'o \<Rightarrow> qconn \<Rightarrow> bool \<Rightarrow> uint64_t \<Rightarrow> string option \<Rightarrow> 'o \<times> int"
  SSL_shutdown :: "'o \<Rightarrow> qconn \<Rightarrow> 'o \<times> int"
  SSL_get_conn_error :: "'o \<Rightarrow> qconn \<Rightarrow> int \<Rightarrow> ssl_error"
  SSL_free_conn :: "'o \<Rightarrow> qconn \<Rightarrow> 'o"

section \<open>Streams\<close>

record h3q_write_result =
  accepted :: size_t
  blocked :: bool
  broken :: bool

text \<open>The write loop over the vectors; a vector is the bytes it points at.\<close>

fun write_vecs :: "'o openssl \<Rightarrow> 'o \<Rightarrow> qstream \<Rightarrow> byte list list \<Rightarrow> h3q_write_result \<Rightarrow> 'o \<times> h3q_write_result" where
  "write_vecs ssl s st [] res = (s, res)"
| "write_vecs ssl s st (v # vs) res =
    (case SSL_write_ex ssl s st v of (s', wrv, w) \<Rightarrow>
       if wrv \<le> 0
       then (s', if SSL_get_error ssl s' st wrv = SSL_ERROR_WANT_WRITE
                 then res\<lparr>blocked := True\<rparr> else res\<lparr>broken := True\<rparr>)
       else (let res' = res\<lparr>accepted := accepted res + w\<rparr> in
         if w < of_nat (length v) then (s', res'\<lparr>blocked := True\<rparr>)
         else write_vecs ssl s' st vs res'))"

definition vec_total :: "byte list list \<Rightarrow> size_t" where
  "vec_total vs = sum_list (map (\<lambda>v. of_nat (length v)) vs)"

definition h3q_stream_write ::
  "'o openssl \<Rightarrow> 'o \<Rightarrow> qstream \<Rightarrow> byte list list \<Rightarrow> bool \<Rightarrow> 'o \<times> h3q_write_result" where
  "h3q_stream_write ssl s st vs fin =
    (case write_vecs ssl s st vs \<lparr>accepted = 0, blocked = False, broken = False\<rparr> of (s', res) \<Rightarrow>
       (if fin \<and> \<not> blocked res \<and> \<not> broken res \<and> accepted res = vec_total vs
        then SSL_stream_conclude ssl s' st else s', res))"

definition h3q_stream_is_write_blocked :: "'o openssl \<Rightarrow> 'o \<Rightarrow> qstream option \<Rightarrow> bool" where
  "h3q_stream_is_write_blocked ssl s st =
    (case st of None \<Rightarrow> False
     | Some q \<Rightarrow> (case SSL_write_buf_avail ssl s q of (rv, avail) \<Rightarrow> rv = 1 \<and> avail = 0))"

text \<open>The result: whether bytes were read, the bytes, and whether the read side ended.\<close>

definition h3q_stream_read :: "'o openssl \<Rightarrow> 'o \<Rightarrow> qstream \<Rightarrow> size_t \<Rightarrow> 'o \<times> bool \<times> byte list \<times> bool" where
  "h3q_stream_read ssl s st read_size =
    (case SSL_read_ex ssl s st read_size of (s', rv, bs) \<Rightarrow>
       if rv = 1 \<and> bs \<noteq> [] then (s', True, bs, False)
       else (s', False, bs, rv = 1 \<or> SSL_get_error ssl s' st rv = SSL_ERROR_ZERO_RETURN))"

definition h3q_stream_is_read_finished :: "'o openssl \<Rightarrow> 'o \<Rightarrow> qstream \<Rightarrow> bool \<times> bool" where
  "h3q_stream_is_read_finished ssl s st =
    (let rstate = SSL_get_stream_read_state ssl s st;
         read_finished = (rstate = SSL_STREAM_STATE_FINISHED \<or> rstate = SSL_STREAM_STATE_RESET_REMOTE \<or>
                          rstate = SSL_STREAM_STATE_CONN_CLOSED);
         wstate = (if rstate \<noteq> SSL_STREAM_STATE_CONN_CLOSED \<and> rstate \<noteq> SSL_STREAM_STATE_RESET_REMOTE
                   then SSL_get_stream_write_state ssl s st else SSL_STREAM_STATE_FINISHED)
     in (read_finished, wstate = SSL_STREAM_STATE_FINISHED \<or> wstate = SSL_STREAM_STATE_RESET_LOCAL))"

definition h3q_stream_reset :: "'o openssl \<Rightarrow> 'o \<Rightarrow> qstream option \<Rightarrow> uint64_t \<Rightarrow> 'o" where
  "h3q_stream_reset ssl s st err = (case st of None \<Rightarrow> s | Some q \<Rightarrow> SSL_stream_reset ssl s q err)"

definition h3q_stream_free :: "'o openssl \<Rightarrow> 'o \<Rightarrow> qstream option \<Rightarrow> 'o" where
  "h3q_stream_free ssl s st = (case st of None \<Rightarrow> s | Some q \<Rightarrow> SSL_free_stream ssl s q)"

definition h3q_stream_id :: "'o openssl \<Rightarrow> 'o \<Rightarrow> qstream option \<Rightarrow> int" where
  "h3q_stream_id ssl s st = (case st of None \<Rightarrow> -1 | Some q \<Rightarrow> SSL_get_stream_id ssl s q)"

section \<open>Connections\<close>

definition h3q_conn_prepare :: "'o openssl \<Rightarrow> 'o \<Rightarrow> qconn option \<Rightarrow> uint32_t \<Rightarrow> 'o \<times> bool" where
  "h3q_conn_prepare ssl s conn idle_timeout_secs =
    (case conn of None \<Rightarrow> (s, False)
     | Some c \<Rightarrow>
       (case SSL_set_blocking_mode ssl s c of (s1, ok) \<Rightarrow>
          if \<not> ok then (s1, False)
          else (let s2 = SSL_set_default_stream_mode_none ssl s1 c;
                    s3 = SSL_set_incoming_stream_policy_accept ssl s2 c
                in (SSL_set_idle_timeout ssl s3 c (ucast idle_timeout_secs * 1000), True))))"

definition h3q_conn_open_uni_stream :: "'o openssl \<Rightarrow> 'o \<Rightarrow> qconn \<Rightarrow> 'o \<times> (qstream \<times> int) option" where
  "h3q_conn_open_uni_stream ssl s conn =
    (case SSL_new_stream ssl s conn of
       (s', None) \<Rightarrow> (s', None)
     | (s', Some q) \<Rightarrow> (s', Some (q, SSL_get_stream_id ssl s' q)))"

definition h3q_conn_accept_stream :: "'o openssl \<Rightarrow> 'o \<Rightarrow> qconn option \<Rightarrow> 'o \<times> qstream option" where
  "h3q_conn_accept_stream ssl s conn = (case conn of None \<Rightarrow> (s, None) | Some c \<Rightarrow> SSL_accept_stream ssl s c)"

definition h3q_conn_is_handshake_done :: "'o openssl \<Rightarrow> 'o \<Rightarrow> qconn option \<Rightarrow> bool" where
  "h3q_conn_is_handshake_done ssl s conn = (case conn of None \<Rightarrow> False | Some c \<Rightarrow> SSL_is_init_finished ssl s c)"

definition h3q_conn_is_closed :: "'o openssl \<Rightarrow> 'o \<Rightarrow> qconn option \<Rightarrow> bool" where
  "h3q_conn_is_closed ssl s conn = (case conn of None \<Rightarrow> True | Some c \<Rightarrow> SSL_get_shutdown ssl s c \<noteq> 0)"

definition h3q_conn_shutdown ::
  "'o openssl \<Rightarrow> 'o \<Rightarrow> qconn option \<Rightarrow> bool \<Rightarrow> uint64_t \<Rightarrow> string option \<Rightarrow> 'o \<times> bool" where
  "h3q_conn_shutdown ssl s conn is_rapid app_error reason =
    (case conn of None \<Rightarrow> (s, True)
     | Some c \<Rightarrow>
       (let (s', ret) =
          (if reason \<noteq> None then SSL_shutdown_ex ssl s c is_rapid app_error reason
           else if is_rapid then SSL_shutdown_ex ssl s c is_rapid 0 None
           else SSL_shutdown ssl s c)
        in if ret = 1 then (s', True)
           else if ret < 0 \<and> SSL_get_conn_error ssl s' c ret \<noteq> SSL_ERROR_WANT_READ \<and>
                   SSL_get_conn_error ssl s' c ret \<noteq> SSL_ERROR_WANT_WRITE then (s', True)
           else (s', False)))"

definition h3q_conn_free :: "'o openssl \<Rightarrow> 'o \<Rightarrow> qconn option \<Rightarrow> 'o" where
  "h3q_conn_free ssl s conn = (case conn of None \<Rightarrow> s | Some c \<Rightarrow> SSL_free_conn ssl s c)"

section \<open>What a stream write achieves\<close>

text \<open>
  The documented behaviour of \<^verbatim>\<open>SSL_write_ex\<close>: on success it reports at most what it was
  given, and \<open>sent\<close>, the bytes OpenSSL has taken for a stream, grows by exactly that prefix;
  on failure nothing is taken.
\<close>

definition ssl_write_law :: "'o openssl \<Rightarrow> ('o \<Rightarrow> qstream \<Rightarrow> byte list) \<Rightarrow> bool" where
  "ssl_write_law ssl sent \<longleftrightarrow> (\<forall>s st bs s' rv w. SSL_write_ex ssl s st bs = (s', rv, w) \<longrightarrow>
     (rv \<le> 0 \<longrightarrow> sent s' st = sent s st) \<and>
     (rv > 0 \<longrightarrow> unat w \<le> length bs \<and> sent s' st = sent s st @ take (unat w) bs))"

lemma ssl_write_lawD:
  assumes "ssl_write_law ssl sent" and "SSL_write_ex ssl s st bs = (s', rv, w)"
  shows "rv \<le> 0 \<Longrightarrow> sent s' st = sent s st"
    and "rv > 0 \<Longrightarrow> unat w \<le> length bs"
    and "rv > 0 \<Longrightarrow> sent s' st = sent s st @ take (unat w) bs"
  using assms unfolding ssl_write_law_def by blast+

lemma write_vecs_sent:
  assumes "ssl_write_law ssl sent"
  shows "write_vecs ssl s st vs res = (s', res') \<Longrightarrow>
    unat (accepted res) + length (concat vs) < 2 ^ 64 \<Longrightarrow> \<not> blocked res \<Longrightarrow> \<not> broken res \<Longrightarrow>
    \<exists>n. n \<le> length (concat vs) \<and> unat (accepted res') = unat (accepted res) + n \<and>
      sent s' st = sent s st @ take n (concat vs) \<and> \<not> (blocked res' \<and> broken res') \<and>
      (\<not> blocked res' \<and> \<not> broken res' \<longrightarrow> n = length (concat vs))"
proof (induction vs arbitrary: s res)
  case Nil
  then show ?case by simp
next
  case (Cons v vs)
  obtain s1 rv w where w: "SSL_write_ex ssl s st v = (s1, rv, w)" by (metis prod_cases3)
  note law = ssl_write_lawD [OF assms w]
  show ?case
  proof (cases "rv \<le> 0")
    case True
    then show ?thesis using Cons.prems w law(1) by (auto intro!: exI [of _ 0] split: if_splits)
  next
    case False
    then have le: "unat w \<le> length v" and se: "sent s1 st = sent s st @ take (unat w) v" using law by auto
    let ?res = "res\<lparr>accepted := accepted res + w\<rparr>"
    have acc: "unat (accepted res + w) = unat (accepted res) + unat w"
      using le Cons.prems(2) by (intro unat_add_64) simp
    have lv: "length v < 2 ^ 64" using Cons.prems(2) by simp
    show ?thesis
    proof (cases "w < of_nat (length v)")
      case True
      then have "s' = s1" "res' = ?res\<lparr>blocked := True\<rparr>" using Cons.prems(1) w False by (auto simp: Let_def)
      then show ?thesis using acc le se Cons.prems(4) by (intro exI [of _ "unat w"]) simp
    next
      case nl: False
      then have wl: "unat w = length v" using le lv by (simp add: word_less_nat_alt unat_of_nat_64)
      have "write_vecs ssl s1 st vs ?res = (s', res')" using Cons.prems(1) w False nl by (simp add: Let_def)
      from Cons.IH [OF this] Cons.prems acc wl obtain n where
        "n \<le> length (concat vs)" "unat (accepted res') = unat (accepted ?res) + n"
        "sent s' st = sent s1 st @ take n (concat vs)" "\<not> (blocked res' \<and> broken res')"
        "\<not> blocked res' \<and> \<not> broken res' \<longrightarrow> n = length (concat vs)" by auto
      then show ?thesis using wl acc se by (intro exI [of _ "length v + n"]) simp
    qed
  qed
qed

lemma vec_total_length: "vec_total vs = of_nat (length (concat vs))"
  by (induction vs) (simp_all add: vec_total_def)


text \<open>An OpenSSL whose send buffer takes two bytes at a time.\<close>

definition wit_ssl :: "(byte list) openssl" where
  "wit_ssl = \<lparr>SSL_write_ex = (\<lambda>s q bs. (s @ take 2 bs, 1, of_nat (min 2 (length bs)))),
     SSL_get_error = (\<lambda>s q rv. SSL_ERROR_WANT_WRITE), SSL_stream_conclude = (\<lambda>s q. s),
     SSL_write_buf_avail = (\<lambda>s q. (1, 2)), SSL_read_ex = (\<lambda>s q n. (s, 0, [])),
     SSL_get_stream_read_state = (\<lambda>s q. SSL_STREAM_STATE_OK),
     SSL_get_stream_write_state = (\<lambda>s q. SSL_STREAM_STATE_OK),
     SSL_stream_reset = (\<lambda>s q e. s), SSL_free_stream = (\<lambda>s q. s), SSL_get_stream_id = (\<lambda>s q. int q),
     SSL_set_blocking_mode = (\<lambda>s c. (s, True)), SSL_set_default_stream_mode_none = (\<lambda>s c. s),
     SSL_set_incoming_stream_policy_accept = (\<lambda>s c. s), SSL_set_idle_timeout = (\<lambda>s c t. s),
     SSL_new_stream = (\<lambda>s c. (s, None)), SSL_accept_stream = (\<lambda>s c. (s, None)),
     SSL_is_init_finished = (\<lambda>s c. True), SSL_get_shutdown = (\<lambda>s c. 0),
     SSL_shutdown_ex = (\<lambda>s c r e m. (s, 1)), SSL_shutdown = (\<lambda>s c. (s, 1)),
     SSL_get_conn_error = (\<lambda>s c rv. SSL_ERROR_WANT_READ), SSL_free_conn = (\<lambda>s c. s)\<rparr>"

lemma wit_ssl_write_law: "ssl_write_law wit_ssl (\<lambda>s q. s)"
  by (auto simp: ssl_write_law_def wit_ssl_def unat_of_nat_64 min_def)


end
