(* ===== verification/H3_Callbacks.thy ===== *)
theory H3_Callbacks
  imports H3_Response Quic_Stream
begin

text \<open>
  The callbacks nghttp3 makes into the module (\<^verbatim>\<open>src/h3_callbacks.c\<close>). A session's world is
  the session with its streams, the response chunks, the per-stream user pointers nghttp3
  holds for the module, OpenSSL's state, the QUIC stream handles freed and the stream pools destroyed so far, and
  the bytes read and written that \<^verbatim>\<open>child_h3_io\<close> counts (\<open>None\<close> without a listener).
  Chunks of one stream are reached through that stream only, so every stream has a block
  heap of its own. A callback returns \<open>None\<close> where the C code would leave a buffer or follow
  a freed pointer.
\<close>

section \<open>The world\<close>

record 'o world =
  w_se :: h3_session
  w_heaps :: "sptr \<Rightarrow> chunk_heap"
  w_user :: "int \<rightharpoonup> sptr"
  w_ssl :: 'o
  w_freed :: "qstream list"
  w_reclaimed :: "sptr list"
  w_stats :: "(uint64_t \<times> uint64_t) option"

definition get_obj :: "'o world \<Rightarrow> sptr \<Rightarrow> h3_stream" where
  "get_obj w p = objs (w_se w) ! p"

definition put_obj :: "sptr \<Rightarrow> h3_stream \<Rightarrow> 'o world \<Rightarrow> 'o world" where
  "put_obj p st w = w\<lparr>w_se := (w_se w)\<lparr>objs := (objs (w_se w))[p := st]\<rparr>\<rparr>"

definition put_heap :: "sptr \<Rightarrow> chunk_heap \<Rightarrow> 'o world \<Rightarrow> 'o world" where
  "put_heap p h w = w\<lparr>w_heaps := (w_heaps w)(p := h)\<rparr>"

section \<open>Callbacks\<close>

datatype cb_code = Cb_ok | NGHTTP3_ERR_CALLBACK_FAILURE | NGHTTP3_ERR_MALFORMED_HTTP_HEADER

datatype qpack_token = TOKEN_METHOD | TOKEN_SCHEME | TOKEN_PATH | TOKEN_AUTHORITY | TOKEN_OTHER int

text \<open>\<^verbatim>\<open>apr_pstrndup\<close>: a copy that ends at the first zero byte.\<close>

definition pstrndup :: "string \<Rightarrow> string" where
  "pstrndup v = takeWhile (\<lambda>c. c \<noteq> CHR 0x00) v"

definition set_pseudo :: "h3_stream \<Rightarrow> qpack_token \<Rightarrow> string \<Rightarrow> cb_code \<times> h3_stream" where
  "set_pseudo st token v =
    (if length v = 0 \<or> 8192 \<le> length v then (NGHTTP3_ERR_MALFORMED_HTTP_HEADER, st)
     else (let copy = pstrndup v in
       case token of
         TOKEN_METHOD \<Rightarrow> (Cb_ok, st\<lparr>req_method := Some copy\<rparr>)
       | TOKEN_SCHEME \<Rightarrow> (Cb_ok, st\<lparr>req_scheme := Some copy\<rparr>)
       | TOKEN_PATH \<Rightarrow> (Cb_ok, st\<lparr>req_path := Some copy\<rparr>)
       | TOKEN_AUTHORITY \<Rightarrow> (Cb_ok, st\<lparr>req_authority := Some copy\<rparr>)
       | TOKEN_OTHER t \<Rightarrow> (NGHTTP3_ERR_MALFORMED_HTTP_HEADER, st)))"

definition IS_PSEUDO_TOKEN :: "qpack_token \<Rightarrow> bool" where
  "IS_PSEUDO_TOKEN t = (case t of TOKEN_OTHER _ \<Rightarrow> False | _ \<Rightarrow> True)"

definition on_begin_headers :: "int \<Rightarrow> 'o world \<Rightarrow> cb_code \<times> 'o world" where
  "on_begin_headers sid w =
    (let stream = (case w_user w sid of
                     Some p \<Rightarrow> Some p
                   | None \<Rightarrow> if pending_sid (w_se w) = sid then pending_h3s (w_se w) else None)
     in case stream of
          None \<Rightarrow> (NGHTTP3_ERR_CALLBACK_FAILURE, w)
        | Some p \<Rightarrow>
          (let st = get_obj w p;
               st' = (if is_bidi st \<and> req_headers st = None then st\<lparr>req_headers := Some []\<rparr> else st)
           in (Cb_ok, (put_obj p st' w)\<lparr>w_user := (w_user w)(sid \<mapsto> p)\<rparr>)))"

definition on_recv_header :: "int \<Rightarrow> qpack_token \<Rightarrow> string \<Rightarrow> string \<Rightarrow> 'o world \<Rightarrow> cb_code \<times> 'o world" where
  "on_recv_header sid token name v w =
    (case w_user w sid of
       None \<Rightarrow> (Cb_ok, w)
     | Some p \<Rightarrow>
       (let st = get_obj w p in
        if IS_PSEUDO_TOKEN token
        then (let (rc, st') = set_pseudo st token v in (rc, put_obj p st' w))
        else (case req_headers st of
                None \<Rightarrow> (Cb_ok, w)
              | Some hs \<Rightarrow> (Cb_ok, put_obj p (st\<lparr>req_headers := Some (hs @ [(pstrndup name, pstrndup v)])\<rparr>) w))))"

definition on_end_headers :: "int \<Rightarrow> bool \<Rightarrow> 'o world \<Rightarrow> cb_code \<times> 'o world" where
  "on_end_headers sid fin w =
    (case w_user w sid of
       None \<Rightarrow> (Cb_ok, w)
     | Some p \<Rightarrow>
       (let st = get_obj w p in
        if is_bidi st
        then (Cb_ok, put_obj p (st\<lparr>headers_complete := True, body_complete := (fin \<or> body_complete st)\<rparr>) w)
        else (Cb_ok, w)))"

text \<open>
  The doubling loop. A non-zero capacity reaches zero after at most 64 doublings and then
  stays there, so fuel 65 decides whether the loop ends: \<open>None\<close> means it does not.
\<close>

fun grow_cap :: "nat \<Rightarrow> size_t \<Rightarrow> size_t \<Rightarrow> size_t option" where
  "grow_cap 0 needed cap = (if cap < needed then None else Some cap)"
| "grow_cap (Suc k) needed cap = (if cap < needed then grow_cap k needed (cap * 2) else Some cap)"

text \<open>\<^verbatim>\<open>memcpy\<close> into a buffer at an offset; \<open>None\<close> when it would leave the buffer.\<close>

definition memcpy_at :: "byte list \<Rightarrow> nat \<Rightarrow> byte list \<Rightarrow> byte list option" where
  "memcpy_at buf off data =
    (if off + length data \<le> length buf
     then Some (take off buf @ data @ drop (off + length data) buf) else None)"

text \<open>
  The body of a request. \<open>palloc\<close> stands for \<^verbatim>\<open>apr_palloc\<close>, whose memory has unknown
  contents.
\<close>

definition body_grow :: "(size_t \<Rightarrow> byte list) \<Rightarrow> size_t \<Rightarrow> size_t \<Rightarrow> h3_stream \<Rightarrow> h3_stream option" where
  "body_grow palloc limit needed st =
    (if needed > request_body_capacity st
     then (case grow_cap 65 needed (if request_body_capacity st \<noteq> 0 then request_body_capacity st else H3_BODY_BUF_INIT_CAP) of
             None \<Rightarrow> None
           | Some cap \<Rightarrow>
             (let new_cap = (if cap > limit then limit else cap) in
              case (if request_body_len st \<noteq> 0
                    then memcpy_at (palloc new_cap) 0 (take (unat (request_body_len st)) (request_body st))
                    else Some (palloc new_cap)) of
                None \<Rightarrow> None
              | Some grown \<Rightarrow> Some (st\<lparr>request_body := grown, request_body_capacity := new_cap\<rparr>)))
     else Some st)"

definition stream_recv_data :: "(size_t \<Rightarrow> byte list) \<Rightarrow> size_t \<Rightarrow> byte list option \<Rightarrow> h3_stream \<Rightarrow> h3_stream option" where
  "stream_recv_data palloc limit data st =
    (case data of None \<Rightarrow> Some st
     | Some d \<Rightarrow>
       (let datalen = of_nat (length d) in
        if \<not> is_bidi st \<or> datalen = 0 then Some st
        else if request_body_overflow st then Some st
        else if request_body_len st + datalen > limit then Some (st\<lparr>request_body_overflow := True\<rparr>)
        else (case body_grow palloc limit (request_body_len st + datalen) st of
                None \<Rightarrow> None
              | Some st1 \<Rightarrow>
                (case memcpy_at (request_body st1) (unat (request_body_len st1)) d of
                   None \<Rightarrow> None
                 | Some buf \<Rightarrow> Some (st1\<lparr>request_body := buf, request_body_len := request_body_len st1 + datalen\<rparr>)))))"

definition on_recv_data :: "(size_t \<Rightarrow> byte list) \<Rightarrow> int \<Rightarrow> byte list option \<Rightarrow> 'o world \<Rightarrow> (cb_code \<times> 'o world) option" where
  "on_recv_data palloc sid data w =
    (case w_user w sid of None \<Rightarrow> Some (Cb_ok, w)
     | Some p \<Rightarrow>
       map_option (\<lambda>st. (Cb_ok, put_obj p st w))
         (stream_recv_data palloc (h3_max_request_body_size (sess_conf (w_se w))) data (get_obj w p)))"

definition on_acked_stream_data :: "int \<Rightarrow> uint64_t \<Rightarrow> 'o world \<Rightarrow> (cb_code \<times> 'o world) option" where
  "on_acked_stream_data sid datalen w =
    (case w_user w sid of None \<Rightarrow> Some (Cb_ok, w)
     | Some p \<Rightarrow>
       map_option (\<lambda>(h, st, e). (Cb_ok, put_heap p h (put_obj p st w)))
         (h3_stream_response_ack_locked (w_heaps w p) (get_obj w p) datalen))"

definition h3_session_queue_free :: "qstream option \<Rightarrow> h3_session \<Rightarrow> h3_session" where
  "h3_session_queue_free st se =
    (case st of None \<Rightarrow> se | Some q \<Rightarrow> se\<lparr>pending_free := pending_free se @ [q]\<rparr>)"

definition queue_stream_handle :: "sptr \<Rightarrow> 'o world \<Rightarrow> 'o world" where
  "queue_stream_handle p w =
    (if qstream (get_obj w p) \<noteq> None
     then put_obj p ((get_obj w p)\<lparr>qstream := None\<rparr>) (w\<lparr>w_se := h3_session_queue_free (qstream (get_obj w p)) (w_se w)\<rparr>)
     else w)"

definition on_stop_sending :: "int \<Rightarrow> uint64_t \<Rightarrow> 'o world \<Rightarrow> cb_code \<times> 'o world" where
  "on_stop_sending sid code w =
    (case w_user w sid of None \<Rightarrow> (Cb_ok, w)
     | Some p \<Rightarrow>
       (let w1 = put_obj p (fst (h3_stream_response_cancel_locked (get_obj w p))) w;
            w2 = queue_stream_handle p w1
        in (Cb_ok, put_obj p ((get_obj w2 p)\<lparr>done_flag := True, body_complete := True, body_truncated := True\<rparr>) w2)))"

definition on_reset_stream :: "'o openssl \<Rightarrow> int \<Rightarrow> uint64_t \<Rightarrow> 'o world \<Rightarrow> cb_code \<times> 'o world" where
  "on_reset_stream ssl sid code w =
    (case w_user w sid of None \<Rightarrow> (Cb_ok, w)
     | Some p \<Rightarrow>
       (let w1 = put_obj p (fst (h3_stream_response_cancel_locked (get_obj w p))) w;
            w2 = w1\<lparr>w_ssl := h3q_stream_reset ssl (w_ssl w1) (qstream (get_obj w1 p)) code\<rparr>
        in (Cb_ok, put_obj p ((get_obj w2 p)\<lparr>done_flag := True\<rparr>) w2)))"

definition on_stream_close :: "int \<Rightarrow> uint64_t \<Rightarrow> 'o world \<Rightarrow> cb_code \<times> 'o world" where
  "on_stream_close sid code w =
    (case w_user w sid of None \<Rightarrow> (Cb_ok, w)
     | Some p \<Rightarrow>
       (let st = fst (h3_stream_response_cancel_locked (get_obj w p))
        in (Cb_ok, queue_stream_handle p (put_obj p (st\<lparr>done_flag := True\<rparr>) w))))"

definition on_read_data :: "int \<Rightarrow> nat \<Rightarrow> 'o world \<Rightarrow> (read_ret \<times> bool \<times> byte list list \<times> 'o world) option" where
  "on_read_data sid veccnt w =
    (case w_user w sid of
       None \<Rightarrow> map_option (\<lambda>(r, eof, vs, _). (r, eof, [], w)) (h3_session_read_data [] None veccnt)
     | Some p \<Rightarrow>
       map_option (\<lambda>(r, eof, vs, st). (r, eof, map (vec_bytes (w_heaps w p)) vs,
            case st of None \<Rightarrow> w | Some st' \<Rightarrow> put_obj p st' w))
         (h3_session_read_data (w_heaps w p) (Some (get_obj w p)) veccnt))"

section \<open>The callback table\<close>

datatype ng_call =
    Begin_headers int
  | Recv_header int qpack_token string string
  | End_headers int bool
  | Recv_data int "byte list option"
  | Acked_stream_data int uint64_t
  | Stop_sending int uint64_t
  | Reset_stream int uint64_t
  | Stream_close int uint64_t
  | Read_data int nat

datatype ng_ans = Ans_code cb_code | Ans_read read_ret bool "byte list list"

text \<open>One call; the world is lost (\<open>None\<close>) once the C code has left its buffers.\<close>

fun ng_handle :: "'o openssl \<Rightarrow> (size_t \<Rightarrow> byte list) \<Rightarrow> ng_call \<Rightarrow> 'o world \<Rightarrow> (ng_ans \<times> 'o world) option" where
  "ng_handle ssl palloc (Begin_headers sid) w = Some (apfst Ans_code (on_begin_headers sid w))"
| "ng_handle ssl palloc (Recv_header sid t n v) w = Some (apfst Ans_code (on_recv_header sid t n v w))"
| "ng_handle ssl palloc (End_headers sid fin) w = Some (apfst Ans_code (on_end_headers sid fin w))"
| "ng_handle ssl palloc (Recv_data sid d) w = map_option (apfst Ans_code) (on_recv_data palloc sid d w)"
| "ng_handle ssl palloc (Acked_stream_data sid n) w = map_option (apfst Ans_code) (on_acked_stream_data sid n w)"
| "ng_handle ssl palloc (Stop_sending sid c) w = Some (apfst Ans_code (on_stop_sending sid c w))"
| "ng_handle ssl palloc (Reset_stream sid c) w = Some (apfst Ans_code (on_reset_stream ssl sid c w))"
| "ng_handle ssl palloc (Stream_close sid c) w = Some (apfst Ans_code (on_stream_close sid c w))"
| "ng_handle ssl palloc (Read_data sid k) w =
     map_option (\<lambda>(r, eof, vs, w'). (Ans_read r eof vs, w')) (on_read_data sid k w)"

definition ng_step :: "'o openssl \<Rightarrow> (size_t \<Rightarrow> byte list) \<Rightarrow> ng_call \<Rightarrow> 'o world option \<Rightarrow> ng_ans \<times> 'o world option" where
  "ng_step ssl palloc q w =
    (case w of None \<Rightarrow> (Ans_code NGHTTP3_ERR_CALLBACK_FAILURE, None)
     | Some w1 \<Rightarrow> (case ng_handle ssl palloc q w1 of
         None \<Rightarrow> (Ans_code NGHTTP3_ERR_CALLBACK_FAILURE, None)
       | Some (a, w2) \<Rightarrow> (a, Some w2)))"

section \<open>Request bodies\<close>

definition palloc_law :: "(size_t \<Rightarrow> byte list) \<Rightarrow> bool" where
  "palloc_law palloc \<longleftrightarrow> (\<forall>n. length (palloc n) = unat n)"

definition body_wf :: "size_t \<Rightarrow> h3_stream \<Rightarrow> bool" where
  "body_wf limit st \<longleftrightarrow> length (request_body st) = unat (request_body_capacity st) \<and>
     request_body_len st \<le> request_body_capacity st \<and> request_body_capacity st \<le> limit"

definition body_bytes :: "h3_stream \<Rightarrow> byte list" where
  "body_bytes st = take (unat (request_body_len st)) (request_body st)"

lemma grow_cap_ends:
  "0 < unat cap \<Longrightarrow> unat needed \<le> unat cap * 2 ^ k \<Longrightarrow> unat needed \<le> 2 ^ 63 \<Longrightarrow>
   \<exists>c. grow_cap k needed cap = Some c \<and> needed \<le> c"
proof (induction k arbitrary: cap)
  case 0
  then show ?case by (simp add: word_le_nat_alt word_less_nat_alt)
next
  case (Suc k)
  show ?case
  proof (cases "cap < needed")
    case True
    then have "unat cap + unat cap < 2 ^ 64" using Suc.prems(3) by (simp add: word_less_nat_alt)
    then have "unat (cap * 2) = 2 * unat cap" using unat_add_64 [of cap cap] by (simp add: mult_2_right)
    with Suc.IH [of "cap * 2"] Suc.prems True show ?thesis by simp
  next
    case False
    then show ?thesis by simp
  qed
qed

lemma memcpy_at_Some: "off + length data \<le> length buf \<Longrightarrow>
    \<exists>b. memcpy_at buf off data = Some b \<and> length b = length buf \<and> take (off + length data) b = take off buf @ data"
  by (simp add: memcpy_at_def)

lemma body_grow_ok:
  assumes wf: "body_wf limit st" and law: "palloc_law palloc" and lim: "unat limit \<le> 2 ^ 63"
    and needed: "needed \<le> limit" "request_body_len st \<le> needed"
  shows "\<exists>st'. body_grow palloc limit needed st = Some st' \<and> body_wf limit st' \<and> needed \<le> request_body_capacity st' \<and>
    body_bytes st' = body_bytes st \<and>
    st' = st\<lparr>request_body := request_body st', request_body_capacity := request_body_capacity st'\<rparr>"
proof (cases "needed > request_body_capacity st")
  case False
  then show ?thesis using wf by (simp add: body_grow_def)
next
  case True
  let ?cap = "if request_body_capacity st \<noteq> 0 then request_body_capacity st else H3_BODY_BUF_INIT_CAP"
  have c0: "0 < unat ?cap" by (simp add: unat_gt_0 H3_BODY_BUF_INIT_CAP_def)
  have n63: "unat needed \<le> 2 ^ 63" using needed(1) lim by (simp add: word_le_nat_alt)
  have "unat needed \<le> 1 * 2 ^ 65" using n63 by simp
  also have "\<dots> \<le> unat ?cap * 2 ^ 65" using c0 by (intro mult_right_mono) simp_all
  finally obtain c where c: "grow_cap 65 needed ?cap = Some c" "needed \<le> c"
    using grow_cap_ends [OF c0 _ n63, of 65] by blast
  define nc where "nc = (if c > limit then limit else c)"
  have nc: "needed \<le> nc" "nc \<le> limit" using c(2) needed(1) by (auto simp: nc_def)
  have len: "unat (request_body_len st) \<le> length (palloc nc)" "length (palloc nc) = unat nc"
    using law nc(1) needed(2) by (auto simp: palloc_law_def word_le_nat_alt)
  have lb: "length (body_bytes st) = unat (request_body_len st)"
    using wf by (simp add: body_wf_def body_bytes_def word_le_nat_alt)
  have "\<exists>g. (if request_body_len st \<noteq> 0 then memcpy_at (palloc nc) 0 (body_bytes st) else Some (palloc nc)) = Some g \<and>
      length g = unat nc \<and> take (unat (request_body_len st)) g = body_bytes st"
    using len lb memcpy_at_Some [of 0 "body_bytes st" "palloc nc"] by auto
  then obtain g where g: "(if request_body_len st \<noteq> 0 then memcpy_at (palloc nc) 0 (body_bytes st) else Some (palloc nc)) = Some g"
    "length g = unat nc" "take (unat (request_body_len st)) g = body_bytes st" by blast
  have "body_grow palloc limit needed st = Some (st\<lparr>request_body := g, request_body_capacity := nc\<rparr>)"
    using True c(1) g(1)
    by (cases "request_body_len st = 0")
      (simp_all add: body_grow_def nc_def [symmetric] body_bytes_def Let_def del: grow_cap.simps)
  moreover have "request_body_len st \<le> nc" using needed(2) nc(1) by simp
  ultimately show ?thesis using g(2,3) nc by (simp add: body_wf_def body_bytes_def)
qed

lemma recv_data_ok:
  assumes wf: "body_wf limit st" and law: "palloc_law palloc" and lim: "unat limit \<le> 2 ^ 63"
    and d: "length d < 2 ^ 63"
  shows "\<exists>st'. stream_recv_data palloc limit (Some d) st = Some st' \<and> body_wf limit st' \<and>
    (if \<not> is_bidi st \<or> d = [] \<or> request_body_overflow st then st' = st
     else if unat (request_body_len st) + length d \<le> unat limit
       then body_bytes st' = body_bytes st @ d \<and> unat (request_body_len st') = unat (request_body_len st) + length d \<and>
         \<not> request_body_overflow st'
     else body_bytes st' = body_bytes st \<and> request_body_overflow st') \<and>
    st' = st\<lparr>request_body := request_body st', request_body_capacity := request_body_capacity st',
             request_body_len := request_body_len st', request_body_overflow := request_body_overflow st'\<rparr>"
proof -
  let ?n = "of_nat (length d) :: size_t"
  have un: "unat ?n = length d" using d by (simp add: unat_of_nat_64)
  have ln: "unat (request_body_len st) \<le> unat limit" using wf by (simp add: body_wf_def word_le_nat_alt)
  have sum: "unat (request_body_len st + ?n) = unat (request_body_len st) + length d"
    using un ln lim d by (subst unat_add_64) auto
  have n0: "?n = 0 \<longleftrightarrow> d = []" using un by (metis length_0_conv unat_0 unat_eq_zero)
  consider (skip) "\<not> is_bidi st \<or> d = [] \<or> request_body_overflow st"
    | (over) "is_bidi st" "d \<noteq> []" "\<not> request_body_overflow st" "\<not> unat (request_body_len st) + length d \<le> unat limit"
    | (fits) "is_bidi st" "d \<noteq> []" "\<not> request_body_overflow st" "unat (request_body_len st) + length d \<le> unat limit"
    by blast
  then show ?thesis
  proof cases
    case skip
    then show ?thesis using wf n0 by (auto simp: stream_recv_data_def Let_def)
  next
    case over
    then show ?thesis using wf n0 sum
      by (simp add: stream_recv_data_def Let_def word_less_nat_alt body_wf_def body_bytes_def)
  next
    case fits
    have le: "request_body_len st + ?n \<le> limit" "request_body_len st \<le> request_body_len st + ?n"
      using fits(4) sum by (simp_all add: word_le_nat_alt)
    from body_grow_ok [OF wf law lim le] obtain st1 where
      g: "body_grow palloc limit (request_body_len st + ?n) st = Some st1" "body_wf limit st1"
        "request_body_len st + ?n \<le> request_body_capacity st1" "body_bytes st1 = body_bytes st"
      and st1: "st1 = st\<lparr>request_body := request_body st1, request_body_capacity := request_body_capacity st1\<rparr>" by blast
    have l1: "request_body_len st1 = request_body_len st" "request_body_overflow st1 = request_body_overflow st"
      by (subst st1, simp)+
    have "unat (request_body_len st) + length d \<le> length (request_body st1)"
      using g(2,3) sum by (simp add: body_wf_def word_le_nat_alt)
    from memcpy_at_Some [OF this] obtain b where
      b: "memcpy_at (request_body st1) (unat (request_body_len st)) d = Some b" "length b = length (request_body st1)"
        "take (unat (request_body_len st) + length d) b = take (unat (request_body_len st)) (request_body st1) @ d" by blast
    let ?st = "st1\<lparr>request_body := b, request_body_len := request_body_len st1 + ?n\<rparr>"
    have r: "stream_recv_data palloc limit (Some d) st = Some ?st"
      using fits n0 sum g(1) b(1) l1 by (simp add: stream_recv_data_def Let_def word_less_nat_alt)
    have "body_bytes ?st = body_bytes st @ d"
      using b(3) sum l1 g(4) by (simp add: body_bytes_def)
    moreover have "body_wf limit ?st" using g(2,3) b(2) l1 by (simp add: body_wf_def)
    moreover have "?st = st\<lparr>request_body := request_body ?st, request_body_capacity := request_body_capacity ?st,
        request_body_len := request_body_len ?st, request_body_overflow := request_body_overflow ?st\<rparr>"
      by (subst st1) (simp add: l1)
    ultimately show ?thesis using r fits sum l1 by (intro exI [of _ ?st]) (simp only: if_False if_True, simp)
  qed
qed

section \<open>The invariant of a session's world\<close>

definition handles :: "h3_session \<Rightarrow> qstream list" where
  "handles se = List.map_filter qstream (objs se)"

definition blocked_set :: "h3_session \<Rightarrow> sptr set" where
  "blocked_set se = {p \<in> ran (streams se). write_blocked (objs se ! p)}"

definition stream_ok :: "size_t \<Rightarrow> chunk_heap \<Rightarrow> h3_stream \<Rightarrow> bool" where
  "stream_ok limit h st \<longleftrightarrow> body_wf limit st \<and> (\<exists>us vs. resp_rep h st us vs)"

definition world_inv :: "'o world \<Rightarrow> bool" where
  "world_inv w \<longleftrightarrow> (let se = w_se w; n = length (objs se) in
     conf_ready (sess_conf se) \<and>
     finite (dom (streams se)) \<and>
     (\<forall>sid p. streams se sid = Some p \<longrightarrow> p < n \<and> stream_id (objs se ! p) = sid) \<and>
     (\<forall>sid p. w_user w sid = Some p \<longrightarrow> p < n \<and> stream_id (objs se ! p) = sid) \<and>
     (\<forall>p. pending_h3s se = Some p \<longrightarrow> p < n \<and> stream_id (objs se ! p) = pending_sid se) \<and>
     distinct (handles se @ pending_free se @ w_freed w) \<and>
     (\<forall>p < n. stream_ok (h3_max_request_body_size (sess_conf se)) (w_heaps w p) (objs se ! p)) \<and>
     (\<forall>p \<ge> n. w_heaps w p = []) \<and>
     blocked_streams se = int (card (blocked_set se)))"

lemma world_invD:
  assumes "world_inv w"
  shows "conf_ready (sess_conf (w_se w))" and "finite (dom (streams (w_se w)))"
    and "streams (w_se w) sid = Some p \<Longrightarrow> p < length (objs (w_se w)) \<and> stream_id (objs (w_se w) ! p) = sid"
    and "w_user w sid = Some p \<Longrightarrow> p < length (objs (w_se w)) \<and> stream_id (objs (w_se w) ! p) = sid"
    and "pending_h3s (w_se w) = Some p \<Longrightarrow>
      p < length (objs (w_se w)) \<and> stream_id (objs (w_se w) ! p) = pending_sid (w_se w)"
    and "distinct (handles (w_se w) @ pending_free (w_se w) @ w_freed w)"
    and "p < length (objs (w_se w)) \<Longrightarrow>
      stream_ok (h3_max_request_body_size (sess_conf (w_se w))) (w_heaps w p) (objs (w_se w) ! p)"
    and "length (objs (w_se w)) \<le> p \<Longrightarrow> w_heaps w p = []"
    and "blocked_streams (w_se w) = int (card (blocked_set (w_se w)))"
  using assms unfolding world_inv_def Let_def by blast+

lemma world_invI:
  assumes "conf_ready (sess_conf (w_se w))" and "finite (dom (streams (w_se w)))"
    and "\<And>sid p. streams (w_se w) sid = Some p \<Longrightarrow> p < length (objs (w_se w)) \<and> stream_id (objs (w_se w) ! p) = sid"
    and "\<And>sid p. w_user w sid = Some p \<Longrightarrow> p < length (objs (w_se w)) \<and> stream_id (objs (w_se w) ! p) = sid"
    and "\<And>p. pending_h3s (w_se w) = Some p \<Longrightarrow>
      p < length (objs (w_se w)) \<and> stream_id (objs (w_se w) ! p) = pending_sid (w_se w)"
    and "distinct (handles (w_se w) @ pending_free (w_se w) @ w_freed w)"
    and "\<And>p. p < length (objs (w_se w)) \<Longrightarrow>
      stream_ok (h3_max_request_body_size (sess_conf (w_se w))) (w_heaps w p) (objs (w_se w) ! p)"
    and "\<And>p. length (objs (w_se w)) \<le> p \<Longrightarrow> w_heaps w p = []"
    and "blocked_streams (w_se w) = int (card (blocked_set (w_se w)))"
  shows "world_inv w"
  using assms unfolding world_inv_def Let_def by blast

text \<open>A change of one stream that keeps its identity, its handle and its invariant.\<close>

definition quiet_update :: "h3_stream \<Rightarrow> h3_stream \<Rightarrow> bool" where
  "quiet_update st st' \<longleftrightarrow> stream_id st' = stream_id st \<and> write_blocked st' = write_blocked st \<and>
     is_bidi st' = is_bidi st \<and> dispatched st' = dispatched st \<and> worker_done st' = worker_done st \<and>
     (headers_complete st \<longrightarrow> headers_complete st') \<and> (body_complete st \<longrightarrow> body_complete st')"

lemma quiet_update_refl [simp]: "quiet_update st st"
  by (simp add: quiet_update_def)

lemma quiet_update_trans: "quiet_update a b \<Longrightarrow> quiet_update b c \<Longrightarrow> quiet_update a c"
  by (simp add: quiet_update_def)

text \<open>What no callback touches.\<close>

text \<open>Every QUIC stream handle of the session: in use, waiting to be freed, or freed.\<close>

definition held :: "'o world \<Rightarrow> qstream set" where
  "held w = set (handles (w_se w) @ pending_free (w_se w) @ w_freed w)"

definition cb_frame :: "'o world \<Rightarrow> 'o world \<Rightarrow> bool" where
  "cb_frame w w' \<longleftrightarrow> (let se = w_se w; se' = w_se w' in
     length (objs se') = length (objs se) \<and> streams se' = streams se \<and> sess_conf se' = sess_conf se \<and>
     pending_sid se' = pending_sid se \<and> pending_h3s se' = pending_h3s se \<and> ngh3 se' = ngh3 se \<and>
     ngh3_dead se' = ngh3_dead se \<and> aborted se' = aborted se \<and> w_freed w' = w_freed w \<and> w_reclaimed w' = w_reclaimed w \<and>
     w_stats w' = w_stats w \<and> stream_drain_cursor se' = stream_drain_cursor se \<and> qconn se' = qconn se \<and>
     control_streams_created se' = control_streams_created se \<and> active_tasks se' = active_tasks se \<and>
     goaway_deadline se' = goaway_deadline se \<and> held w' = held w \<and>
     (\<forall>p < length (objs se). quiet_update (objs se ! p) (objs se' ! p)))"

lemma cb_frame_refl [simp]: "cb_frame w w"
  by (simp add: cb_frame_def Let_def)

lemma cb_frame_trans: "cb_frame a b \<Longrightarrow> cb_frame b c \<Longrightarrow> cb_frame a c"
  by (auto simp: cb_frame_def Let_def intro: quiet_update_trans)

lemma put_obj_simps [simp]:
  "objs (w_se (put_obj p st w)) = (objs (w_se w))[p := st]"
  "streams (w_se (put_obj p st w)) = streams (w_se w)"
  "sess_conf (w_se (put_obj p st w)) = sess_conf (w_se w)"
  "pending_free (w_se (put_obj p st w)) = pending_free (w_se w)"
  "pending_sid (w_se (put_obj p st w)) = pending_sid (w_se w)"
  "pending_h3s (w_se (put_obj p st w)) = pending_h3s (w_se w)"
  "blocked_streams (w_se (put_obj p st w)) = blocked_streams (w_se w)"
  "ngh3 (w_se (put_obj p st w)) = ngh3 (w_se w)"
  "ngh3_dead (w_se (put_obj p st w)) = ngh3_dead (w_se w)"
  "aborted (w_se (put_obj p st w)) = aborted (w_se w)"
  "stream_drain_cursor (w_se (put_obj p st w)) = stream_drain_cursor (w_se w)"
  "qconn (w_se (put_obj p st w)) = qconn (w_se w)"
  "control_streams_created (w_se (put_obj p st w)) = control_streams_created (w_se w)"
  "active_tasks (w_se (put_obj p st w)) = active_tasks (w_se w)"
  "goaway_deadline (w_se (put_obj p st w)) = goaway_deadline (w_se w)"
  "w_heaps (put_obj p st w) = w_heaps w" "w_user (put_obj p st w) = w_user w"
  "w_reclaimed (put_obj p st w) = w_reclaimed w" "w_freed (put_obj p st w) = w_freed w" "w_ssl (put_obj p st w) = w_ssl w" "w_stats (put_obj p st w) = w_stats w"
  by (simp_all add: put_obj_def)

lemma put_heap_simps [simp]:
  "w_se (put_heap p h w) = w_se w" "w_user (put_heap p h w) = w_user w"
  "w_reclaimed (put_heap p h w) = w_reclaimed w" "w_freed (put_heap p h w) = w_freed w" "w_stats (put_heap p h w) = w_stats w" "w_ssl (put_heap p h w) = w_ssl w"
  "w_heaps (put_heap p h w) = (w_heaps w)(p := h)"
  by (simp_all add: put_heap_def)

lemma map_filter_update_same:
  "p < length xs \<Longrightarrow> f y = f (xs ! p) \<Longrightarrow> List.map_filter f (xs[p := y]) = List.map_filter f xs"
  by (induction xs arbitrary: p) (auto simp: List.map_filter_simps nth_Cons split: nat.splits option.splits)

lemma world_inv_put:
  assumes inv: "world_inv w" and p: "p < length (objs (w_se w))"
    and q: "quiet_update (get_obj w p) st" "qstream st = qstream (get_obj w p)"
    and ok: "stream_ok (h3_max_request_body_size (sess_conf (w_se w))) h st"
  shows "world_inv (put_heap p h (put_obj p st w))"
proof -
  have b: "blocked_set (w_se (put_obj p st w)) = blocked_set (w_se w)"
    using inv p q(1) by (auto simp: blocked_set_def quiet_update_def get_obj_def nth_list_update)
  have h: "handles (w_se (put_obj p st w)) = handles (w_se w)"
    using p q(2) by (simp add: handles_def map_filter_update_same get_obj_def)
  show ?thesis
    using inv p q(1) ok b h
    by (auto simp: world_inv_def Let_def quiet_update_def get_obj_def nth_list_update)
qed

lemma held_put [simp]:
  "p < length (objs (w_se w)) \<Longrightarrow> qstream st = qstream (get_obj w p) \<Longrightarrow> held (put_obj p st w) = held w"
  "held (put_heap p h w) = held w" "held (w\<lparr>w_ssl := x\<rparr>) = held w" "held (w\<lparr>w_stats := y\<rparr>) = held w"
  "held (w\<lparr>w_user := u\<rparr>) = held w"
  by (simp_all add: held_def handles_def map_filter_update_same get_obj_def)

lemma cb_frame_put:
  assumes "quiet_update (get_obj w p) st" and "p < length (objs (w_se w))" and "qstream st = qstream (get_obj w p)"
  shows "cb_frame w (put_heap p h (put_obj p st w))"
proof -
  have "quiet_update (objs (w_se w) ! i) ((objs (w_se w))[p := st] ! i)" if "i < length (objs (w_se w))" for i
    using assms that by (cases "p = i") (simp_all add: get_obj_def)
  then show ?thesis using assms by (simp add: cb_frame_def Let_def)
qed

lemma put_heap_same: "put_heap p (w_heaps w p) (put_obj p st w) = put_obj p st w"
  by (simp add: put_heap_def put_obj_def)

lemma map_filter_update_None:
  "p < length xs \<Longrightarrow> f (xs ! p) = Some q \<Longrightarrow> f y = None \<Longrightarrow>
   mset (List.map_filter f xs) = add_mset q (mset (List.map_filter f (xs[p := y])))"
proof (induction xs arbitrary: p)
  case Nil
  then show ?case by simp
next
  case (Cons x xs)
  show ?case
  proof (cases p)
    case 0
    with Cons.prems show ?thesis by (simp add: List.map_filter_simps)
  next
    case (Suc k)
    with Cons.IH [of k] Cons.prems show ?thesis by (auto simp: List.map_filter_simps split: option.splits)
  qed
qed

text \<open>A callback keeps the invariant and the frame.\<close>

definition cb_keeps :: "'o world \<Rightarrow> 'o world \<Rightarrow> bool" where
  "cb_keeps w w' \<longleftrightarrow> world_inv w' \<and> cb_frame w w'"

lemma world_inv_ssl [simp]:
  "world_inv (w\<lparr>w_ssl := x\<rparr>) = world_inv w" "world_inv (w\<lparr>w_stats := y\<rparr>) = world_inv w"
  unfolding world_inv_def by simp_all

lemma cb_frame_ssl [simp]: "cb_frame w (w'\<lparr>w_ssl := x\<rparr>) = cb_frame w w'"
  unfolding cb_frame_def by simp

lemma cb_keeps_refl: "world_inv w \<Longrightarrow> cb_keeps w w"
  by (simp add: cb_keeps_def)

lemma cb_keeps_trans: "cb_keeps a b \<Longrightarrow> cb_keeps b c \<Longrightarrow> cb_keeps a c"
  by (auto simp: cb_keeps_def intro: cb_frame_trans)

lemma cb_keeps_put_heap:
  assumes "world_inv w" and "p < length (objs (w_se w))" and "quiet_update (get_obj w p) st"
    and "qstream st = qstream (get_obj w p)"
    and "stream_ok (h3_max_request_body_size (sess_conf (w_se w))) h st"
  shows "cb_keeps w (put_heap p h (put_obj p st w))"
  using world_inv_put [OF assms] cb_frame_put [OF assms(3,2,4)] by (simp add: cb_keeps_def)

lemma cb_keeps_put:
  assumes "world_inv w" and "p < length (objs (w_se w))" and "quiet_update (get_obj w p) st"
    and "qstream st = qstream (get_obj w p)"
    and "stream_ok (h3_max_request_body_size (sess_conf (w_se w))) (w_heaps w p) st"
  shows "cb_keeps w (put_obj p st w)"
  using cb_keeps_put_heap [OF assms] by (simp add: put_heap_same)

lemma world_inv_user: "world_inv w \<Longrightarrow> w_user w sid = Some p \<Longrightarrow> p < length (objs (w_se w))"
  by (auto simp: world_inv_def Let_def)

lemma world_inv_pending: "world_inv w \<Longrightarrow> pending_h3s (w_se w) = Some p \<Longrightarrow>
    p < length (objs (w_se w)) \<and> stream_id (get_obj w p) = pending_sid (w_se w)"
  by (auto simp: world_inv_def Let_def get_obj_def)

lemma world_inv_stream_ok:
  "world_inv w \<Longrightarrow> p < length (objs (w_se w)) \<Longrightarrow>
   stream_ok (h3_max_request_body_size (sess_conf (w_se w))) (w_heaps w p) (get_obj w p)"
  by (simp add: world_inv_def Let_def get_obj_def)

text \<open>Updates of fields the stream invariant does not mention.\<close>

lemma stream_ok_upd [simp]:
  "stream_ok l h (st\<lparr>req_method := m\<rparr>) = stream_ok l h st"
  "stream_ok l h (st\<lparr>req_scheme := m\<rparr>) = stream_ok l h st"
  "stream_ok l h (st\<lparr>req_path := m\<rparr>) = stream_ok l h st"
  "stream_ok l h (st\<lparr>req_authority := m\<rparr>) = stream_ok l h st"
  "stream_ok l h (st\<lparr>req_headers := t\<rparr>) = stream_ok l h st"
  "stream_ok l h (st\<lparr>headers_complete := b\<rparr>) = stream_ok l h st"
  "stream_ok l h (st\<lparr>body_complete := b\<rparr>) = stream_ok l h st"
  "stream_ok l h (st\<lparr>body_truncated := b\<rparr>) = stream_ok l h st"
  "stream_ok l h (st\<lparr>done_flag := b\<rparr>) = stream_ok l h st"
  "stream_ok l h (st\<lparr>write_blocked := b\<rparr>) = stream_ok l h st"
  "stream_ok l h (st\<lparr>qstream := q\<rparr>) = stream_ok l h st"
  "stream_ok l h (st\<lparr>dispatched := b\<rparr>) = stream_ok l h st"
  "stream_ok l h (st\<lparr>worker_done := b\<rparr>) = stream_ok l h st"
  "stream_ok l h (st\<lparr>response_cancelled := b\<rparr>) = stream_ok l h st"
  "stream_ok l h (st\<lparr>response_complete := b\<rparr>) = stream_ok l h st"
  "stream_ok l h (st\<lparr>response_submitted := b\<rparr>) = stream_ok l h st"
  by (simp_all add: stream_ok_def body_wf_def resp_rep_def)

lemma cancel_keeps:
  assumes "world_inv w" and "p < length (objs (w_se w))"
  shows "cb_keeps w (put_obj p (fst (h3_stream_response_cancel_locked (get_obj w p))) w)"
  using assms world_inv_stream_ok [OF assms]
  by (intro cb_keeps_put) (simp_all add: quiet_update_def h3_stream_response_cancel_locked_def)

lemma queue_stream_handle_keeps:
  assumes inv: "world_inv w" and p: "p < length (objs (w_se w))"
  shows "cb_keeps w (queue_stream_handle p w)"
proof (cases "qstream (get_obj w p)")
  case None
  then show ?thesis using inv by (simp add: queue_stream_handle_def cb_keeps_refl)
next
  case (Some q)
  define w' where "w' = queue_stream_handle p w"
  have w': "w' = put_obj p ((get_obj w p)\<lparr>qstream := None\<rparr>) (w\<lparr>w_se := (w_se w)\<lparr>pending_free := pending_free (w_se w) @ [q]\<rparr>\<rparr>)"
    using Some by (simp add: w'_def queue_stream_handle_def h3_session_queue_free_def)
  have o: "objs (w_se w') = (objs (w_se w))[p := (get_obj w p)\<lparr>qstream := None\<rparr>]" by (simp add: w')
  have qu: "quiet_update (objs (w_se w) ! i) (objs (w_se w') ! i)" if "i < length (objs (w_se w))" for i
    using that by (cases "p = i") (simp_all add: o get_obj_def quiet_update_def)
  have ok: "stream_ok (h3_max_request_body_size (sess_conf (w_se w))) (w_heaps w i) (objs (w_se w') ! i)"
    if "i < length (objs (w_se w))" for i
    using world_inv_stream_ok [OF inv that] that by (cases "p = i") (simp_all add: o get_obj_def)
  have "mset (handles (w_se w)) = add_mset q (mset (handles (w_se w')))"
    unfolding handles_def o using p Some by (intro map_filter_update_None) (simp_all add: get_obj_def)
  then have m: "mset (handles (w_se w) @ pending_free (w_se w) @ w_freed w) =
      mset (handles (w_se w') @ pending_free (w_se w') @ w_freed w')" by (simp add: w')
  have hd: "held w' = held w" unfolding held_def using mset_eq_setD [OF m] by (rule sym)
  from mset_eq_imp_distinct_iff [OF m] have d: "distinct (handles (w_se w') @ pending_free (w_se w') @ w_freed w')"
    using world_invD(6) [OF inv] by blast
  have ln: "length (objs (w_se w')) = length (objs (w_se w))" by (simp add: o)
  have id: "stream_id (objs (w_se w') ! i) = stream_id (objs (w_se w) ! i)"
    "write_blocked (objs (w_se w') ! i) = write_blocked (objs (w_se w) ! i)" if "i < length (objs (w_se w))" for i
    using qu [OF that] by (simp_all add: quiet_update_def)
  have rest: "sess_conf (w_se w') = sess_conf (w_se w)" "streams (w_se w') = streams (w_se w)" "w_user w' = w_user w"
    "pending_h3s (w_se w') = pending_h3s (w_se w)" "pending_sid (w_se w') = pending_sid (w_se w)"
    "w_heaps w' = w_heaps w" "blocked_streams (w_se w') = blocked_streams (w_se w)"
    by (simp_all add: w')
  have b: "blocked_set (w_se w') = blocked_set (w_se w)"
    using world_invD(3) [OF inv] id(2) unfolding blocked_set_def rest ran_def by blast
  have "world_inv w'"
  proof (rule world_invI)
    show "distinct (handles (w_se w') @ pending_free (w_se w') @ w_freed w')" by (rule d)
    show "p < length (objs (w_se w')) \<and> stream_id (objs (w_se w') ! p) = sid" if "streams (w_se w') sid = Some p" for sid p
      using world_invD(3) [OF inv, of sid p] that id(1) by (simp add: rest ln)
    show "p < length (objs (w_se w')) \<and> stream_id (objs (w_se w') ! p) = sid" if "w_user w' sid = Some p" for sid p
      using world_invD(4) [OF inv, of sid p] that id(1) by (simp add: rest ln)
    show "p < length (objs (w_se w')) \<and> stream_id (objs (w_se w') ! p) = pending_sid (w_se w')"
      if "pending_h3s (w_se w') = Some p" for p
      using world_invD(5) [OF inv, of p] that id(1) by (simp add: rest ln)
  qed (use world_invD [OF inv] ok b in \<open>simp_all add: rest ln\<close>)
  moreover have "cb_frame w w'" using qu hd by (simp add: cb_frame_def Let_def) (simp add: w')
  ultimately show ?thesis by (simp add: cb_keeps_def w'_def)
qed

lemma on_begin_headers_keeps [h3_inv]:
  assumes inv: "world_inv w"
  shows "cb_keeps w (snd (on_begin_headers sid w))"
proof -
  define stream where "stream = (case w_user w sid of Some p \<Rightarrow> Some p
    | None \<Rightarrow> if pending_sid (w_se w) = sid then pending_h3s (w_se w) else None)"
  show ?thesis
  proof (cases stream)
    case None
    then show ?thesis using inv by (simp add: on_begin_headers_def stream_def [symmetric] cb_keeps_refl)
  next
    case (Some p)
    have p: "p < length (objs (w_se w))" "stream_id (get_obj w p) = sid"
      using Some world_invD(4) [OF inv, of sid p] world_inv_pending [OF inv, of p]
      by (auto simp: stream_def get_obj_def split: option.splits if_splits)
    let ?st = "if is_bidi (get_obj w p) \<and> req_headers (get_obj w p) = None
      then (get_obj w p)\<lparr>req_headers := Some []\<rparr> else get_obj w p"
    have k: "cb_keeps w (put_obj p ?st w)"
      using inv p(1) world_inv_stream_ok [OF inv p(1)] by (intro cb_keeps_put) (simp_all add: quiet_update_def)
    define w1 where "w1 = put_obj p ?st w"
    have i1: "world_inv w1" using k by (simp add: cb_keeps_def w1_def)
    have sid: "p < length (objs (w_se w1)) \<and> stream_id (objs (w_se w1) ! p) = sid"
      using p by (simp add: w1_def get_obj_def)
    have "world_inv (w1\<lparr>w_user := (w_user w)(sid \<mapsto> p)\<rparr>)"
      using world_invD [OF i1] sid
      by (intro world_invI) (auto simp: w1_def split: if_splits)
    moreover have "cb_frame w (w1\<lparr>w_user := (w_user w)(sid \<mapsto> p)\<rparr>)"
      using k by (simp add: cb_keeps_def cb_frame_def Let_def w1_def)
    ultimately show ?thesis
      using Some by (simp add: on_begin_headers_def stream_def [symmetric] Let_def w1_def cb_keeps_def)
  qed
qed

lemma set_pseudo_quiet:
  assumes "set_pseudo st token v = (rc, st')"
  shows "quiet_update st st'" and "qstream st' = qstream st" and "stream_ok l h st' = stream_ok l h st"
  using assms by (auto simp: set_pseudo_def quiet_update_def Let_def split: if_splits qpack_token.splits)

lemma on_recv_header_keeps [h3_inv]:
  assumes inv: "world_inv w"
  shows "cb_keeps w (snd (on_recv_header sid token name v w))"
proof (cases "w_user w sid")
  case None
  then show ?thesis using inv by (simp add: on_recv_header_def cb_keeps_refl)
next
  case (Some p)
  have p: "p < length (objs (w_se w))" using inv Some by (rule world_inv_user)
  note ok = world_inv_stream_ok [OF inv p]
  obtain rc st' where sp: "set_pseudo (get_obj w p) token v = (rc, st')" by fastforce
  note q = set_pseudo_quiet [OF sp]
  have 1: "cb_keeps w (put_obj p st' w)" using inv p q ok by (intro cb_keeps_put) simp_all
  have 2: "cb_keeps w (put_obj p ((get_obj w p)\<lparr>req_headers := hs\<rparr>) w)" for hs
    using inv p ok by (intro cb_keeps_put) (simp_all add: quiet_update_def)
  show ?thesis
    using Some sp 1 2 inv by (auto simp: on_recv_header_def Let_def cb_keeps_refl split: option.splits)
qed

lemma on_end_headers_keeps [h3_inv]:
  assumes inv: "world_inv w"
  shows "cb_keeps w (snd (on_end_headers sid fin w))"
proof (cases "w_user w sid")
  case None
  then show ?thesis using inv by (simp add: on_end_headers_def cb_keeps_refl)
next
  case (Some p)
  have p: "p < length (objs (w_se w))" using inv Some by (rule world_inv_user)
  note ok = world_inv_stream_ok [OF inv p]
  have "cb_keeps w (put_obj p ((get_obj w p)\<lparr>headers_complete := True, body_complete := b \<or> body_complete (get_obj w p)\<rparr>) w)" for b
    using inv p ok by (intro cb_keeps_put) (simp_all add: quiet_update_def)
  then show ?thesis using Some inv by (auto simp: on_end_headers_def Let_def cb_keeps_refl)
qed

lemma on_stop_sending_keeps [h3_inv]:
  assumes inv: "world_inv w"
  shows "cb_keeps w (snd (on_stop_sending sid code w))"
proof (cases "w_user w sid")
  case None
  then show ?thesis using inv by (simp add: on_stop_sending_def cb_keeps_refl)
next
  case (Some p)
  have p: "p < length (objs (w_se w))" using inv Some by (rule world_inv_user)
  define w1 where "w1 = put_obj p (fst (h3_stream_response_cancel_locked (get_obj w p))) w"
  define w2 where "w2 = queue_stream_handle p w1"
  have 1: "cb_keeps w w1" unfolding w1_def by (rule cancel_keeps [OF inv p])
  then have i1: "world_inv w1" "p < length (objs (w_se w1))" using p by (auto simp: cb_keeps_def w1_def)
  have 2: "cb_keeps w1 w2" unfolding w2_def by (rule queue_stream_handle_keeps [OF i1])
  then have i2: "world_inv w2" "p < length (objs (w_se w2))"
    using i1(2) by (auto simp: cb_keeps_def cb_frame_def Let_def)
  have "cb_keeps w2 (put_obj p ((get_obj w2 p)\<lparr>done_flag := True, body_complete := True, body_truncated := True\<rparr>) w2)"
    using i2 world_inv_stream_ok [OF i2] by (intro cb_keeps_put) (simp_all add: quiet_update_def)
  with 1 2 show ?thesis
    using Some by (auto simp: on_stop_sending_def Let_def w1_def w2_def intro: cb_keeps_trans)
qed

lemma on_reset_stream_keeps [h3_inv]:
  assumes inv: "world_inv w"
  shows "cb_keeps w (snd (on_reset_stream ssl sid code w))"
proof (cases "w_user w sid")
  case None
  then show ?thesis using inv by (simp add: on_reset_stream_def cb_keeps_refl)
next
  case (Some p)
  have p: "p < length (objs (w_se w))" using inv Some by (rule world_inv_user)
  define w1 where "w1 = put_obj p (fst (h3_stream_response_cancel_locked (get_obj w p))) w"
  define w2 where "w2 = w1\<lparr>w_ssl := h3q_stream_reset ssl (w_ssl w1) (qstream (get_obj w1 p)) code\<rparr>"
  have 1: "cb_keeps w w1" unfolding w1_def by (rule cancel_keeps [OF inv p])
  then have 2: "cb_keeps w w2" by (simp add: w2_def cb_keeps_def)
  then have i2: "world_inv w2" "p < length (objs (w_se w2))"
    using p by (auto simp: cb_keeps_def cb_frame_def Let_def)
  have "cb_keeps w2 (put_obj p ((get_obj w2 p)\<lparr>done_flag := True\<rparr>) w2)"
    using i2 world_inv_stream_ok [OF i2] by (intro cb_keeps_put) (simp_all add: quiet_update_def)
  with 2 show ?thesis
    using Some by (auto simp: on_reset_stream_def Let_def w1_def w2_def intro: cb_keeps_trans)
qed

lemma on_stream_close_keeps [h3_inv]:
  assumes inv: "world_inv w"
  shows "cb_keeps w (snd (on_stream_close sid code w))"
proof (cases "w_user w sid")
  case None
  then show ?thesis using inv by (simp add: on_stream_close_def cb_keeps_refl)
next
  case (Some p)
  have p: "p < length (objs (w_se w))" using inv Some by (rule world_inv_user)
  define w1 where "w1 = put_obj p ((fst (h3_stream_response_cancel_locked (get_obj w p)))\<lparr>done_flag := True\<rparr>) w"
  have 1: "cb_keeps w w1" unfolding w1_def
    using inv p world_inv_stream_ok [OF inv p]
    by (intro cb_keeps_put) (simp_all add: quiet_update_def h3_stream_response_cancel_locked_def)
  then have "cb_keeps w1 (queue_stream_handle p w1)"
    using p by (intro queue_stream_handle_keeps) (auto simp: cb_keeps_def w1_def)
  with 1 show ?thesis
    using Some by (auto simp: on_stream_close_def Let_def w1_def intro: cb_keeps_trans)
qed

lemma conf_body_limit: "world_inv w \<Longrightarrow> unat (h3_max_request_body_size (sess_conf (w_se w))) \<le> 2 ^ 63"
  using world_invD(1) [of w] by (simp add: conf_ready_def conf_in_range_def H3_MAX_REQUEST_BODY_SIZE_MAX_def)

lemma on_recv_data_keeps [h3_inv]:
  assumes inv: "world_inv w" and law: "palloc_law palloc" and d: "\<forall>d. data = Some d \<longrightarrow> length d < 2 ^ 63"
  shows "\<exists>rc w'. on_recv_data palloc sid data w = Some (rc, w') \<and> cb_keeps w w'"
proof (cases "w_user w sid")
  case None
  then show ?thesis using inv by (simp add: on_recv_data_def cb_keeps_refl)
next
  case (Some p)
  have p: "p < length (objs (w_se w))" using inv Some by (rule world_inv_user)
  have ok: "stream_ok (h3_max_request_body_size (sess_conf (w_se w))) (w_heaps w p) (get_obj w p)"
    by (rule world_inv_stream_ok [OF inv p])
  show ?thesis
  proof (cases data)
    case None
    have "put_obj p (get_obj w p) w = w" by (simp add: put_obj_def get_obj_def)
    then show ?thesis using None Some inv by (simp add: on_recv_data_def stream_recv_data_def cb_keeps_refl)
  next
    case d': (Some dd)
    from recv_data_ok [OF _ law conf_body_limit [OF inv], of "get_obj w p" dd] ok d d' obtain st' where
      r: "stream_recv_data palloc (h3_max_request_body_size (sess_conf (w_se w))) data (get_obj w p) = Some st'"
        "body_wf (h3_max_request_body_size (sess_conf (w_se w))) st'"
      and st': "st' = (get_obj w p)\<lparr>request_body := request_body st', request_body_capacity := request_body_capacity st',
             request_body_len := request_body_len st', request_body_overflow := request_body_overflow st'\<rparr>"
      by (auto simp: stream_ok_def)
    have q: "quiet_update (get_obj w p) st'"
      unfolding quiet_update_def by (intro conjI; subst st', simp)
    have qs: "qstream st' = qstream (get_obj w p)" by (subst st') simp
    have "resp_rep h st' us vs = resp_rep h (get_obj w p) us vs" for h us vs
      by (subst st') (simp add: resp_rep_def)
    then have "stream_ok (h3_max_request_body_size (sess_conf (w_se w))) (w_heaps w p) st'"
      using ok r(2) by (simp add: stream_ok_def)
    from cb_keeps_put [OF inv p q qs this] Some r(1) show ?thesis by (simp add: on_recv_data_def)
  qed
qed

text \<open>
  What nghttp3 documents of its calls: it acknowledges only bytes it was handed. Once the
  module has nothing left to hand over, the code needs no bound.
\<close>

definition acked_in_flight :: "'o world \<Rightarrow> int \<Rightarrow> uint64_t \<Rightarrow> bool" where
  "acked_in_flight w sid n \<longleftrightarrow> (\<forall>p us vs. w_user w sid = Some p \<longrightarrow>
     resp_rep (w_heaps w p) (get_obj w p) us vs \<longrightarrow>
     unat n \<le> length (resp_bytes (w_heaps w p) us) \<or> vs = [])"

lemma on_acked_keeps [h3_inv]:
  assumes inv: "world_inv w" and al: "acked_in_flight w sid n"
  shows "\<exists>rc w'. on_acked_stream_data sid n w = Some (rc, w') \<and> cb_keeps w w'"
proof (cases "w_user w sid")
  case None
  then show ?thesis using inv by (simp add: on_acked_stream_data_def cb_keeps_refl)
next
  case (Some p)
  have p: "p < length (objs (w_se w))" using inv Some by (rule world_inv_user)
  from world_inv_stream_ok [OF inv p] obtain us vs where
    bw: "body_wf (h3_max_request_body_size (sess_conf (w_se w))) (get_obj w p)"
    and rep: "resp_rep (w_heaps w p) (get_obj w p) us vs" by (auto simp: stream_ok_def)
  have "unat n \<le> length (resp_bytes (w_heaps w p) us) \<or> vs = []" using al Some rep by (auto simp: acked_in_flight_def)
  then have "\<exists>h' st' us' r. ack_loop (w_heaps w p) (get_obj w p) n False = Some (h', st', r) \<and> resp_rep h' st' us' vs \<and>
      st' = (get_obj w p)\<lparr>response_head := response_head st', response_tail := response_tail st',
       response_buffered := response_buffered st'\<rparr>"
    using ack_loop_rep [OF rep, of n False] ack_loop_drained [of "w_heaps w p" "get_obj w p" us n False] rep by blast
  then obtain h' st' us' r where
    a: "ack_loop (w_heaps w p) (get_obj w p) n False = Some (h', st', r)" "resp_rep h' st' us' vs"
    and st': "st' = (get_obj w p)\<lparr>response_head := response_head st', response_tail := response_tail st',
       response_buffered := response_buffered st'\<rparr>" by blast
  have q: "quiet_update (get_obj w p) st'"
    unfolding quiet_update_def by (intro conjI; subst st', simp)
  have qs: "qstream st' = qstream (get_obj w p)" by (subst st') simp
  have "body_wf (h3_max_request_body_size (sess_conf (w_se w))) st'" using bw by (subst st') (simp add: body_wf_def)
  then have "stream_ok (h3_max_request_body_size (sess_conf (w_se w))) h' st'"
    using a(2) by (auto simp: stream_ok_def)
  from cb_keeps_put_heap [OF inv p q qs this] Some a(1) show ?thesis
    by (simp add: on_acked_stream_data_def h3_stream_response_ack_locked_def)
qed

lemma on_read_data_keeps [h3_inv]:
  assumes inv: "world_inv w"
  shows "\<exists>r eof vs w'. on_read_data sid k w = Some (r, eof, vs, w') \<and> cb_keeps w w'"
proof (cases "w_user w sid")
  case None
  then show ?thesis using inv by (auto simp: on_read_data_def h3_session_read_data_def cb_keeps_refl)
next
  case (Some p)
  have p: "p < length (objs (w_se w))" using inv Some by (rule world_inv_user)
  from world_inv_stream_ok [OF inv p] obtain us vs where
    bw: "body_wf (h3_max_request_body_size (sess_conf (w_se w))) (get_obj w p)"
    and rep: "resp_rep (w_heaps w p) (get_obj w p) us vs" by (auto simp: stream_ok_def)
  show ?thesis
  proof (cases "k = 0 \<or> response_cancelled (get_obj w p)")
    case True
    have "put_obj p (get_obj w p) w = w" by (simp add: put_obj_def get_obj_def)
    then show ?thesis using True Some inv by (auto simp: on_read_data_def h3_session_read_data_def cb_keeps_refl)
  next
    case False
    from read_loop_rep [OF rep, of k] obtain vecs st' where
      l: "read_loop (w_heaps w p) k (get_obj w p) = Some (vecs, st')"
        "resp_rep (w_heaps w p) st' (us @ take k vs) (drop k vs)"
      and st': "st' = (get_obj w p)\<lparr>response_submit_chunk := response_submit_chunk st'\<rparr>" by blast
    have q: "quiet_update (get_obj w p) st'"
      unfolding quiet_update_def by (intro conjI; subst st', simp)
    have qs: "qstream st' = qstream (get_obj w p)" by (subst st') simp
    have "body_wf (h3_max_request_body_size (sess_conf (w_se w))) st'" using bw by (subst st') (simp add: body_wf_def)
    then have "stream_ok (h3_max_request_body_size (sess_conf (w_se w))) (w_heaps w p) st'"
      using l(2) by (auto simp: stream_ok_def)
    from cb_keeps_put [OF inv p q qs this] Some False l(1) show ?thesis
      by (auto simp: on_read_data_def h3_session_read_data_def)
  qed
qed

section \<open>Any behaviour of nghttp3\<close>

fun ng_allowed :: "ng_call \<Rightarrow> 'o world option \<Rightarrow> bool" where
  "ng_allowed q None = True"
| "ng_allowed (Acked_stream_data sid n) (Some w) = acked_in_flight w sid n"
| "ng_allowed (Recv_data sid d) (Some w) = (\<forall>b. d = Some b \<longrightarrow> length b < 2 ^ 63)"
| "ng_allowed _ (Some w) = True"

definition kept_from :: "(size_t \<Rightarrow> byte list) \<Rightarrow> 'o world \<Rightarrow> 'o world option \<Rightarrow> bool" where
  "kept_from palloc w0 s \<longleftrightarrow> (palloc_law palloc \<longrightarrow> (\<exists>w. s = Some w \<and> cb_keeps w0 w))"

lemma ng_handle_keeps:
  assumes "world_inv w" and "palloc_law palloc" and "ng_allowed q (Some w)"
  shows "\<exists>a w'. ng_handle ssl palloc q w = Some (a, w') \<and> cb_keeps w w'"
proof (cases q)
  case (Recv_data sid d)
  then have "\<forall>b. d = Some b \<longrightarrow> length b < 2 ^ 63" using assms(3) by simp
  from on_recv_data_keeps [OF assms(1,2) this, of sid] Recv_data show ?thesis by auto
next
  case (Acked_stream_data sid n)
  then show ?thesis using on_acked_keeps [OF assms(1), of sid n] assms(3) by auto
next
  case (Read_data sid k)
  then show ?thesis using on_read_data_keeps [OF assms(1), of sid k] by auto
qed (use on_begin_headers_keeps [OF assms(1)] on_recv_header_keeps [OF assms(1)] on_end_headers_keeps [OF assms(1)]
    on_stop_sending_keeps [OF assms(1)] on_reset_stream_keeps [OF assms(1)] on_stream_close_keeps [OF assms(1)]
    in \<open>simp_all add: apfst_def map_prod_def case_prod_unfold\<close>)

interpretation ng: callback_contract "ng_step ssl palloc" ng_allowed "kept_from palloc w0" for ssl palloc w0
proof (unfold_locales, goal_cases)
  case (1 s q)
  show ?case
  proof (cases "palloc_law palloc")
    case False
    then show ?thesis by (simp add: kept_from_def)
  next
    case True
    with 1(1) obtain w where w: "s = Some w" "cb_keeps w0 w" by (auto simp: kept_from_def)
    from ng_handle_keeps [of w palloc q ssl] 1(2) w True obtain a w' where
      "ng_handle ssl palloc q w = Some (a, w')" "cb_keeps w w'" by (auto simp: cb_keeps_def)
    then show ?thesis using w by (auto simp: kept_from_def ng_step_def intro: cb_keeps_trans)
  qed
qed

lemma ng_call_keeps:
  assumes "world_inv w" and "palloc_law palloc" and "behaves (ng_step ssl palloc) ng_allowed t (Some w)"
  obtains a w' where "run_itree (ng_step ssl palloc) t (Some w) = (a, Some w')" and "world_inv w'" and "cb_frame w w'"
  using ng.run_inv [of palloc w "Some w" ssl t] assms that
  by (cases "run_itree (ng_step ssl palloc) t (Some w)") (auto simp: kept_from_def cb_keeps_def)

section \<open>Properties\<close>

text \<open>A well-formed world with one request stream, and nghttp3 knowing it.\<close>

definition ready_conf :: h3_server_conf where
  "ready_conf = sr_conf (apply_defaults \<lparr>sr_addrs = [443], sr_conf = wit_conf\<rparr>)"

definition one_stream :: h3_stream where
  "one_stream = zero_stream\<lparr>is_bidi := True, qstream := Some 5, response_cond := True, response_buffer_limit := 65536\<rparr>"

definition wit_world :: "'o \<Rightarrow> 'o world" where
  "wit_world x = \<lparr>w_se = (zero_session ready_conf)\<lparr>qconn := Some 1, ngh3 := True, objs := [one_stream],
       streams := [0 \<mapsto> 0], pending_sid := -1\<rparr>,
     w_heaps = (\<lambda>_. []), w_user = [0 \<mapsto> 0], w_ssl = x, w_freed = [], w_reclaimed = [], w_stats = None\<rparr>"

lemma ready_conf_ready: "conf_ready ready_conf"
proof -
  have "h3_enabled wit_conf" by (simp add: h3_enabled_def wit_conf_def)
  moreover have "conf_in_range wit_conf" using run_directives_in_range [OF wit_section_run conf_in_range_create] by simp
  ultimately show ?thesis unfolding ready_conf_def by (intro apply_defaults_ready) simp_all
qed

lemma blank_stream_ok:
  assumes "resp_blank st" and "request_body st = []" and "request_body_len st = 0" and "request_body_capacity st = 0"
  shows "stream_ok limit [] st"
proof -
  have "resp_rep [] st [] []" using assms(1) by (simp add: resp_blank_def resp_rep_def)
  then show ?thesis using assms by (auto simp: stream_ok_def body_wf_def)
qed

lemma wit_world_inv: "world_inv (wit_world x)"
proof (rule world_invI)
  show "stream_ok (h3_max_request_body_size (sess_conf (w_se (wit_world x)))) (w_heaps (wit_world x) p) (objs (w_se (wit_world x)) ! p)"
    if "p < length (objs (w_se (wit_world x)))" for p
    using that blank_stream_ok [of one_stream]
    by (simp add: wit_world_def one_stream_def zero_stream_def resp_blank_def)
  have "blocked_set (w_se (wit_world x)) = {}"
    by (auto simp: blocked_set_def wit_world_def one_stream_def zero_stream_def)
  then show "blocked_streams (w_se (wit_world x)) = int (card (blocked_set (w_se (wit_world x))))"
    by (simp add: wit_world_def zero_session_def)
qed (simp_all add: wit_world_def zero_session_def ready_conf_ready one_stream_def zero_stream_def handles_def
    List.map_filter_simps split: if_splits)

lemma wit_palloc_law: "palloc_law (\<lambda>n. replicate (unat n) 0)"
  by (simp add: palloc_law_def)

text \<open>
  C13: Whatever callbacks nghttp3 makes inside one of its functions, in whatever order and
  reacting to their answers, the session stays well formed: no buffer is overrun and no freed
  chunk is touched, every QUIC stream handle is owned by one stream or queued once for
  freeing, and stream identities and the write-blocked count stay as they were. nghttp3 is
  relied on to acknowledge only bytes it was handed.
\<close>

theorem callbacks_keep_session:
  assumes "world_inv w" and "palloc_law palloc" and "behaves (ng_step ssl palloc) ng_allowed t (Some w)"
  shows "\<exists>w'. snd (run_itree (ng_step ssl palloc) t (Some w)) = Some w' \<and> world_inv w' \<and> cb_frame w w'"
  by (rule ng_call_keeps [OF assms]) auto

definition wit_tree :: "(ng_call, ng_ans, unit) itree" where
  "wit_tree = Vis (Recv_data 0 (Some [1, 2])) (\<lambda>_. Vis (Stream_close 0 0) (\<lambda>_. Vis (Stop_sending 0 0) (\<lambda>_. Ret ())))"

theorem callbacks_keep_session_witness:
  "world_inv (wit_world ([] :: byte list)) \<and> palloc_law (\<lambda>n. replicate (unat n) 0) \<and>
   (\<exists>w'. snd (run_itree (ng_step wit_ssl (\<lambda>n. replicate (unat n) 0)) wit_tree (Some (wit_world []))) = Some w' \<and> world_inv w')"
proof -
  have a: "ng_allowed (Stream_close sid c) s" "ng_allowed (Stop_sending sid c) s" for sid c and s :: "byte list world option"
    by (cases s; simp)+
  have "behaves (ng_step wit_ssl (\<lambda>n. replicate (unat n) 0)) ng_allowed wit_tree (Some (wit_world []))"
    unfolding wit_tree_def by (simp only: behaves.simps a ng_allowed.simps) simp
  from callbacks_keep_session [OF wit_world_inv wit_palloc_law this] obtain w' where
    "snd (run_itree (ng_step wit_ssl (\<lambda>n. replicate (unat n) 0)) wit_tree (Some (wit_world []))) = Some w'" "world_inv w'"
    by (elim exE conjE)
  then show ?thesis by (intro conjI wit_world_inv wit_palloc_law exI [of _ w'])
qed

text \<open>The data callbacks of one request, in order.\<close>

fun recv_all :: "(size_t \<Rightarrow> byte list) \<Rightarrow> size_t \<Rightarrow> byte list list \<Rightarrow> h3_stream \<Rightarrow> h3_stream option" where
  "recv_all palloc limit [] st = Some st"
| "recv_all palloc limit (d # ds) st = Option.bind (stream_recv_data palloc limit (Some d) st) (recv_all palloc limit ds)"

lemma recv_all_overflow:
  "request_body_overflow st \<Longrightarrow> recv_all palloc limit ds st = Some st"
  by (induction ds) (auto simp: stream_recv_data_def Let_def)

lemma recv_all_ok:
  assumes "palloc_law palloc" and "unat limit \<le> 2 ^ 63"
  shows "body_wf limit st \<Longrightarrow> is_bidi st \<Longrightarrow> \<not> request_body_overflow st \<Longrightarrow> list_all (\<lambda>d. length d < 2 ^ 63) ds \<Longrightarrow>
    \<exists>st' k. recv_all palloc limit ds st = Some st' \<and> body_wf limit st' \<and>
      body_bytes st' = body_bytes st @ concat (take k ds) \<and>
      (request_body_overflow st' \<longleftrightarrow> unat limit < unat (request_body_len st) + length (concat ds)) \<and>
      (\<not> request_body_overflow st' \<longrightarrow> concat (take k ds) = concat ds)"
proof (induction ds arbitrary: st)
  case Nil
  then have "\<not> unat limit < unat (request_body_len st)" by (simp add: body_wf_def word_le_nat_alt)
  with Nil show ?case by auto
next
  case (Cons d ds)
  from recv_data_ok [OF Cons.prems(1) assms, of d] Cons.prems obtain st1 where
    r: "stream_recv_data palloc limit (Some d) st = Some st1" "body_wf limit st1"
      "if d = [] then st1 = st
       else if unat (request_body_len st) + length d \<le> unat limit
       then body_bytes st1 = body_bytes st @ d \<and> unat (request_body_len st1) = unat (request_body_len st) + length d \<and>
         \<not> request_body_overflow st1
       else body_bytes st1 = body_bytes st \<and> request_body_overflow st1"
    and st1: "st1 = st\<lparr>request_body := request_body st1, request_body_capacity := request_body_capacity st1,
             request_body_len := request_body_len st1, request_body_overflow := request_body_overflow st1\<rparr>"
    by auto
  have bidi: "is_bidi st1" using Cons.prems(2) by (subst st1) simp
  show ?case
  proof (cases "request_body_overflow st1")
    case True
    then have "d \<noteq> []" "unat limit < unat (request_body_len st) + length d" "body_bytes st1 = body_bytes st"
      using r(3) Cons.prems(3) by (auto split: if_splits)
    then show ?thesis using r True recv_all_overflow [OF True] by (intro exI [of _ st1] exI [of _ 0]) simp
  next
    case False
    then have b: "body_bytes st1 = body_bytes st @ d" "unat (request_body_len st1) = unat (request_body_len st) + length d"
      using r(3) by (auto split: if_splits)
    from Cons.IH [OF r(2) bidi False] Cons.prems(4) obtain st' k where
      "recv_all palloc limit ds st1 = Some st'" "body_wf limit st'"
      "body_bytes st' = body_bytes st1 @ concat (take k ds)"
      "request_body_overflow st' \<longleftrightarrow> unat limit < unat (request_body_len st1) + length (concat ds)"
      "\<not> request_body_overflow st' \<longrightarrow> concat (take k ds) = concat ds" by auto
    then show ?thesis using r(1) b by (intro exI [of _ st'] exI [of _ "Suc k"]) (simp add: add.assoc)
  qed
qed

text \<open>
  C14: The body buffer of a request holds exactly the concatenation of the data received, with
  no write outside the buffer, as long as the total stays within H3MaxRequestBodySize; the
  overflow mark is set exactly when it does not, and what is kept is then a prefix.
\<close>

theorem request_body_exact:
  assumes "palloc_law palloc" and "unat limit \<le> 2 ^ 63" and "is_bidi st" and "\<not> request_body_overflow st"
    and "request_body st = []" and "request_body_len st = 0" and "request_body_capacity st = 0"
    and "list_all (\<lambda>d. length d < 2 ^ 63) ds"
  shows "\<exists>st' k. recv_all palloc limit ds st = Some st' \<and> body_bytes st' = concat (take k ds) \<and>
    (request_body_overflow st' \<longleftrightarrow> unat limit < length (concat ds)) \<and>
    (\<not> request_body_overflow st' \<longrightarrow> body_bytes st' = concat ds) \<and> length (body_bytes st') \<le> unat limit"
proof -
  have "body_wf limit st" using assms by (simp add: body_wf_def)
  from recv_all_ok [OF assms(1,2) this assms(3,4,8)] assms(5,6) obtain st' k where
    r: "recv_all palloc limit ds st = Some st'" "body_wf limit st'" "body_bytes st' = concat (take k ds)"
      "request_body_overflow st' \<longleftrightarrow> unat limit < length (concat ds)"
      "\<not> request_body_overflow st' \<longrightarrow> concat (take k ds) = concat ds"
    by (auto simp: body_bytes_def)
  have "length (body_bytes st') \<le> unat limit"
    using r(2) by (auto simp: body_wf_def body_bytes_def word_le_nat_alt)
  with r show ?thesis by auto
qed

theorem request_body_exact_witness:
  "palloc_law (\<lambda>n. replicate (unat n) 0) \<and>
   (\<exists>st' k. recv_all (\<lambda>n. replicate (unat n) 0) 4 [[1, 2], [3]] one_stream = Some st' \<and> body_bytes st' = [1, 2, 3])"
  using request_body_exact [OF wit_palloc_law, of 4 one_stream "[[1, 2], [3]]"] wit_palloc_law
  by (auto simp: one_stream_def zero_stream_def)

end
