(* ===== verification/H3_Stream.thy ===== *)
theory H3_Stream
  imports H3_Callbacks
begin

text \<open>
  The stream layer of \<^verbatim>\<open>src/h3_stream.c\<close>: flushing what nghttp3 wants to send into the QUIC
  streams, reading what arrived into nghttp3 under a budget, and reclaiming finished request
  streams. nghttp3 and OpenSSL are parameters; an nghttp3 function that may call back is a
  tree of callbacks. A hash table is iterated in an order that is a parameter too.
\<close>

section \<open>The libraries in use\<close>

datatype writev_ret = Writev_error int | Writev int bool "byte list list"

record 'ng nghttp3 =
  ng_writev_stream :: "'ng \<Rightarrow> (ng_call, ng_ans, 'ng \<times> writev_ret) itree"
  ng_add_write_offset :: "'ng \<Rightarrow> int \<Rightarrow> size_t \<Rightarrow> 'ng"
  ng_add_ack_offset :: "'ng \<Rightarrow> int \<Rightarrow> size_t \<Rightarrow> (ng_call, ng_ans, 'ng) itree"
  ng_read_stream :: "'ng \<Rightarrow> int \<Rightarrow> byte list \<Rightarrow> bool \<Rightarrow> (ng_call, ng_ans, 'ng \<times> int) itree"
  ng_close_stream :: "'ng \<Rightarrow> int \<Rightarrow> (ng_call, ng_ans, 'ng) itree"
  ng_block_stream :: "'ng \<Rightarrow> int \<Rightarrow> 'ng"
  ng_unblock_stream :: "'ng \<Rightarrow> int \<Rightarrow> 'ng"
  ng_infer_quic_app_error_code :: "int \<Rightarrow> uint64_t"
  ng_strerror :: "int \<Rightarrow> string"

record ('o, 'ng) libs =
  lib_ssl :: "'o openssl"
  lib_ng :: "'ng nghttp3"
  lib_palloc :: "size_t \<Rightarrow> byte list"
  lib_hash_order :: "(int \<rightharpoonup> sptr) \<Rightarrow> int list"
  lib_hash_count :: "(int \<rightharpoonup> sptr) \<Rightarrow> nat"

definition ng_run :: "('o, 'ng) libs \<Rightarrow> (ng_call, ng_ans, 'a) itree \<Rightarrow> 'o world \<Rightarrow> ('a \<times> 'o world) option" where
  "ng_run L t w =
    (case run_itree (ng_step (lib_ssl L) (lib_palloc L)) t (Some w) of
       (a, Some w') \<Rightarrow> Some (a, w') | (_, None) \<Rightarrow> None)"

section \<open>Operations\<close>

definition H3_STREAM_DRAIN_READ_BUDGET :: nat where "H3_STREAM_DRAIN_READ_BUDGET = 256"
definition H3_STREAM_DRAIN_BYTE_BUDGET :: size_t where "H3_STREAM_DRAIN_BYTE_BUDGET = 1024 * 1024"

definition h3_stream_find :: "h3_session \<Rightarrow> int \<Rightarrow> sptr option" where
  "h3_stream_find se sid = streams se sid"

abbreviation upd_se :: "(h3_session \<Rightarrow> h3_session) \<Rightarrow> 'o world \<Rightarrow> 'o world" where
  "upd_se f w \<equiv> w\<lparr>w_se := f (w_se w)\<rparr>"

text \<open>The body of the loop over the hash for one entry.\<close>

definition unblock_one :: "('o, 'ng) libs \<Rightarrow> sptr \<Rightarrow> 'ng \<times> 'o world \<Rightarrow> 'ng \<times> 'o world" where
  "unblock_one L p s = (case s of (ng, w) \<Rightarrow>
    (let st = get_obj w p in
     if \<not> write_blocked st then (ng, w)
     else if qstream st \<noteq> None \<and> h3q_stream_is_write_blocked (lib_ssl L) (w_ssl w) (qstream st) then (ng, w)
     else (ng_unblock_stream (lib_ng L) ng (stream_id st),
           upd_se (\<lambda>se. se\<lparr>blocked_streams := blocked_streams se - 1\<rparr>)
             (put_obj p (st\<lparr>write_blocked := False\<rparr>) w))))"

definition hash_values :: "('o, 'ng) libs \<Rightarrow> h3_session \<Rightarrow> sptr list" where
  "hash_values L se = List.map_filter (streams se) (lib_hash_order L (streams se))"

definition unblock_writable_streams :: "('o, 'ng) libs \<Rightarrow> 'ng \<times> 'o world \<Rightarrow> 'ng \<times> 'o world" where
  "unblock_writable_streams L s =
    (if blocked_streams (w_se (snd s)) \<le> 0 then s
     else fold (unblock_one L) (hash_values L (w_se (snd s))) s)"

definition mark_ngh3_dead :: "('o, 'ng) libs \<Rightarrow> int \<Rightarrow> 'o world \<Rightarrow> 'o world" where
  "mark_ngh3_dead L liberr =
     upd_se (\<lambda>se. se\<lparr>ngh3_dead := True,
       abort_quic_error_code := ng_infer_quic_app_error_code (lib_ng L) liberr,
       abort_reason := Some (ng_strerror (lib_ng L) liberr)\<rparr>)"

definition count_written :: "size_t \<Rightarrow> 'o world \<Rightarrow> 'o world" where
  "count_written n w = (if 0 < n then w\<lparr>w_stats := map_option (apsnd (\<lambda>x. x + n)) (w_stats w)\<rparr> else w)"

definition count_read :: "size_t \<Rightarrow> 'o world \<Rightarrow> 'o world" where
  "count_read n w = w\<lparr>w_stats := map_option (apfst (\<lambda>x. x + n)) (w_stats w)\<rparr>"

text \<open>Both offsets move together: what a stream took is written and, for nghttp3, acknowledged.\<close>

definition advance_offsets :: "('o, 'ng) libs \<Rightarrow> int \<Rightarrow> size_t \<Rightarrow> 'ng \<times> 'o world \<Rightarrow> ('ng \<times> 'o world) option" where
  "advance_offsets L sid n s =
     ng_run L (ng_add_ack_offset (lib_ng L) (ng_add_write_offset (lib_ng L) (fst s) sid n) sid n) (snd s)"

definition block_stream :: "('o, 'ng) libs \<Rightarrow> sptr \<Rightarrow> int \<Rightarrow> 'ng \<times> 'o world \<Rightarrow> 'ng \<times> 'o world" where
  "block_stream L p sid s = (case s of (ng, w) \<Rightarrow>
    (if write_blocked (get_obj w p) then (ng, w)
     else (ng_block_stream (lib_ng L) ng sid,
           upd_se (\<lambda>se. se\<lparr>blocked_streams := blocked_streams se + 1\<rparr>)
             (put_obj p ((get_obj w p)\<lparr>write_blocked := True\<rparr>) w))))"

text \<open>One round of the send loop; the flag says whether the loop goes on.\<close>

definition flush_round :: "('o, 'ng) libs \<Rightarrow> 'ng \<times> 'o world \<Rightarrow> (bool \<times> 'ng \<times> 'o world) option" where
  "flush_round L s =
    (case ng_run L (ng_writev_stream (lib_ng L) (fst s)) (snd s) of
       None \<Rightarrow> None
     | Some ((ng1, Writev_error e), w1) \<Rightarrow> Some (False, ng1, mark_ngh3_dead L e w1)
     | Some ((ng1, Writev sid fin vecs), w1) \<Rightarrow>
       if vecs = [] \<and> sid < 0 then Some (False, ng1, w1)
       else (let expected = vec_total vecs;
                 found = (case h3_stream_find (w_se w1) sid of None \<Rightarrow> None
                          | Some p \<Rightarrow> map_option (Pair p) (qstream (get_obj w1 p)))
         in case found of
              None \<Rightarrow> map_option (Pair True) (advance_offsets L sid expected (ng1, w1))
            | Some (p, q) \<Rightarrow>
              (case h3q_stream_write (lib_ssl L) (w_ssl w1) q vecs fin of (s', res) \<Rightarrow>
                 (let w2 = count_written (accepted res) (w1\<lparr>w_ssl := s'\<rparr>) in
                  if broken res then map_option (Pair True) (advance_offsets L sid expected (ng1, w2))
                  else (case advance_offsets L sid (accepted res) (ng1, w2) of
                          None \<Rightarrow> None
                        | Some s3 \<Rightarrow> Some (True, if blocked res then block_stream L p sid s3 else s3))))))"

fun flush_loop :: "('o, 'ng) libs \<Rightarrow> nat \<Rightarrow> 'ng \<times> 'o world \<Rightarrow> ('ng \<times> 'o world) c_run" where
  "flush_loop L 0 s = Out_of_fuel"
| "flush_loop L (Suc k) s =
    (case flush_round L s of
       None \<Rightarrow> Undefined
     | Some (True, s') \<Rightarrow> flush_loop L k s'
     | Some (False, s') \<Rightarrow> Done s')"

text \<open>The stack of handles waiting to be freed is popped from its end.\<close>

definition free_pending :: "('o, 'ng) libs \<Rightarrow> 'o world \<Rightarrow> 'o world" where
  "free_pending L w =
    (let qs = rev (pending_free (w_se w)) in
     (upd_se (\<lambda>se. se\<lparr>pending_free := []\<rparr>) w)
       \<lparr>w_ssl := fold (\<lambda>q s. h3q_stream_free (lib_ssl L) s (Some q)) qs (w_ssl w), w_freed := w_freed w @ qs\<rparr>)"

definition flush_nghttp3 :: "('o, 'ng) libs \<Rightarrow> nat \<Rightarrow> 'ng \<times> 'o world \<Rightarrow> ('ng \<times> 'o world) c_run" where
  "flush_nghttp3 L fuel s =
    (if ngh3_dead (w_se (snd s)) then Done s
     else if \<not> ngh3 (w_se (snd s)) then Undefined
     else (case flush_loop L fuel (unblock_writable_streams L s) of
             Done (ng, w) \<Rightarrow> Done (ng, free_pending L w)
           | Undefined \<Rightarrow> Undefined
           | Out_of_fuel \<Rightarrow> Out_of_fuel))"

text \<open>
  Tracking a stream. The pool and the condition variable may fail to be created: a failing
  pool aborts the child (\<open>None\<close>), a failing condition variable yields a null stream.
\<close>

definition new_stream :: "h3_server_conf \<Rightarrow> int \<Rightarrow> qstream \<Rightarrow> h3_stream" where
  "new_stream conf sid q = zero_stream
     \<lparr>stream_id := sid, qstream := Some q, is_bidi := H3_SID_IS_BIDI sid, response_cond := True,
      response_buffer_limit := (if h3_stream_buffer_size conf \<noteq> 0 then h3_stream_buffer_size conf
                                else H3_STREAM_BUFFER_SIZE_DEFAULT)\<rparr>"

definition track_stream :: "bool \<Rightarrow> bool \<Rightarrow> int \<Rightarrow> qstream \<Rightarrow> 'o world \<Rightarrow> (sptr option \<times> 'o world) option" where
  "track_stream pool_ok cond_ok sid q w =
    (case h3_stream_find (w_se w) sid of
       Some p \<Rightarrow> Some (Some p, put_obj p ((get_obj w p)\<lparr>qstream := Some q\<rparr>) w)
     | None \<Rightarrow>
       if \<not> pool_ok then None
       else if \<not> cond_ok then Some (None, w)
       else (let p = length (objs (w_se w)) in
         Some (Some p, upd_se (\<lambda>se. se\<lparr>objs := objs se @ [new_stream (sess_conf se) sid q],
                                       streams := (streams se)(sid \<mapsto> p)\<rparr>) w)))"

definition feed_stream_fin :: "('o, 'ng) libs \<Rightarrow> sptr \<Rightarrow> 'ng \<times> 'o world \<Rightarrow> ('ng \<times> 'o world) option" where
  "feed_stream_fin L p s =
    (case ng_run L (ng_read_stream (lib_ng L) (fst s) (stream_id (get_obj (snd s) p)) [] True) (snd s) of
       None \<Rightarrow> None
     | Some ((ng1, consumed), w1) \<Rightarrow>
       (let w2 = (if consumed < 0 then mark_ngh3_dead L consumed w1 else w1)
        in Some (ng1, put_obj p ((get_obj w2 p)\<lparr>body_complete := True\<rparr>) w2)))"

text \<open>The state of one drain pass: what was read so far and what the budget still allows.\<close>

record ('o, 'ng) pass =
  pa_ng :: 'ng
  pa_w :: "'o world"
  data_read :: bool
  reads_remaining :: nat
  bytes_remaining :: size_t

definition set_done :: "sptr \<Rightarrow> ('o, 'ng) pass \<Rightarrow> ('o, 'ng) pass" where
  "set_done p a = a\<lparr>pa_w := put_obj p ((get_obj (pa_w a) p)\<lparr>done_flag := True\<rparr>) (pa_w a)\<rparr>"

text \<open>One round of the read loop; the flag says whether the loop goes on.\<close>

definition drain_round :: "('o, 'ng) libs \<Rightarrow> sptr \<Rightarrow> ('o, 'ng) pass \<Rightarrow> (bool \<times> ('o, 'ng) pass) option" where
  "drain_round L p a =
    (let w = pa_w a; st = get_obj w p; buf_size = h3_stream_buffer_size (sess_conf (w_se w)) in
     case qstream st of
       None \<Rightarrow> Some (False, set_done p a)
     | Some q \<Rightarrow>
       (case h3q_stream_read (lib_ssl L) (w_ssl w) q
               (if buf_size < bytes_remaining a then buf_size else bytes_remaining a) of
          (s', ok, bs, fin) \<Rightarrow>
            if ok then
              (let w1 = count_read (of_nat (length bs)) (w\<lparr>w_ssl := s'\<rparr>);
                   w2 = upd_se (\<lambda>se. se\<lparr>pending_sid := stream_id st, pending_h3s := Some p\<rparr>) w1
               in case ng_run L (ng_read_stream (lib_ng L) (pa_ng a) (stream_id st) bs False) w2 of
                    None \<Rightarrow> None
                  | Some ((ng3, consumed), w3) \<Rightarrow>
                    (let w4 = upd_se (\<lambda>se. se\<lparr>pending_sid := -1, pending_h3s := None\<rparr>) w3;
                         a1 = a\<lparr>pa_ng := ng3, pa_w := w4, data_read := True,
                                reads_remaining := reads_remaining a - 1,
                                bytes_remaining := bytes_remaining a - of_nat (length bs)\<rparr>
                     in if consumed < 0 then Some (False, set_done p (a1\<lparr>pa_w := mark_ngh3_dead L consumed w4\<rparr>))
                        else if done_flag (get_obj w4 p) then Some (False, a1)
                        else Some (True, a1)))
            else if fin then
              map_option (\<lambda>(ng1, w1). (False, a\<lparr>pa_ng := ng1, pa_w := w1\<rparr>)) (feed_stream_fin L p (pa_ng a, w\<lparr>w_ssl := s'\<rparr>))
            else Some (False, a\<lparr>pa_w := w\<lparr>w_ssl := s'\<rparr>\<rparr>)))"

text \<open>Every round that goes on takes one read of the budget, so the loop is bounded by it.\<close>

fun drain_rounds :: "('o, 'ng) libs \<Rightarrow> sptr \<Rightarrow> nat \<Rightarrow> ('o, 'ng) pass \<Rightarrow> ('o, 'ng) pass option" where
  "drain_rounds L p 0 a = Some a"
| "drain_rounds L p (Suc k) a =
    (if 0 < reads_remaining a \<and> 0 < bytes_remaining a
     then (case drain_round L p a of
             None \<Rightarrow> None
           | Some (True, a') \<Rightarrow> drain_rounds L p k a'
           | Some (False, a') \<Rightarrow> Some a')
     else Some a)"

definition request_ready :: "h3_stream \<Rightarrow> bool" where
  "request_ready st \<longleftrightarrow> is_bidi st \<and> headers_complete st \<and> body_complete st \<and> \<not> dispatched st"

text \<open>The session's read buffer is allocated once and grows with the configured size.\<close>

definition ensure_read_buf :: "'o world \<Rightarrow> 'o world" where
  "ensure_read_buf w = (let buf_size = h3_stream_buffer_size (sess_conf (w_se w)) in
     if stream_read_buf_size (w_se w) < buf_size then upd_se (\<lambda>se. se\<lparr>stream_read_buf_size := buf_size\<rparr>) w else w)"

definition drain_one_stream :: "('o, 'ng) libs \<Rightarrow> sptr \<Rightarrow> ('o, 'ng) pass \<Rightarrow> (bool \<times> ('o, 'ng) pass) option" where
  "drain_one_stream L p a =
    (let w = ensure_read_buf (pa_w a);
         (read_finished, write_finished) =
           (case qstream (get_obj w p) of None \<Rightarrow> (False, False)
            | Some q \<Rightarrow> h3q_stream_is_read_finished (lib_ssl L) (w_ssl w) q)
     in if read_finished then
          (case (if \<not> body_complete (get_obj w p) then feed_stream_fin L p (pa_ng a, w) else Some (pa_ng a, w)) of
             None \<Rightarrow> None
           | Some (ng1, w1) \<Rightarrow>
             (case (if qstream (get_obj w1 p) \<noteq> None \<and> write_finished
                    then ng_run L (ng_close_stream (lib_ng L) ng1 (stream_id (get_obj w1 p))) w1
                    else Some (ng1, w1)) of
                None \<Rightarrow> None
              | Some (ng2, w2) \<Rightarrow> Some (request_ready (get_obj w2 p), a\<lparr>pa_ng := ng2, pa_w := w2\<rparr>)))
        else (case drain_rounds L p (reads_remaining a) (a\<lparr>pa_w := w\<rparr>) of
                None \<Rightarrow> None
              | Some a1 \<Rightarrow> Some (request_ready (get_obj (pa_w a1) p), a1)))"

text \<open>
  The loop over the snapshot, from the cursor on. \<open>offs\<close> are the offsets still to visit and
  \<open>acc\<close> the completed requests found so far.
\<close>

fun drain_streams :: "('o, 'ng) libs \<Rightarrow> sptr list \<Rightarrow> nat \<Rightarrow> nat list \<Rightarrow> sptr list \<Rightarrow> ('o, 'ng) pass \<Rightarrow>
    (sptr list \<times> ('o, 'ng) pass) option" where
  "drain_streams L snap start [] acc a = Some (acc, a)"
| "drain_streams L snap start (off # offs) acc a =
    (if ngh3_dead (w_se (pa_w a)) then Some (acc, a)
     else (let i = (start + off) mod length snap; p = snap ! i; st = get_obj (pa_w a) p in
       if done_flag st \<or> qstream st = None then drain_streams L snap start offs acc a
       else if H3_SID_IS_SERVER (stream_id st) then drain_streams L snap start offs acc a
       else (case drain_one_stream L p a of
          None \<Rightarrow> None
        | Some (ready, a1) \<Rightarrow>
          (let acc' = (if ready \<and> \<not> ngh3_dead (w_se (pa_w a1)) then acc @ [p] else acc) in
           if reads_remaining a1 = 0 \<or> bytes_remaining a1 = 0
           then Some (acc', a1\<lparr>pa_w := upd_se (\<lambda>se. se\<lparr>stream_drain_cursor := (i + 1) mod length snap\<rparr>) (pa_w a1)\<rparr>)
           else drain_streams L snap start offs acc' a1))))"

text \<open>Reclaiming one stream of the snapshot; its pool is destroyed with it.\<close>

definition reclaim_one :: "sptr \<Rightarrow> 'o world \<Rightarrow> 'o world option" where
  "reclaim_one p w =
    (let st = get_obj w p in
     if is_bidi st \<and> \<not> H3_SID_IS_SERVER (stream_id st) \<and>
        done_flag st \<and> qstream st = None \<and> dispatched st \<and> worker_done st
     then (let w1 = (if write_blocked st
                     then upd_se (\<lambda>se. se\<lparr>blocked_streams := blocked_streams se - 1\<rparr>)
                            (put_obj p (st\<lparr>write_blocked := False\<rparr>) w) else w);
               w2 = upd_se (\<lambda>se. se\<lparr>streams := (streams se)(stream_id st := None)\<rparr>) w1
           in map_option (\<lambda>(h, st'). (put_heap p h (put_obj p st' w2))\<lparr>w_reclaimed := w_reclaimed w2 @ [p]\<rparr>)
                (h3_stream_response_cleanup_locked (w_heaps w2 p) (get_obj w2 p)))
     else Some w)"

fun reclaim_all :: "sptr list \<Rightarrow> 'o world \<Rightarrow> 'o world option" where
  "reclaim_all [] w = Some w"
| "reclaim_all (p # ps) w = Option.bind (reclaim_one p w) (reclaim_all ps)"

text \<open>The snapshot, with the guard against an iteration that does not end.\<close>

definition take_snapshot :: "('o, 'ng) libs \<Rightarrow> 'o world \<Rightarrow> sptr list \<times> 'o world" where
  "take_snapshot L w =
    (let total = lib_hash_count L (streams (w_se w)); sids = lib_hash_order L (streams (w_se w)) in
     if length sids > total + 100
     then (List.map_filter (streams (w_se w)) (take (total + 100) sids), upd_se (\<lambda>se. se\<lparr>aborted := True\<rparr>) w)
     else (hash_values L (w_se w), w))"

definition drain_ready_streams :: "('o, 'ng) libs \<Rightarrow> 'ng \<times> 'o world \<Rightarrow> (sptr list \<times> ('o, 'ng) pass) option" where
  "drain_ready_streams L s =
    (case take_snapshot L (snd s) of (snap, w) \<Rightarrow>
      (let start = (if snap \<noteq> [] then stream_drain_cursor (w_se w) mod length snap else 0);
           a = \<lparr>pa_ng = fst s, pa_w = w, data_read = False, reads_remaining = H3_STREAM_DRAIN_READ_BUDGET,
                bytes_remaining = H3_STREAM_DRAIN_BYTE_BUDGET\<rparr>
       in case drain_streams L snap start [0..<length snap] [] a of
            None \<Rightarrow> None
          | Some (completed, a1) \<Rightarrow>
            map_option (\<lambda>w'. (completed, a1\<lparr>pa_w := w'\<rparr>)) (reclaim_all snap (pa_w a1))))"

section \<open>What the libraries promise\<close>

text \<open>
  nghttp3 keeps track of what it was handed and of what it offered to send. \<open>R ng offer w\<close>
  says that its state \<open>ng\<close> agrees with the response queues in \<open>w\<close>, with the stream and the
  number of bytes last offered by \<^verbatim>\<open>writev_stream\<close>. The agreement does not depend on anything
  but the user pointers and the response queues.
\<close>

type_synonym ('o, 'ng) agree = "'ng \<Rightarrow> (int \<times> nat) option \<Rightarrow> 'o world \<Rightarrow> bool"

definition resp_same :: "h3_stream \<Rightarrow> h3_stream \<Rightarrow> bool" where
  "resp_same st st' \<longleftrightarrow> response_head st' = response_head st \<and> response_tail st' = response_tail st \<and>
     response_submit_chunk st' = response_submit_chunk st \<and> response_submit_offset st' = response_submit_offset st \<and>
     response_buffered st' = response_buffered st \<and> response_buffer_limit st' = response_buffer_limit st"

definition queues_kept :: "'o world \<Rightarrow> 'o world \<Rightarrow> bool" where
  "queues_kept w w' \<longleftrightarrow> w_user w' = w_user w \<and>
     (\<forall>p < length (objs (w_se w)). p < length (objs (w_se w')) \<and>
        (w_heaps w' p = w_heaps w p \<and> resp_same (objs (w_se w) ! p) (objs (w_se w') ! p) \<or>
         resp_blank (objs (w_se w') ! p)))"

definition tree_ok :: "('o, 'ng) libs \<Rightarrow> (ng_call, ng_ans, 'a) itree \<Rightarrow> 'o world \<Rightarrow> ('a \<Rightarrow> 'o world \<Rightarrow> bool) \<Rightarrow> bool" where
  "tree_ok L t w post \<longleftrightarrow> behaves (ng_step (lib_ssl L) (lib_palloc L)) ng_allowed t (Some w) \<and>
     (\<forall>a w'. ng_run L t w = Some (a, w') \<longrightarrow> post a w')"

fun writev_agrees :: "('o, 'ng) agree \<Rightarrow> 'ng \<times> writev_ret \<Rightarrow> 'o world \<Rightarrow> bool" where
  "writev_agrees R (ng, Writev_error e) w = R ng None w"
| "writev_agrees R (ng, Writev sid fin vecs) w = (length (concat vecs) < 2 ^ 64 \<and> R ng (Some (sid, length (concat vecs))) w)"

definition ng_law :: "('o, 'ng) libs \<Rightarrow> ('o, 'ng) agree \<Rightarrow> bool" where
  "ng_law L R \<longleftrightarrow>
     (\<forall>ng w. world_inv w \<longrightarrow> R ng None w \<longrightarrow> tree_ok L (ng_writev_stream (lib_ng L) ng) w (writev_agrees R)) \<and>
     (\<forall>ng w sid t n. world_inv w \<longrightarrow> R ng (Some (sid, t)) w \<longrightarrow> unat n \<le> t \<longrightarrow>
        tree_ok L (ng_add_ack_offset (lib_ng L) (ng_add_write_offset (lib_ng L) ng sid n) sid n) w (\<lambda>ng' w'. R ng' None w')) \<and>
     (\<forall>ng w sid bs fin. world_inv w \<longrightarrow> R ng None w \<longrightarrow> length bs < 2 ^ 63 \<longrightarrow>
        tree_ok L (ng_read_stream (lib_ng L) ng sid bs fin) w (\<lambda>(ng', c) w'. R ng' None w')) \<and>
     (\<forall>ng w sid. world_inv w \<longrightarrow> R ng None w \<longrightarrow>
        tree_ok L (ng_close_stream (lib_ng L) ng sid) w (\<lambda>ng' w'. R ng' None w')) \<and>
     (\<forall>ng w sid. R ng None w \<longrightarrow> R (ng_block_stream (lib_ng L) ng sid) None w \<and> R (ng_unblock_stream (lib_ng L) ng sid) None w) \<and>
     (\<forall>ng ofr w w'. R ng ofr w \<longrightarrow> queues_kept w w' \<longrightarrow> R ng ofr w') \<and>
     (\<forall>ng ofr w. R ng ofr w \<longrightarrow> R ng None w)"

definition ssl_read_law :: "'o openssl \<Rightarrow> bool" where
  "ssl_read_law ssl \<longleftrightarrow> (\<forall>s q n s' rv bs. SSL_read_ex ssl s q n = (s', rv, bs) \<longrightarrow> length bs \<le> unat n)"

definition libs_law :: "('o, 'ng) libs \<Rightarrow> ('o, 'ng) agree \<Rightarrow> ('o \<Rightarrow> qstream \<Rightarrow> byte list) \<Rightarrow> bool" where
  "libs_law L R sent \<longleftrightarrow> ng_law L R \<and> palloc_law (lib_palloc L) \<and> ssl_write_law (lib_ssl L) sent \<and>
     ssl_read_law (lib_ssl L) \<and>
     (\<forall>m. finite (dom m) \<longrightarrow> distinct (lib_hash_order L m) \<and> set (lib_hash_order L m) = dom m \<and>
          lib_hash_count L m = card (dom m))"

lemma libs_lawD:
  assumes "libs_law L R sent"
  shows "ng_law L R" and "palloc_law (lib_palloc L)" and "ssl_write_law (lib_ssl L) sent" and "ssl_read_law (lib_ssl L)"
    and "finite (dom m) \<Longrightarrow> distinct (lib_hash_order L m)"
    and "finite (dom m) \<Longrightarrow> set (lib_hash_order L m) = dom m"
    and "finite (dom m) \<Longrightarrow> lib_hash_count L m = card (dom m)"
  using assms by (simp_all add: libs_law_def)

lemma ng_lawD:
  assumes "ng_law L R"
  shows "world_inv w \<Longrightarrow> R ng None w \<Longrightarrow> tree_ok L (ng_writev_stream (lib_ng L) ng) w (writev_agrees R)"
    and "world_inv w \<Longrightarrow> R ng (Some (sid, t)) w \<Longrightarrow> unat n \<le> t \<Longrightarrow>
        tree_ok L (ng_add_ack_offset (lib_ng L) (ng_add_write_offset (lib_ng L) ng sid n) sid n) w (\<lambda>ng' w'. R ng' None w')"
    and "world_inv w \<Longrightarrow> R ng None w \<Longrightarrow> length bs < 2 ^ 63 \<Longrightarrow>
        tree_ok L (ng_read_stream (lib_ng L) ng sid bs fin) w (\<lambda>(ng', c) w'. R ng' None w')"
    and "world_inv w \<Longrightarrow> R ng None w \<Longrightarrow> tree_ok L (ng_close_stream (lib_ng L) ng sid) w (\<lambda>ng' w'. R ng' None w')"
    and "R ng None w \<Longrightarrow> R (ng_block_stream (lib_ng L) ng sid) None w"
    and "R ng None w \<Longrightarrow> R (ng_unblock_stream (lib_ng L) ng sid) None w"
    and "R ng ofr w \<Longrightarrow> queues_kept w w' \<Longrightarrow> R ng ofr w'"
    and "R ng ofr w \<Longrightarrow> R ng None w"
  using assms by (simp_all add: ng_law_def)

section \<open>Steps of the event thread\<close>

text \<open>What the event thread leaves alone while it flushes and drains.\<close>

definition same_role :: "h3_stream \<Rightarrow> h3_stream \<Rightarrow> bool" where
  "same_role st st' \<longleftrightarrow> stream_id st' = stream_id st \<and> is_bidi st' = is_bidi st \<and>
     dispatched st' = dispatched st \<and> worker_done st' = worker_done st \<and>
     (headers_complete st \<longrightarrow> headers_complete st') \<and> (body_complete st \<longrightarrow> body_complete st')"

definition evt_frame :: "'o world \<Rightarrow> 'o world \<Rightarrow> bool" where
  "evt_frame w w' \<longleftrightarrow> (let se = w_se w; se' = w_se w' in
     length (objs se') = length (objs se) \<and> streams se' = streams se \<and> sess_conf se' = sess_conf se \<and>
     ngh3 se' = ngh3 se \<and> qconn se' = qconn se \<and> control_streams_created se' = control_streams_created se \<and>
     aborted se' = aborted se \<and> active_tasks se' = active_tasks se \<and> goaway_deadline se' = goaway_deadline se \<and>
     held w' = held w \<and> w_reclaimed w' = w_reclaimed w \<and> (ngh3_dead se \<longrightarrow> ngh3_dead se') \<and>
     (\<forall>p < length (objs se). same_role (objs se ! p) (objs se' ! p)))"

lemma evt_frame_refl [simp]: "evt_frame w w"
  by (simp add: evt_frame_def same_role_def Let_def)

lemma evt_frame_trans: "evt_frame a b \<Longrightarrow> evt_frame b c \<Longrightarrow> evt_frame a c"
  by (simp add: evt_frame_def same_role_def Let_def)

lemma evt_frame_cb: "cb_frame w w' \<Longrightarrow> evt_frame w w'"
  by (simp add: evt_frame_def cb_frame_def same_role_def quiet_update_def Let_def)

lemma resp_same_refl [simp]: "resp_same st st"
  by (simp add: resp_same_def)

lemma queues_kept_refl [simp]: "queues_kept w w"
  by (simp add: queues_kept_def)

lemma queues_kept_same:
  assumes "w_user w' = w_user w" and "w_heaps w' = w_heaps w" and "length (objs (w_se w')) = length (objs (w_se w))"
    and "\<And>p. p < length (objs (w_se w)) \<Longrightarrow> resp_same (objs (w_se w) ! p) (objs (w_se w') ! p)"
  shows "queues_kept w w'"
  using assms by (simp add: queues_kept_def)

text \<open>Invariant and agreement together, as every step of the event thread keeps them.\<close>

definition evt_ok :: "('o, 'ng) agree \<Rightarrow> 'ng \<Rightarrow> 'o world \<Rightarrow> bool" where
  "evt_ok R ng w \<longleftrightarrow> world_inv w \<and> R ng None w"

lemma ng_run_ok:
  assumes "palloc_law (lib_palloc L)" and "world_inv w" and "tree_ok L t w post"
  obtains a w' where "ng_run L t w = Some (a, w')" and "world_inv w'" and "cb_frame w w'" and "post a w'"
proof -
  have b: "behaves (ng_step (lib_ssl L) (lib_palloc L)) ng_allowed t (Some w)"
    using assms(3) by (simp add: tree_ok_def)
  obtain a w' where r: "run_itree (ng_step (lib_ssl L) (lib_palloc L)) t (Some w) = (a, Some w')"
      "world_inv w'" "cb_frame w w'"
    by (rule ng_call_keeps [OF assms(2,1) b])
  then have "ng_run L t w = Some (a, w')" by (simp add: ng_run_def)
  moreover from this have "post a w'" using assms(3) by (simp add: tree_ok_def)
  ultimately show thesis using r that by blast
qed

text \<open>A change of the world that leaves identities alone.\<close>

lemma world_inv_mod:
  assumes inv: "world_inv w" and "sess_conf (w_se w') = sess_conf (w_se w)"
    and sm: "streams (w_se w') \<subseteq>\<^sub>m streams (w_se w)" and "w_user w' = w_user w"
    and "\<And>p. pending_h3s (w_se w') = Some p \<Longrightarrow>
      p < length (objs (w_se w)) \<and> stream_id (objs (w_se w) ! p) = pending_sid (w_se w')"
    and ln: "length (objs (w_se w')) = length (objs (w_se w))"
    and id: "\<And>p. p < length (objs (w_se w)) \<Longrightarrow> stream_id (objs (w_se w') ! p) = stream_id (objs (w_se w) ! p)"
    and "\<And>p. p < length (objs (w_se w)) \<Longrightarrow>
      stream_ok (h3_max_request_body_size (sess_conf (w_se w))) (w_heaps w' p) (objs (w_se w') ! p)"
    and "\<And>p. length (objs (w_se w)) \<le> p \<Longrightarrow> w_heaps w' p = []"
    and "distinct (handles (w_se w') @ pending_free (w_se w') @ w_freed w')"
    and "blocked_streams (w_se w') = int (card (blocked_set (w_se w')))"
  shows "world_inv w'"
proof (rule world_invI)
  have dm: "dom (streams (w_se w')) \<subseteq> dom (streams (w_se w))" using sm by (rule map_le_implies_dom_le)
  then show "finite (dom (streams (w_se w')))" using world_invD(2) [OF inv] by (rule finite_subset)
  show "p < length (objs (w_se w')) \<and> stream_id (objs (w_se w') ! p) = sid" if "streams (w_se w') sid = Some p" for sid p
  proof -
    have "streams (w_se w) sid = Some p" using sm that by (auto simp: map_le_def dest!: bspec [of _ _ sid])
    then show ?thesis using world_invD(3) [OF inv, of sid p] ln id by auto
  qed
  show "p < length (objs (w_se w')) \<and> stream_id (objs (w_se w') ! p) = sid" if "w_user w' sid = Some p" for sid p
    using world_invD(4) [OF inv, of sid p] that assms(4) ln id by auto
  show "p < length (objs (w_se w')) \<and> stream_id (objs (w_se w') ! p) = pending_sid (w_se w')"
    if "pending_h3s (w_se w') = Some p" for p
    using assms(5) [OF that] ln id by auto
qed (use assms world_invD(1) [OF inv] in \<open>simp_all add: ln\<close>)

lemma finite_blocked_set: "world_inv w \<Longrightarrow> finite (blocked_set (w_se w))"
  using world_invD(2) [of w] by (simp add: blocked_set_def finite_ran)

subsection \<open>Blocking and unblocking\<close>

text \<open>The write-blocked mark of one tracked stream and the session's count change together.\<close>

lemma card_toggle:
  assumes "finite B"
  shows "int (card (if b then insert p B else B - {p})) = int (card B) + (if b then 1 else 0) - (if p \<in> B then 1 else 0)"
proof (cases "p \<in> B")
  case True
  with assms have "card B = Suc (card (B - {p}))" by (rule card.remove)
  then show ?thesis using True by (cases b) (simp_all add: insert_absorb)
next
  case False
  then show ?thesis using assms by (cases b) simp_all
qed

lemma set_blocked_ok:
  assumes inv: "world_inv w" and p: "p \<in> ran (streams (w_se w))"
    and k: "blocked_streams (w_se w) + (if b then 1 else 0) - (if write_blocked (get_obj w p) then 1 else 0) = k"
  defines "w' \<equiv> (put_obj p ((get_obj w p)\<lparr>write_blocked := b\<rparr>) w)\<lparr>w_se := (w_se (put_obj p ((get_obj w p)\<lparr>write_blocked := b\<rparr>) w))\<lparr>blocked_streams := k\<rparr>\<rparr>"
  shows "world_inv w'" and "queues_kept w w'" and "evt_frame w w'"
proof -
  from p obtain sid where "streams (w_se w) sid = Some p" by (auto simp: ran_def)
  then have pl: "p < length (objs (w_se w))" using world_invD(3) [OF inv] by blast
  have o: "objs (w_se w') = (objs (w_se w))[p := (get_obj w p)\<lparr>write_blocked := b\<rparr>]" by (simp add: w'_def)
  have rest: "sess_conf (w_se w') = sess_conf (w_se w)" "streams (w_se w') = streams (w_se w)" "w_user w' = w_user w"
    "pending_h3s (w_se w') = pending_h3s (w_se w)" "pending_sid (w_se w') = pending_sid (w_se w)"
    "w_heaps w' = w_heaps w" "pending_free (w_se w') = pending_free (w_se w)" "w_freed w' = w_freed w" "w_reclaimed w' = w_reclaimed w"
    "blocked_streams (w_se w') = k" "ngh3 (w_se w') = ngh3 (w_se w)" "qconn (w_se w') = qconn (w_se w)"
    "ngh3_dead (w_se w') = ngh3_dead (w_se w)" "aborted (w_se w') = aborted (w_se w)"
    "control_streams_created (w_se w') = control_streams_created (w_se w)" "active_tasks (w_se w') = active_tasks (w_se w)"
    "goaway_deadline (w_se w') = goaway_deadline (w_se w)"
    by (simp_all add: w'_def)
  have h: "handles (w_se w') = handles (w_se w)"
    unfolding handles_def o using pl by (intro map_filter_update_same) (simp_all add: get_obj_def)
  have wb: "write_blocked (objs (w_se w') ! i) = (if i = p then b else write_blocked (objs (w_se w) ! i))"
    if "i < length (objs (w_se w))" for i using that by (simp add: o)
  have lt: "i < length (objs (w_se w))" if "i \<in> ran (streams (w_se w))" for i
  proof -
    from that obtain sid where "streams (w_se w) sid = Some i" unfolding ran_def by blast
    then show ?thesis using world_invD(3) [OF inv] by blast
  qed
  have bs: "blocked_set (w_se w') = (if b then insert p (blocked_set (w_se w)) else blocked_set (w_se w) - {p})"
  proof (rule set_eqI)
    fix i
    show "i \<in> blocked_set (w_se w') \<longleftrightarrow>
        i \<in> (if b then insert p (blocked_set (w_se w)) else blocked_set (w_se w) - {p})"
    proof (cases "i \<in> ran (streams (w_se w))")
      case True
      then show ?thesis using wb [OF lt [OF True]] by (simp add: blocked_set_def rest)
    next
      case False
      then show ?thesis using p by (auto simp: blocked_set_def rest)
    qed
  qed
  have fin: "finite (blocked_set (w_se w))" by (rule finite_blocked_set [OF inv])
  have mem: "p \<in> blocked_set (w_se w) \<longleftrightarrow> write_blocked (get_obj w p)"
    using p by (simp add: blocked_set_def get_obj_def)
  have c: "k = int (card (blocked_set (w_se w')))"
    unfolding bs card_toggle [OF fin] mem world_invD(9) [OF inv, symmetric] by (rule k [symmetric])
  have st: "stream_ok (h3_max_request_body_size (sess_conf (w_se w))) (w_heaps w' i) (objs (w_se w') ! i)"
    if "i < length (objs (w_se w))" for i
    using world_invD(7) [OF inv that] that by (cases "i = p") (simp_all add: o rest get_obj_def)
  have id: "stream_id (objs (w_se w') ! i) = stream_id (objs (w_se w) ! i)" if "i < length (objs (w_se w))" for i
    using that by (cases "i = p") (simp_all add: o get_obj_def)
  show "world_inv w'"
  proof (rule world_inv_mod [OF inv])
    show "p < length (objs (w_se w)) \<and> stream_id (objs (w_se w) ! p) = pending_sid (w_se w')"
      if "pending_h3s (w_se w') = Some p" for p
      using world_invD(5) [OF inv, of p] that by (simp add: rest)
    show "distinct (handles (w_se w') @ pending_free (w_se w') @ w_freed w')"
      using world_invD(6) [OF inv] by (simp only: rest h)
    show "w_heaps w' i = []" if "length (objs (w_se w)) \<le> i" for i
      using world_invD(8) [OF inv that] by (simp only: rest)
    show "blocked_streams (w_se w') = int (card (blocked_set (w_se w')))" using c by (simp only: rest)
  qed (use st id in \<open>simp_all add: rest o\<close>)
  show "queues_kept w w'"
  proof (rule queues_kept_same)
    show "resp_same (objs (w_se w) ! i) (objs (w_se w') ! i)" if "i < length (objs (w_se w))" for i
      using that by (cases "i = p") (simp_all add: o get_obj_def resp_same_def)
  qed (simp_all add: rest o)
  have "same_role (objs (w_se w) ! i) (objs (w_se w') ! i)" if "i < length (objs (w_se w))" for i
    using that by (cases "i = p") (simp_all add: o get_obj_def same_role_def)
  then show "evt_frame w w'" using h by (simp add: evt_frame_def Let_def rest o held_def)
qed

definition evt_keeps :: "('o, 'ng) agree \<Rightarrow> 'o world \<Rightarrow> 'ng \<times> 'o world \<Rightarrow> bool" where
  "evt_keeps R w s \<longleftrightarrow> evt_ok R (fst s) (snd s) \<and> evt_frame w (snd s)"

lemma unblock_one_keeps:
  assumes law: "ng_law L R" and ok: "evt_ok R ng w" and p: "p \<in> ran (streams (w_se w))"
  shows "evt_keeps R w (unblock_one L p (ng, w))"
proof (cases "write_blocked (get_obj w p) \<and>
    \<not> (qstream (get_obj w p) \<noteq> None \<and> h3q_stream_is_write_blocked (lib_ssl L) (w_ssl w) (qstream (get_obj w p)))")
  case False
  then show ?thesis using ok by (auto simp: unblock_one_def evt_keeps_def Let_def)
next
  case True
  note s = set_blocked_ok [of w p False "blocked_streams (w_se w) - 1"]
  have i: "world_inv w" "R ng None w" using ok by (simp_all add: evt_ok_def)
  show ?thesis
    using True s [OF i(1) p] ng_lawD(7) [OF law i(2)] ng_lawD(6) [OF law]
    by (auto simp: unblock_one_def evt_keeps_def evt_ok_def Let_def)
qed

lemma fold_unblock_keeps:
  assumes law: "ng_law L R"
  shows "evt_ok R ng w \<Longrightarrow> set ps \<subseteq> ran (streams (w_se w)) \<Longrightarrow> evt_keeps R w (fold (unblock_one L) ps (ng, w))"
proof (induction ps arbitrary: ng w)
  case Nil
  then show ?case by (simp add: evt_keeps_def)
next
  case (Cons p ps)
  obtain ng1 w1 where u: "unblock_one L p (ng, w) = (ng1, w1)" by fastforce
  have k: "evt_ok R ng1 w1" "evt_frame w w1"
    using unblock_one_keeps [OF law Cons.prems(1), of p] Cons.prems(2) u by (auto simp: evt_keeps_def)
  have "streams (w_se w1) = streams (w_se w)" using k(2) by (simp add: evt_frame_def Let_def)
  with Cons.IH [OF k(1)] Cons.prems(2) have "evt_keeps R w1 (fold (unblock_one L) ps (ng1, w1))" by simp
  with u k(2) show ?case by (auto simp: evt_keeps_def intro: evt_frame_trans)
qed

lemma hash_values_ran:
  "set (hash_values L se) \<subseteq> ran (streams se)"
  by (auto simp: hash_values_def ran_def List.map_filter_def)

lemma unblock_writable_keeps:
  assumes "ng_law L R" and "evt_ok R ng w"
  shows "evt_keeps R w (unblock_writable_streams L (ng, w))"
  using fold_unblock_keeps [OF assms hash_values_ran [of L]] assms(2)
  by (simp add: unblock_writable_streams_def evt_keeps_def)

subsection \<open>Flushing\<close>

lemma mark_dead_keeps:
  assumes "ng_law L R" and "evt_ok R ng w"
  shows "evt_keeps R w (ng, mark_ngh3_dead L e w)"
proof -
  have "world_inv (mark_ngh3_dead L e w)"
    using assms(2) unfolding evt_ok_def world_inv_def by (simp add: mark_ngh3_dead_def Let_def handles_def blocked_set_def)
  moreover have "queues_kept w (mark_ngh3_dead L e w)" by (simp add: queues_kept_def mark_ngh3_dead_def)
  moreover have "evt_frame w (mark_ngh3_dead L e w)"
    by (simp add: evt_frame_def mark_ngh3_dead_def same_role_def Let_def held_def handles_def)
  ultimately show ?thesis using assms ng_lawD(7) [OF assms(1)] by (auto simp: evt_keeps_def evt_ok_def)
qed

lemma world_se_ssl:
  "queues_kept w (w\<lparr>w_ssl := s\<rparr>)" "evt_frame w (w\<lparr>w_ssl := s\<rparr>)"
  "queues_kept w (count_written n w)" "evt_frame w (count_written n w)" "world_inv (count_written n w) = world_inv w"
  "queues_kept w (count_read n w)" "evt_frame w (count_read n w)" "world_inv (count_read n w) = world_inv w"
  by (simp_all add: queues_kept_def evt_frame_def same_role_def Let_def count_written_def count_read_def)

lemma advance_offsets_keeps:
  assumes law: "libs_law L R sent" and inv: "world_inv w" and r: "R ng (Some (sid, t)) w" and n: "unat n \<le> t"
  obtains s' where "advance_offsets L sid n (ng, w) = Some s'" and "evt_keeps R w s'"
proof -
  note N = libs_lawD(1) [OF law]
  obtain ng' w' where "ng_run L (ng_add_ack_offset (lib_ng L) (ng_add_write_offset (lib_ng L) ng sid n) sid n) w = Some (ng', w')"
      "world_inv w'" "cb_frame w w'" "R ng' None w'"
    by (rule ng_run_ok [OF libs_lawD(2) [OF law] inv ng_lawD(2) [OF N inv r n]])
  then show thesis
    by (intro that [of "(ng', w')"]) (auto simp: advance_offsets_def evt_keeps_def evt_ok_def evt_frame_cb)
qed

lemma block_stream_keeps:
  assumes law: "ng_law L R" and ok: "evt_ok R ng w" and p: "p \<in> ran (streams (w_se w))"
  shows "evt_keeps R w (block_stream L p sid (ng, w))"
proof (cases "write_blocked (get_obj w p)")
  case True
  then show ?thesis using ok by (simp add: block_stream_def evt_keeps_def)
next
  case False
  have i: "world_inv w" "R ng None w" using ok by (simp_all add: evt_ok_def)
  note s = set_blocked_ok [OF i(1) p, of True "blocked_streams (w_se w) + 1"]
  show ?thesis
    using False s ng_lawD(7) [OF law i(2)] ng_lawD(5) [OF law]
    by (auto simp: block_stream_def evt_keeps_def evt_ok_def)
qed

lemma stream_write_accepted:
  assumes "ssl_write_law ssl sent" and "length (concat vs) < 2 ^ 64" and "h3q_stream_write ssl s q vs fin = (s', res)"
  shows "unat (accepted res) \<le> length (concat vs)"
    and "\<not> blocked res \<Longrightarrow> \<not> broken res \<Longrightarrow> unat (accepted res) = length (concat vs)"
proof -
  obtain s1 r1 where w: "write_vecs ssl s q vs \<lparr>accepted = 0, blocked = False, broken = False\<rparr> = (s1, r1)" by fastforce
  then have "res = r1" using assms(3) by (simp add: h3q_stream_write_def)
  with write_vecs_sent [OF assms(1) w] assms(2) show "unat (accepted res) \<le> length (concat vs)"
    and "\<not> blocked res \<Longrightarrow> \<not> broken res \<Longrightarrow> unat (accepted res) = length (concat vs)" by auto
qed

lemma evt_keeps_step: "evt_frame w w1 \<Longrightarrow> evt_keeps R w1 s \<Longrightarrow> evt_keeps R w s"
  by (auto simp: evt_keeps_def intro: evt_frame_trans)

lemma find_ran: "h3_stream_find se sid = Some p \<Longrightarrow> p \<in> ran (streams se)"
  by (auto simp: h3_stream_find_def ran_def)

lemma flush_round_keeps:
  assumes law: "libs_law L R sent" and ok: "evt_ok R ng w"
  shows "\<exists>go s'. flush_round L (ng, w) = Some (go, s') \<and> evt_keeps R w s'"
proof -
  note N = libs_lawD(1) [OF law]
  have i: "world_inv w" "R ng None w" using ok by (simp_all add: evt_ok_def)
  obtain a w1 where r: "ng_run L (ng_writev_stream (lib_ng L) ng) w = Some (a, w1)"
      "world_inv w1" "cb_frame w w1" "writev_agrees R a w1"
    by (rule ng_run_ok [OF libs_lawD(2) [OF law] i(1) ng_lawD(1) [OF N i]])
  have f1: "evt_frame w w1" by (rule evt_frame_cb [OF r(3)])
  obtain ng1 ret where a: "a = (ng1, ret)" by fastforce
  show ?thesis
  proof (cases ret)
    case (Writev_error e)
    then have "evt_ok R ng1 w1" using r a by (simp add: evt_ok_def)
    from evt_keeps_step [OF f1 mark_dead_keeps [OF N this]] r a Writev_error show ?thesis
      by (auto simp: flush_round_def)
  next
    case (Writev sid fin vecs)
    have len: "length (concat vecs) < 2 ^ 64" and R1: "R ng1 (Some (sid, length (concat vecs))) w1"
      using r(4) a Writev by simp_all
    have un: "unat (vec_total vecs) \<le> length (concat vecs)"
      using len by (simp add: vec_total_length unat_of_nat_64)
    show ?thesis
    proof (cases "vecs = [] \<and> sid < 0")
      case True
      then show ?thesis using r a Writev f1 ng_lawD(8) [OF N R1]
        by (auto simp: flush_round_def evt_keeps_def evt_ok_def)
    next
      case go: False
      define found where "found = (case h3_stream_find (w_se w1) sid of None \<Rightarrow> None
          | Some p \<Rightarrow> map_option (Pair p) (qstream (get_obj w1 p)))"
      show ?thesis
      proof (cases found)
        case None
        obtain s' where s': "advance_offsets L sid (vec_total vecs) (ng1, w1) = Some s'" "evt_keeps R w1 s'"
          by (rule advance_offsets_keeps [OF law r(2) R1 un])
        have "flush_round L (ng, w) = Some (True, s')"
          using r(1) a Writev go None s'(1) by (auto simp: flush_round_def Let_def found_def [symmetric])
        then show ?thesis using evt_keeps_step [OF f1 s'(2)] by blast
      next
        case (Some pq)
        then obtain p q where pq: "pq = (p, q)" "h3_stream_find (w_se w1) sid = Some p"
          by (auto simp: found_def split: option.splits)
        obtain so res where wr: "h3q_stream_write (lib_ssl L) (w_ssl w1) q vecs fin = (so, res)" by fastforce
        have acc: "unat (accepted res) \<le> length (concat vecs)"
          by (rule stream_write_accepted(1) [OF libs_lawD(3) [OF law] len wr])
        define w2 where "w2 = count_written (accepted res) (w1\<lparr>w_ssl := so\<rparr>)"
        have q2: "queues_kept w1 w2" "evt_frame w1 w2" "world_inv w2" "streams (w_se w2) = streams (w_se w1)"
          using r(2) by (simp_all add: w2_def count_written_def queues_kept_def evt_frame_def same_role_def Let_def)
        have R2: "R ng1 (Some (sid, length (concat vecs))) w2" by (rule ng_lawD(7) [OF N R1 q2(1)])
        have f2: "evt_frame w w2" by (rule evt_frame_trans [OF f1 q2(2)])
        have body: "flush_round L (ng, w) =
            (if broken res then map_option (Pair True) (advance_offsets L sid (vec_total vecs) (ng1, w2))
             else (case advance_offsets L sid (accepted res) (ng1, w2) of None \<Rightarrow> None
                   | Some s3 \<Rightarrow> Some (True, if blocked res then block_stream L p sid s3 else s3)))"
          using r(1) a Writev go Some pq(1) wr by (auto simp: flush_round_def Let_def found_def [symmetric] w2_def)
        show ?thesis
        proof (cases "broken res")
          case True
          obtain s' where s': "advance_offsets L sid (vec_total vecs) (ng1, w2) = Some s'" "evt_keeps R w2 s'"
            by (rule advance_offsets_keeps [OF law q2(3) R2 un])
          then show ?thesis using body True evt_keeps_step [OF f2 s'(2)] by auto
        next
          case False
          obtain s3 where s3: "advance_offsets L sid (accepted res) (ng1, w2) = Some s3" "evt_keeps R w2 s3"
            by (rule advance_offsets_keeps [OF law q2(3) R2 acc])
          obtain ng3 w3 where s3': "s3 = (ng3, w3)" by fastforce
          have k3: "evt_ok R ng3 w3" "evt_frame w2 w3" using s3 s3' by (simp_all add: evt_keeps_def)
          have f3: "evt_frame w w3" by (rule evt_frame_trans [OF f2 k3(2)])
          have p3: "p \<in> ran (streams (w_se w3))"
            using k3(2) q2(4) find_ran [OF pq(2)] by (simp add: evt_frame_def Let_def)
          have "evt_keeps R w (block_stream L p sid (ng3, w3))"
            by (rule evt_keeps_step [OF f3 block_stream_keeps [OF N k3(1) p3]])
          moreover have "evt_keeps R w (ng3, w3)" using k3(1) f3 by (simp add: evt_keeps_def)
          ultimately show ?thesis using body False s3(1) s3' by auto
        qed
      qed
    qed
  qed
qed

lemma flush_loop_keeps:
  assumes law: "libs_law L R sent"
  shows "evt_ok R ng w \<Longrightarrow> flush_loop L fuel (ng, w) \<noteq> Undefined \<and>
    (\<forall>s'. flush_loop L fuel (ng, w) = Done s' \<longrightarrow> evt_keeps R w s')"
proof (induction fuel arbitrary: ng w)
  case 0
  then show ?case by simp
next
  case (Suc k)
  from flush_round_keeps [OF law Suc.prems] obtain go ng1 w1 where
    r: "flush_round L (ng, w) = Some (go, ng1, w1)" "evt_keeps R w (ng1, w1)" by auto
  have k: "evt_ok R ng1 w1" "evt_frame w w1" using r(2) by (simp_all add: evt_keeps_def)
  show ?case
  proof (cases go)
    case True
    with Suc.IH [OF k(1)] r(1) k(2) show ?thesis by (auto intro: evt_keeps_step)
  next
    case False
    with r show ?thesis by simp
  qed
qed

lemma free_pending_keeps:
  assumes law: "ng_law L R" and ok: "evt_ok R ng w"
  shows "evt_keeps R w (ng, free_pending L w)" and "pending_free (w_se (free_pending L w)) = []"
proof -
  let ?w = "free_pending L w"
  have i: "world_inv w" "R ng None w" using ok by (simp_all add: evt_ok_def)
  have m: "mset (handles (w_se ?w) @ pending_free (w_se ?w) @ w_freed ?w) =
      mset (handles (w_se w) @ pending_free (w_se w) @ w_freed w)"
    by (simp add: free_pending_def Let_def handles_def)
  have d: "distinct (handles (w_se ?w) @ pending_free (w_se ?w) @ w_freed ?w)"
    using mset_eq_imp_distinct_iff [OF m] world_invD(6) [OF i(1)] by blast
  have hd: "held ?w = held w" unfolding held_def using mset_eq_setD [OF m] by simp
  have rest: "sess_conf (w_se ?w) = sess_conf (w_se w)" "streams (w_se ?w) = streams (w_se w)" "w_user ?w = w_user w"
    "objs (w_se ?w) = objs (w_se w)" "w_heaps ?w = w_heaps w"
    "pending_h3s (w_se ?w) = pending_h3s (w_se w)" "pending_sid (w_se ?w) = pending_sid (w_se w)"
    "blocked_streams (w_se ?w) = blocked_streams (w_se w)" "blocked_set (w_se ?w) = blocked_set (w_se w)"
    by (simp_all add: free_pending_def Let_def blocked_set_def)
  have "world_inv ?w"
  proof (rule world_inv_mod [OF i(1)])
    show "p < length (objs (w_se w)) \<and> stream_id (objs (w_se w) ! p) = pending_sid (w_se ?w)"
      if "pending_h3s (w_se ?w) = Some p" for p
      using world_invD(5) [OF i(1), of p] that by (simp add: rest)
    show "stream_ok (h3_max_request_body_size (sess_conf (w_se w))) (w_heaps ?w p) (objs (w_se ?w) ! p)"
      if "p < length (objs (w_se w))" for p using world_invD(7) [OF i(1) that] by (simp only: rest)
    show "w_heaps ?w p = []" if "length (objs (w_se w)) \<le> p" for p
      using world_invD(8) [OF i(1) that] by (simp only: rest)
    show "blocked_streams (w_se ?w) = int (card (blocked_set (w_se ?w)))"
      using world_invD(9) [OF i(1)] by (simp only: rest)
  qed (use d in \<open>simp_all add: rest\<close>)
  moreover have "queues_kept w ?w" by (rule queues_kept_same) (simp_all add: rest)
  moreover have "evt_frame w ?w"
    using hd by (simp add: evt_frame_def same_role_def Let_def) (simp add: free_pending_def Let_def)
  ultimately show "evt_keeps R w (ng, ?w)" using ng_lawD(7) [OF law i(2)] by (simp add: evt_keeps_def evt_ok_def)
  show "pending_free (w_se ?w) = []" by (simp add: free_pending_def Let_def)
qed

lemma flush_keeps:
  assumes law: "libs_law L R sent" and ok: "evt_ok R ng w" and "ngh3 (w_se w)"
  shows "flush_nghttp3 L fuel (ng, w) \<noteq> Undefined"
    and "flush_nghttp3 L fuel (ng, w) = Done s' \<Longrightarrow> evt_keeps R w s'"
proof -
  note N = libs_lawD(1) [OF law]
  obtain ng0 w0 where u: "unblock_writable_streams L (ng, w) = (ng0, w0)" by fastforce
  have k0: "evt_ok R ng0 w0" "evt_frame w w0"
    using unblock_writable_keeps [OF N ok] u by (simp_all add: evt_keeps_def)
  note l = flush_loop_keeps [OF law k0(1), of fuel]
  show "flush_nghttp3 L fuel (ng, w) \<noteq> Undefined"
    using l assms(3) u by (auto simp: flush_nghttp3_def split: c_run.splits)
  assume d: "flush_nghttp3 L fuel (ng, w) = Done s'"
  show "evt_keeps R w s'"
  proof (cases "ngh3_dead (w_se w)")
    case True
    then show ?thesis using d ok by (auto simp: flush_nghttp3_def evt_keeps_def)
  next
    case False
    with d assms(3) u obtain ng1 w1 where f: "flush_loop L fuel (ng0, w0) = Done (ng1, w1)" "s' = (ng1, free_pending L w1)"
      by (auto simp: flush_nghttp3_def split: c_run.splits)
    have k1: "evt_ok R ng1 w1" "evt_frame w0 w1" using l f(1) by (auto simp: evt_keeps_def)
    from evt_keeps_step [OF evt_frame_trans [OF k0(2) k1(2)] free_pending_keeps(1) [OF N k1(1)]] f(2)
    show ?thesis by simp
  qed
qed

subsection \<open>Draining\<close>

lemma evt_put:
  assumes law: "ng_law L R" and ok: "evt_ok R ng w" and p: "p < length (objs (w_se w))"
    and st: "quiet_update (get_obj w p) st" "qstream st = qstream (get_obj w p)" "resp_same (get_obj w p) st"
    and so: "stream_ok (h3_max_request_body_size (sess_conf (w_se w))) (w_heaps w p) st"
  shows "evt_keeps R w (ng, put_obj p st w)" and "w_stats (put_obj p st w) = w_stats w"
proof -
  have i: "world_inv w" "R ng None w" using ok by (simp_all add: evt_ok_def)
  have k: "world_inv (put_obj p st w)" "cb_frame w (put_obj p st w)"
    using cb_keeps_put [OF i(1) p st(1,2) so] by (simp_all add: cb_keeps_def)
  have "queues_kept w (put_obj p st w)"
  proof (rule queues_kept_same)
    show "resp_same (objs (w_se w) ! q) (objs (w_se (put_obj p st w)) ! q)" if "q < length (objs (w_se w))" for q
      using that st(3) by (cases "q = p") (simp_all add: get_obj_def)
  qed simp_all
  then show "evt_keeps R w (ng, put_obj p st w)"
    using k ng_lawD(7) [OF law i(2)] by (simp add: evt_keeps_def evt_ok_def evt_frame_cb)
qed simp

lemma set_flag_keeps:
  assumes "ng_law L R" and "evt_ok R ng w" and "p < length (objs (w_se w))"
  shows "evt_keeps R w (ng, put_obj p ((get_obj w p)\<lparr>done_flag := True\<rparr>) w)"
    and "evt_keeps R w (ng, put_obj p ((get_obj w p)\<lparr>body_complete := True\<rparr>) w)"
  using evt_put(1) [OF assms] world_inv_stream_ok [of w p] assms(2,3)
  by (simp_all add: quiet_update_def resp_same_def evt_ok_def)

lemma set_pending_keeps:
  assumes law: "ng_law L R" and ok: "evt_ok R ng w"
    and p: "\<forall>p. ps = Some p \<longrightarrow> p < length (objs (w_se w)) \<and> stream_id (get_obj w p) = sid"
  defines "w' \<equiv> w\<lparr>w_se := (w_se w)\<lparr>pending_sid := sid, pending_h3s := ps\<rparr>\<rparr>"
  shows "evt_keeps R w (ng, w')" and "w_stats w' = w_stats w"
proof -
  have i: "world_inv w" "R ng None w" using ok by (simp_all add: evt_ok_def)
  have rest: "sess_conf (w_se w') = sess_conf (w_se w)" "streams (w_se w') = streams (w_se w)" "w_user w' = w_user w"
    "objs (w_se w') = objs (w_se w)" "w_heaps w' = w_heaps w" "blocked_set (w_se w') = blocked_set (w_se w)"
    "blocked_streams (w_se w') = blocked_streams (w_se w)" "pending_free (w_se w') = pending_free (w_se w)"
    "w_freed w' = w_freed w" "handles (w_se w') = handles (w_se w)" "pending_h3s (w_se w') = ps" "pending_sid (w_se w') = sid"
    by (simp_all add: w'_def blocked_set_def handles_def)
  have "world_inv w'"
  proof (rule world_inv_mod [OF i(1)])
    show "q < length (objs (w_se w)) \<and> stream_id (objs (w_se w) ! q) = pending_sid (w_se w')"
      if "pending_h3s (w_se w') = Some q" for q
      using p that by (simp add: rest get_obj_def)
    show "stream_ok (h3_max_request_body_size (sess_conf (w_se w))) (w_heaps w' q) (objs (w_se w') ! q)"
      if "q < length (objs (w_se w))" for q using world_invD(7) [OF i(1) that] by (simp only: rest)
    show "w_heaps w' q = []" if "length (objs (w_se w)) \<le> q" for q
      using world_invD(8) [OF i(1) that] by (simp only: rest)
    show "blocked_streams (w_se w') = int (card (blocked_set (w_se w')))"
      using world_invD(9) [OF i(1)] by (simp only: rest)
    show "distinct (handles (w_se w') @ pending_free (w_se w') @ w_freed w')"
      using world_invD(6) [OF i(1)] by (simp only: rest)
  qed (simp_all add: rest)
  moreover have "queues_kept w w'" by (rule queues_kept_same) (simp_all add: rest)
  moreover have "evt_frame w w'" by (simp add: evt_frame_def same_role_def Let_def w'_def held_def handles_def)
  ultimately show "evt_keeps R w (ng, w')" using ng_lawD(7) [OF law i(2)] by (simp add: evt_keeps_def evt_ok_def)
  show "w_stats w' = w_stats w" by (simp add: w'_def)
qed

lemma frame_length: "evt_frame w w' \<Longrightarrow> length (objs (w_se w')) = length (objs (w_se w))"
  by (simp add: evt_frame_def Let_def)

lemma mark_dead_stats [simp]: "w_stats (mark_ngh3_dead L e w) = w_stats w"
  by (simp add: mark_ngh3_dead_def)

lemma feed_fin_keeps:
  assumes law: "libs_law L R sent" and ok: "evt_ok R ng w" and p: "p < length (objs (w_se w))"
  obtains ng' w' where "feed_stream_fin L p (ng, w) = Some (ng', w')" and "evt_keeps R w (ng', w')" and "w_stats w' = w_stats w"
proof -
  note N = libs_lawD(1) [OF law]
  have i: "world_inv w" "R ng None w" using ok by (simp_all add: evt_ok_def)
  have b0: "length ([] :: byte list) < 2 ^ 63" by simp
  obtain a w1 where r: "ng_run L (ng_read_stream (lib_ng L) ng (stream_id (get_obj w p)) [] True) w = Some (a, w1)"
      "world_inv w1" "cb_frame w w1" "case a of (ng', c) \<Rightarrow> R ng' None w1"
    by (rule ng_run_ok [OF libs_lawD(2) [OF law] i(1) ng_lawD(3) [OF N i b0]]) blast
  obtain ng1 c where a: "a = (ng1, c)" by fastforce
  define w2 where "w2 = (if c < 0 then mark_ngh3_dead L c w1 else w1)"
  have ok1: "evt_ok R ng1 w1" using r a by (simp add: evt_ok_def)
  then have k2: "evt_keeps R w1 (ng1, w2)"
    using mark_dead_keeps [OF N ok1] by (simp add: w2_def evt_keeps_def)
  have f1: "evt_frame w w1" by (rule evt_frame_cb [OF r(3)])
  have f2: "evt_frame w w2" "evt_ok R ng1 w2"
    using k2 f1 by (auto simp: evt_keeps_def intro: evt_frame_trans)
  then have p2: "p < length (objs (w_se w2))" "evt_ok R ng1 w2" "evt_frame w w2"
    using p frame_length [OF f2(1)] by simp_all
  have s2: "w_stats w2 = w_stats w" using r(3) by (simp add: w2_def cb_frame_def Let_def)
  show thesis
  proof (rule that)
    show "feed_stream_fin L p (ng, w) = Some (ng1, put_obj p ((get_obj w2 p)\<lparr>body_complete := True\<rparr>) w2)"
      using r(1) a by (simp add: feed_stream_fin_def Let_def w2_def)
    show "evt_keeps R w (ng1, put_obj p ((get_obj w2 p)\<lparr>body_complete := True\<rparr>) w2)"
      by (rule evt_keeps_step [OF p2(3) set_flag_keeps(2) [OF N p2(2,1)]])
  qed (simp add: s2)
qed

text \<open>
  The invariant of a drain pass that began with the counters \<open>c0\<close>: the read counter has
  advanced by exactly what the byte budget lost.
\<close>

definition pass_ok :: "('o, 'ng) agree \<Rightarrow> 'o world \<Rightarrow> (uint64_t \<times> uint64_t) option \<Rightarrow> ('o, 'ng) pass \<Rightarrow> bool" where
  "pass_ok R w0 c0 a \<longleftrightarrow> evt_keeps R w0 (pa_ng a, pa_w a) \<and>
     bytes_remaining a \<le> H3_STREAM_DRAIN_BYTE_BUDGET \<and> reads_remaining a \<le> H3_STREAM_DRAIN_READ_BUDGET \<and>
     w_stats (pa_w a) = map_option (apfst (\<lambda>x. x + (H3_STREAM_DRAIN_BYTE_BUDGET - bytes_remaining a))) c0"

lemma pass_ok_upd:
  assumes "pass_ok R w0 c0 a" and "evt_keeps R (pa_w a) (ng, w)" and "w_stats w = w_stats (pa_w a)"
  shows "pass_ok R w0 c0 (a\<lparr>pa_ng := ng, pa_w := w\<rparr>)"
  using assms by (auto simp: pass_ok_def evt_keeps_def intro: evt_frame_trans)

lemma set_done_keeps:
  assumes law: "ng_law L R" and a: "pass_ok R w0 c0 a" and p: "p < length (objs (w_se w0))"
  shows "pass_ok R w0 c0 (set_done p a)"
proof -
  have k: "evt_ok R (pa_ng a) (pa_w a)" "evt_frame w0 (pa_w a)" using a by (simp_all add: pass_ok_def evt_keeps_def)
  have "p < length (objs (w_se (pa_w a)))" using p frame_length [OF k(2)] by simp
  from pass_ok_upd [OF a set_flag_keeps(1) [OF law k(1) this]] show ?thesis
    by (simp add: set_done_def)
qed

lemma stream_read_len:
  assumes "ssl_read_law ssl" and "h3q_stream_read ssl s q n = (s', ok, bs, fin)"
  shows "length bs \<le> unat n"
  using assms unfolding h3q_stream_read_def ssl_read_law_def by (fastforce split: prod.splits if_splits)

lemma drain_round_keeps:
  assumes law: "libs_law L R sent" and a: "pass_ok R w0 c0 a" and p: "p < length (objs (w_se w0))"
    and rem: "0 < reads_remaining a"
  shows "\<exists>go a'. drain_round L p a = Some (go, a') \<and> pass_ok R w0 c0 a' \<and>
    (go \<longrightarrow> reads_remaining a' = reads_remaining a - 1) \<and> reads_remaining a' \<le> reads_remaining a"
proof -
  note N = libs_lawD(1) [OF law]
  define w where "w = pa_w a"
  have k: "evt_ok R (pa_ng a) w" "evt_frame w0 w" using a by (simp_all add: pass_ok_def evt_keeps_def w_def)
  have pl: "p < length (objs (w_se w))" using p frame_length [OF k(2)] by simp
  show ?thesis
  proof (cases "qstream (get_obj w p)")
    case None
    then show ?thesis using set_done_keeps [OF N a p] by (auto simp: drain_round_def Let_def w_def set_done_def)
  next
    case (Some q)
    define sz where "sz = (if h3_stream_buffer_size (sess_conf (w_se w)) < bytes_remaining a
      then h3_stream_buffer_size (sess_conf (w_se w)) else bytes_remaining a)"
    obtain so ok bs fin where rd: "h3q_stream_read (lib_ssl L) (w_ssl w) q sz = (so, ok, bs, fin)" by (metis prod_cases4)
    have "length bs \<le> unat sz" by (rule stream_read_len [OF libs_lawD(4) [OF law] rd])
    moreover have "sz \<le> bytes_remaining a" by (auto simp: sz_def)
    ultimately have lb: "length bs \<le> unat (bytes_remaining a)" by (simp add: word_le_nat_alt)
    have br: "bytes_remaining a \<le> H3_STREAM_DRAIN_BYTE_BUDGET" using a by (simp add: pass_ok_def)
    then have br': "unat (bytes_remaining a) \<le> 1048576" by (simp add: word_le_nat_alt H3_STREAM_DRAIN_BYTE_BUDGET_def)
    have kso: "evt_keeps R w (pa_ng a, w\<lparr>w_ssl := so\<rparr>)"
      using k(1) ng_lawD(7) [OF N _ world_se_ssl(1)] by (auto simp: evt_keeps_def evt_ok_def world_se_ssl)
    show ?thesis
    proof (cases ok)
      case False
      show ?thesis
      proof (cases fin)
        case True
        have "evt_ok R (pa_ng a) (w\<lparr>w_ssl := so\<rparr>)" using kso by (simp add: evt_keeps_def)
        from feed_fin_keeps [OF law this, of p] pl obtain ng1 w1 where
          f: "feed_stream_fin L p (pa_ng a, w\<lparr>w_ssl := so\<rparr>) = Some (ng1, w1)"
            "evt_keeps R (w\<lparr>w_ssl := so\<rparr>) (ng1, w1)" "w_stats w1 = w_stats (w\<lparr>w_ssl := so\<rparr>)" by auto
        have "evt_keeps R w (ng1, w1)" using evt_keeps_step [OF world_se_ssl(2) f(2)] .
        from pass_ok_upd [OF a this [unfolded w_def]] f have "pass_ok R w0 c0 (a\<lparr>pa_ng := ng1, pa_w := w1\<rparr>)"
          by (simp add: w_def)
        then show ?thesis using Some False True rd f(1)
          by (auto simp: drain_round_def Let_def w_def [symmetric] sz_def [symmetric])
      next
        case nf: False
        from pass_ok_upd [OF a kso [unfolded w_def]] have "pass_ok R w0 c0 (a\<lparr>pa_w := w\<lparr>w_ssl := so\<rparr>\<rparr>)"
          by (simp add: w_def)
        then show ?thesis using Some False nf rd
          by (auto simp: drain_round_def Let_def w_def [symmetric] sz_def [symmetric])
      qed
    next
      case True
      let ?n = "of_nat (length bs) :: size_t"
      define w1 where "w1 = count_read ?n (w\<lparr>w_ssl := so\<rparr>)"
      define w2 where "w2 = w1\<lparr>w_se := (w_se w1)\<lparr>pending_sid := stream_id (get_obj w p), pending_h3s := Some p\<rparr>\<rparr>"
      have se1: "w_se w1 = w_se w" by (simp add: w1_def count_read_def)
      have q1: "queues_kept w w1" by (simp add: w1_def count_read_def queues_kept_def)
      have ok1: "evt_ok R (pa_ng a) w1" "evt_frame w w1"
        using k(1) ng_lawD(7) [OF N _ q1]
        by (auto simp: evt_ok_def w1_def count_read_def evt_frame_def same_role_def Let_def)
      have k2: "evt_keeps R w1 (pa_ng a, w2)" and st2: "w_stats w2 = w_stats w1"
        using set_pending_keeps [OF N ok1(1), of "Some p" "stream_id (get_obj w p)"] pl
        by (simp_all add: w2_def se1 get_obj_def)
      then have ok2: "evt_ok R (pa_ng a) w2" "evt_frame w w2"
        using ok1(2) by (auto simp: evt_keeps_def intro: evt_frame_trans)
      have i2: "world_inv w2" "R (pa_ng a) None w2" using ok2(1) by (simp_all add: evt_ok_def)
      have lb63: "length bs < 2 ^ 63" using lb br' by simp
      obtain r3 w3 where r: "ng_run L (ng_read_stream (lib_ng L) (pa_ng a) (stream_id (get_obj w p)) bs False) w2 = Some (r3, w3)"
          "world_inv w3" "cb_frame w2 w3" "case r3 of (ng', c) \<Rightarrow> R ng' None w3"
        by (rule ng_run_ok [OF libs_lawD(2) [OF law] i2(1) ng_lawD(3) [OF N i2 lb63]]) blast
      obtain ng3 c where r3: "r3 = (ng3, c)" by fastforce
      have ok3: "evt_ok R ng3 w3" using r r3 by (simp add: evt_ok_def)
      define w4 where "w4 = w3\<lparr>w_se := (w_se w3)\<lparr>pending_sid := -1, pending_h3s := None\<rparr>\<rparr>"
      have k4: "evt_keeps R w3 (ng3, w4)" and st4: "w_stats w4 = w_stats w3"
        using set_pending_keeps [OF N ok3, of None "-1"] by (simp_all add: w4_def)
      have f4: "evt_frame w w4"
        using ok2(2) evt_frame_cb [OF r(3)] k4 by (auto simp: evt_keeps_def intro: evt_frame_trans)
      have ok4: "evt_ok R ng3 w4" using k4 by (simp add: evt_keeps_def)
      define a1 where "a1 = a\<lparr>pa_ng := ng3, pa_w := w4, data_read := True, reads_remaining := reads_remaining a - 1,
          bytes_remaining := bytes_remaining a - ?n\<rparr>"
      have un: "unat ?n = length bs" using lb63 by (simp add: unat_of_nat_64)
      have "unat (bytes_remaining a - ?n) \<le> unat (bytes_remaining a)"
        using lb un by (subst unat_sub_64) simp_all
      then have b1: "bytes_remaining a - ?n \<le> H3_STREAM_DRAIN_BYTE_BUDGET" using br by (simp add: word_le_nat_alt)
      have "w_stats w4 = map_option (apfst (\<lambda>x. x + ?n)) (w_stats w)"
        using st4 st2 r(3) by (simp add: cb_frame_def Let_def w1_def count_read_def)
      also have "\<dots> = map_option (apfst (\<lambda>x. x + (H3_STREAM_DRAIN_BYTE_BUDGET - (bytes_remaining a - ?n)))) c0"
        using a by (cases c0) (auto simp: pass_ok_def w_def apfst_def map_prod_def split: prod.splits)
      finally have st: "w_stats w4 = map_option (apfst (\<lambda>x. x + (H3_STREAM_DRAIN_BYTE_BUDGET - (bytes_remaining a - ?n)))) c0" .
      have f04: "evt_frame w0 w4" by (rule evt_frame_trans [OF k(2) f4])
      have ok_a1: "pass_ok R w0 c0 a1"
        using a b1 st f04 ok4 by (auto simp: pass_ok_def a1_def evt_keeps_def)
      have ok_dead: "pass_ok R w0 c0 (a1\<lparr>pa_w := mark_ngh3_dead L c w4\<rparr>)"
        using pass_ok_upd [OF ok_a1, of ng3 "mark_ngh3_dead L c w4"] mark_dead_keeps [OF N ok4, of c]
        by (simp add: a1_def pass_ok_def)
      have body: "drain_round L p a = Some (if c < 0 then (False, set_done p (a1\<lparr>pa_w := mark_ngh3_dead L c w4\<rparr>))
          else if done_flag (get_obj w4 p) then (False, a1) else (True, a1))"
        using Some True rd r(1) r3
        by (simp add: drain_round_def Let_def w_def [symmetric] sz_def [symmetric] w1_def [symmetric] w2_def [symmetric]
            w4_def [symmetric] a1_def)
      show ?thesis
        using body ok_a1 set_done_keeps [OF N ok_dead p] by (auto simp: a1_def set_done_def)
    qed
  qed
qed

lemma drain_rounds_keeps:
  assumes law: "libs_law L R sent" and p: "p < length (objs (w_se w0))"
  shows "pass_ok R w0 c0 a \<Longrightarrow> \<exists>a'. drain_rounds L p k a = Some a' \<and> pass_ok R w0 c0 a' \<and> reads_remaining a' \<le> reads_remaining a"
proof (induction k arbitrary: a)
  case 0
  then show ?case by simp
next
  case (Suc k)
  show ?case
  proof (cases "0 < reads_remaining a \<and> 0 < bytes_remaining a")
    case True
    then have "0 < reads_remaining a" by simp
    from drain_round_keeps [OF law Suc.prems p this] obtain go a1 where
      r: "drain_round L p a = Some (go, a1)" "pass_ok R w0 c0 a1" "reads_remaining a1 \<le> reads_remaining a" by auto
    from Suc.IH [OF r(2)] obtain a2 where
      a2: "drain_rounds L p k a1 = Some a2" "pass_ok R w0 c0 a2" "reads_remaining a2 \<le> reads_remaining a1" by blast
    show ?thesis using True r a2 by (cases go) auto
  next
    case False
    then show ?thesis using Suc.prems by auto
  qed
qed

lemma read_buf_keeps:
  assumes law: "ng_law L R" and ok: "evt_ok R ng w"
  shows "evt_keeps R w (ng, ensure_read_buf w)" and "w_stats (ensure_read_buf w) = w_stats w"
proof -
  have i: "world_inv w" "R ng None w" using ok by (simp_all add: evt_ok_def)
  have "world_inv (ensure_read_buf w)" using i(1) unfolding world_inv_def
    by (simp add: ensure_read_buf_def Let_def handles_def blocked_set_def)
  moreover have "queues_kept w (ensure_read_buf w)" by (simp add: queues_kept_def ensure_read_buf_def Let_def)
  moreover have "evt_frame w (ensure_read_buf w)"
    by (simp add: evt_frame_def same_role_def Let_def ensure_read_buf_def held_def handles_def)
  ultimately show "evt_keeps R w (ng, ensure_read_buf w)"
    using ng_lawD(7) [OF law i(2)] by (simp add: evt_keeps_def evt_ok_def)
qed (simp add: ensure_read_buf_def Let_def)

lemma drain_one_keeps:
  assumes law: "libs_law L R sent" and a: "pass_ok R w0 c0 a" and p: "p < length (objs (w_se w0))"
  shows "\<exists>ready a'. drain_one_stream L p a = Some (ready, a') \<and> pass_ok R w0 c0 a' \<and>
    ready = request_ready (get_obj (pa_w a') p)"
proof -
  note N = libs_lawD(1) [OF law]
  define w where "w = ensure_read_buf (pa_w a)"
  have ka: "evt_ok R (pa_ng a) (pa_w a)" using a by (simp add: pass_ok_def evt_keeps_def)
  note rb = read_buf_keeps [OF N ka, folded w_def]
  from pass_ok_upd [OF a rb(1,2)] have a0: "pass_ok R w0 c0 (a\<lparr>pa_w := w\<rparr>)" by simp
  have kw: "evt_ok R (pa_ng a) w" "evt_frame w0 w" using a0 by (simp_all add: pass_ok_def evt_keeps_def)
  have pl: "p < length (objs (w_se w))" using p frame_length [OF kw(2)] by simp
  obtain rf wf where rw: "(case qstream (get_obj w p) of None \<Rightarrow> (False, False)
      | Some q \<Rightarrow> h3q_stream_is_read_finished (lib_ssl L) (w_ssl w) q) = (rf, wf)" by fastforce
  show ?thesis
  proof (cases rf)
    case False
    from drain_rounds_keeps [OF law p a0, of "reads_remaining a"] obtain a1 where
      "drain_rounds L p (reads_remaining a) (a\<lparr>pa_w := w\<rparr>) = Some a1" "pass_ok R w0 c0 a1" by blast
    then show ?thesis using False rw by (auto simp: drain_one_stream_def Let_def w_def [symmetric])
  next
    case True
    have "\<exists>ng1 w1. (if \<not> body_complete (get_obj w p) then feed_stream_fin L p (pa_ng a, w) else Some (pa_ng a, w)) = Some (ng1, w1) \<and>
        evt_keeps R w (ng1, w1) \<and> w_stats w1 = w_stats w"
    proof (cases "body_complete (get_obj w p)")
      case True
      then show ?thesis using kw(1) by (simp add: evt_keeps_def)
    next
      case False
      obtain ng' w' where "feed_stream_fin L p (pa_ng a, w) = Some (ng', w')" "evt_keeps R w (ng', w')" "w_stats w' = w_stats w"
        by (rule feed_fin_keeps [OF law kw(1) pl])
      then show ?thesis using False by simp
    qed
    then obtain ng1 w1 where
      s1: "(if \<not> body_complete (get_obj w p) then feed_stream_fin L p (pa_ng a, w) else Some (pa_ng a, w)) = Some (ng1, w1)"
        "evt_keeps R w (ng1, w1)" "w_stats w1 = w_stats w" by blast
    have i1: "world_inv w1" "R ng1 None w1" using s1(2) by (simp_all add: evt_keeps_def evt_ok_def)
    have "\<exists>ng2 w2. (if qstream (get_obj w1 p) \<noteq> None \<and> wf
        then ng_run L (ng_close_stream (lib_ng L) ng1 (stream_id (get_obj w1 p))) w1 else Some (ng1, w1)) = Some (ng2, w2) \<and>
        evt_keeps R w (ng2, w2) \<and> w_stats w2 = w_stats w"
    proof (cases "qstream (get_obj w1 p) \<noteq> None \<and> wf")
      case True
      obtain ng2 w2 where "ng_run L (ng_close_stream (lib_ng L) ng1 (stream_id (get_obj w1 p))) w1 = Some (ng2, w2)"
          "world_inv w2" "cb_frame w1 w2" "R ng2 None w2"
        by (rule ng_run_ok [OF libs_lawD(2) [OF law] i1(1) ng_lawD(4) [OF N i1]])
      with True s1 show ?thesis
        by (auto simp: evt_keeps_def evt_ok_def cb_frame_def Let_def intro: evt_frame_trans [OF _ evt_frame_cb])
    next
      case False
      then show ?thesis using s1 by auto
    qed
    then obtain ng2 w2 where
      s2: "(if qstream (get_obj w1 p) \<noteq> None \<and> wf
        then ng_run L (ng_close_stream (lib_ng L) ng1 (stream_id (get_obj w1 p))) w1 else Some (ng1, w1)) = Some (ng2, w2)"
        "evt_keeps R w (ng2, w2)" "w_stats w2 = w_stats w" by blast
    have "pass_ok R w0 c0 (a\<lparr>pa_ng := ng2, pa_w := w2\<rparr>)"
      using pass_ok_upd [OF a0, of ng2 w2] s2(2,3) by simp
    moreover have "drain_one_stream L p a = Some (request_ready (get_obj w2 p), a\<lparr>pa_ng := ng2, pa_w := w2\<rparr>)"
      using True rw s1(1) s2(1) by (simp add: drain_one_stream_def Let_def w_def [symmetric])
    ultimately show ?thesis by simp
  qed
qed

text \<open>A request that is complete stays so while the event thread works.\<close>

lemma request_ready_frame:
  "evt_frame w w' \<Longrightarrow> p < length (objs (w_se w)) \<Longrightarrow> request_ready (get_obj w p) \<Longrightarrow> request_ready (get_obj w' p)"
  by (auto simp: evt_frame_def Let_def same_role_def request_ready_def get_obj_def)

lemma pass_ok_cursor:
  assumes law: "ng_law L R" and a: "pass_ok R w0 c0 a"
  shows "pass_ok R w0 c0 (a\<lparr>pa_w := upd_se (\<lambda>se. se\<lparr>stream_drain_cursor := c\<rparr>) (pa_w a)\<rparr>)"
proof -
  let ?w = "upd_se (\<lambda>se. se\<lparr>stream_drain_cursor := c\<rparr>) (pa_w a)"
  have i: "world_inv (pa_w a)" "R (pa_ng a) None (pa_w a)" using a by (simp_all add: pass_ok_def evt_keeps_def evt_ok_def)
  have "world_inv ?w" using i(1) unfolding world_inv_def by (simp add: Let_def handles_def blocked_set_def)
  moreover have "queues_kept (pa_w a) ?w" by (simp add: queues_kept_def)
  moreover have "evt_frame (pa_w a) ?w" by (simp add: evt_frame_def same_role_def Let_def held_def handles_def)
  ultimately have "evt_keeps R (pa_w a) (pa_ng a, ?w)"
    using ng_lawD(7) [OF law i(2)] by (simp add: evt_keeps_def evt_ok_def)
  from pass_ok_upd [OF a this] show ?thesis by simp
qed

text \<open>
  The loop over the snapshot: every stream it reports is a complete request of the snapshot,
  reported once, and the streams visited before the budget ran out are known by their offset.
\<close>

definition completed_ok :: "'o world \<Rightarrow> sptr list \<Rightarrow> nat \<Rightarrow> nat set \<Rightarrow> sptr list \<Rightarrow> bool" where
  "completed_ok w snap start offs acc \<longleftrightarrow> distinct acc \<and>
     (\<forall>p \<in> set acc. request_ready (get_obj w p) \<and> (\<exists>off \<in> offs. p = snap ! ((start + off) mod length snap)))"

lemma mod_shift_less:
  assumes "i < j" and "j < n"
  shows "(s + i) mod n \<noteq> (s + j) mod (n :: nat)"
proof
  assume "(s + i) mod n = (s + j) mod n"
  then have "n dvd (s + j) - (s + i)" using mod_eq_dvd_iff_nat [of "s + i" "s + j" n] assms(1) by simp
  then have "n dvd j - i" by simp
  then show False using assms by (auto dest: dvd_imp_le)
qed

lemma mod_shift_inj: "i < n \<Longrightarrow> j < n \<Longrightarrow> (s + i) mod n = (s + j) mod n \<Longrightarrow> i = (j :: nat)"
  using mod_shift_less [of i j n s] mod_shift_less [of j i n s] by (metis linorder_neqE_nat)

lemma drain_streams_keeps:
  assumes law: "libs_law L R sent" and snap: "distinct snap" "\<And>p. p \<in> set snap \<Longrightarrow> p < length (objs (w_se w0))"
  shows "pass_ok R w0 c0 a \<Longrightarrow> completed_ok (pa_w a) snap start vis acc \<Longrightarrow>
    vis \<inter> set offs = {} \<Longrightarrow> distinct offs \<Longrightarrow> vis \<union> set offs \<subseteq> {..<length snap} \<Longrightarrow>
    \<exists>acc' a'. drain_streams L snap start offs acc a = Some (acc', a') \<and> pass_ok R w0 c0 a' \<and>
      completed_ok (pa_w a') snap start (vis \<union> set offs) acc'"
proof (induction offs arbitrary: acc a vis)
  case Nil
  then show ?case by simp
next
  case (Cons off offs)
  let ?i = "(start + off) mod length snap"
  define p where "p = snap ! ?i"
  have ln: "0 < length snap" using Cons.prems(5) by auto
  then have il: "?i < length snap" by simp
  have ps: "p \<in> set snap" using il by (simp add: p_def)
  have pl: "p < length (objs (w_se w0))" by (rule snap(2) [OF ps])
  have weaken: "completed_ok w snap start v x \<Longrightarrow> v \<subseteq> v' \<Longrightarrow> completed_ok w snap start v' x"
    for v v' x and w :: "'a world" by (fastforce simp: completed_ok_def)
  have skip: "\<exists>acc' a'. drain_streams L snap start offs acc a = Some (acc', a') \<and> pass_ok R w0 c0 a' \<and>
      completed_ok (pa_w a') snap start (vis \<union> set (off # offs)) acc'"
  proof -
    have "completed_ok (pa_w a) snap start (insert off vis) acc" using weaken [OF Cons.prems(2)] by blast
    from Cons.IH [OF Cons.prems(1) this] Cons.prems(3-5) show ?thesis by auto
  qed
  show ?case
  proof (cases "ngh3_dead (w_se (pa_w a)) \<or> done_flag (get_obj (pa_w a) p) \<or> qstream (get_obj (pa_w a) p) = None \<or>
      H3_SID_IS_SERVER (stream_id (get_obj (pa_w a) p))")
    case True
    then show ?thesis
      using skip weaken [OF Cons.prems(2), of "vis \<union> set (off # offs)"] Cons.prems(1)
      by (cases "ngh3_dead (w_se (pa_w a))") (auto simp: Let_def p_def)
  next
    case False
    from drain_one_keeps [OF law Cons.prems(1) pl] obtain ready a1 where
      d: "drain_one_stream L p a = Some (ready, a1)" "pass_ok R w0 c0 a1" "ready = request_ready (get_obj (pa_w a1) p)"
      by blast
    have f0: "evt_frame w0 (pa_w a)" using Cons.prems(1) by (simp add: pass_ok_def evt_keeps_def)
    have "pass_ok R (pa_w a) c0 a" using Cons.prems(1) by (simp add: pass_ok_def evt_keeps_def)
    from drain_one_keeps [OF law this, of p] pl frame_length [OF f0] d(1)
    have fr: "evt_frame (pa_w a) (pa_w a1)" by (auto simp: pass_ok_def evt_keeps_def)
    define acc' where "acc' = (if ready \<and> \<not> ngh3_dead (w_se (pa_w a1)) then acc @ [p] else acc)"
    have lt: "(start + v) mod length snap < length snap" for v using ln by simp
    have old: "request_ready (get_obj (pa_w a1) q)" "q \<noteq> p" if "q \<in> set acc" for q
    proof -
      from Cons.prems(2) that obtain v where v: "request_ready (get_obj (pa_w a) q)" "v \<in> vis"
        "q = snap ! ((start + v) mod length snap)" by (auto simp: completed_ok_def)
      have "q \<in> set snap" using v(3) lt by simp
      then have "q < length (objs (w_se (pa_w a)))" using snap(2) frame_length [OF f0] by simp
      then show "request_ready (get_obj (pa_w a1) q)" by (rule request_ready_frame [OF fr _ v(1)])
      have "v < length snap" "off < length snap" "v \<noteq> off" using v(2) Cons.prems(3,5) by auto
      then have "(start + v) mod length snap \<noteq> ?i" using mod_shift_inj by blast
      then show "q \<noteq> p" using snap(1) lt v(3) by (simp add: p_def nth_eq_iff_index_eq)
    qed
    have "completed_ok (pa_w a1) snap start (insert off vis) acc"
      using weaken [OF Cons.prems(2), of "insert off vis"] old(1) by (auto simp: completed_ok_def)
    then have c: "completed_ok (pa_w a1) snap start (insert off vis) acc'"
      using d(3) old(2) by (auto simp: completed_ok_def acc'_def p_def)
    show ?thesis
    proof (cases "reads_remaining a1 = 0 \<or> bytes_remaining a1 = 0")
      case True
      let ?a2 = "a1\<lparr>pa_w := upd_se (\<lambda>se. se\<lparr>stream_drain_cursor := (?i + 1) mod length snap\<rparr>) (pa_w a1)\<rparr>"
      have "drain_streams L snap start (off # offs) acc a = Some (acc', ?a2)"
        using False True d(1) by (auto simp: Let_def p_def [symmetric] acc'_def)
      moreover have "pass_ok R w0 c0 ?a2" by (rule pass_ok_cursor [OF libs_lawD(1) [OF law] d(2)])
      moreover have "completed_ok (pa_w ?a2) snap start (vis \<union> set (off # offs)) acc'"
        using weaken [OF c, of "vis \<union> set (off # offs)"] by (auto simp: completed_ok_def get_obj_def)
      ultimately show ?thesis by blast
    next
      case go: False
      have "drain_streams L snap start (off # offs) acc a = drain_streams L snap start offs acc' a1"
        using False go d(1) by (auto simp: Let_def p_def [symmetric] acc'_def)
      with Cons.IH [OF d(2) c] Cons.prems(3-5) show ?thesis by auto
    qed
  qed
qed

subsection \<open>Reclaiming\<close>

text \<open>
  The condition under which a request stream is given up: closed, its QUIC handle queued for
  freeing, handed to a worker, and the worker gone.
\<close>

definition reclaimable :: "h3_stream \<Rightarrow> bool" where
  "reclaimable st \<longleftrightarrow> is_bidi st \<and> \<not> H3_SID_IS_SERVER (stream_id st) \<and>
     done_flag st \<and> qstream st = None \<and> dispatched st \<and> worker_done st"

lemma ran_untrack:
  assumes inv: "world_inv w" and sid: "streams (w_se w) sid = Some p"
  shows "ran ((streams (w_se w))(sid := None)) = ran (streams (w_se w)) - {p}"
proof (intro set_eqI iffI)
  fix q assume "q \<in> ran ((streams (w_se w))(sid := None))"
  then obtain s where s: "s \<noteq> sid" "streams (w_se w) s = Some q" by (auto simp: ran_def split: if_splits)
  then show "q \<in> ran (streams (w_se w)) - {p}"
    using world_invD(3) [OF inv s(2)] world_invD(3) [OF inv sid] by (auto simp: ran_def)
next
  fix q assume "q \<in> ran (streams (w_se w)) - {p}"
  then obtain s where s: "streams (w_se w) s = Some q" "q \<noteq> p" by (auto simp: ran_def)
  then have "s \<noteq> sid" using sid by auto
  with s show "q \<in> ran ((streams (w_se w))(sid := None))" by (auto simp: ran_def intro!: exI [of _ s])
qed

lemma untrack_ok:
  assumes inv: "world_inv w" and sid: "streams (w_se w) sid = Some p" and nb: "\<not> write_blocked (get_obj w p)"
  defines "w' \<equiv> upd_se (\<lambda>se. se\<lparr>streams := (streams se)(sid := None)\<rparr>) w"
  shows "world_inv w'" and "queues_kept w w'"
proof -
  have pid: "p < length (objs (w_se w))" "stream_id (objs (w_se w) ! p) = sid"
    using world_invD(3) [OF inv sid] by simp_all
  have rest: "sess_conf (w_se w') = sess_conf (w_se w)" "w_user w' = w_user w"
    "objs (w_se w') = objs (w_se w)" "w_heaps w' = w_heaps w"
    "streams (w_se w') = (streams (w_se w))(sid := None)"
    "blocked_streams (w_se w') = blocked_streams (w_se w)" "pending_free (w_se w') = pending_free (w_se w)"
    "w_freed w' = w_freed w" "handles (w_se w') = handles (w_se w)"
    "pending_h3s (w_se w') = pending_h3s (w_se w)" "pending_sid (w_se w') = pending_sid (w_se w)"
    by (simp_all add: w'_def handles_def)
  note ran = ran_untrack [OF inv sid]
  have b: "blocked_set (w_se w') = blocked_set (w_se w)"
    using nb by (auto simp: blocked_set_def rest ran get_obj_def)
  show "world_inv w'"
  proof (rule world_inv_mod [OF inv])
    show "streams (w_se w') \<subseteq>\<^sub>m streams (w_se w)" by (auto simp: rest map_le_def)
    show "q < length (objs (w_se w)) \<and> stream_id (objs (w_se w) ! q) = pending_sid (w_se w')"
      if "pending_h3s (w_se w') = Some q" for q
      using world_invD(5) [OF inv, of q] that by (simp add: rest)
    show "stream_ok (h3_max_request_body_size (sess_conf (w_se w))) (w_heaps w' q) (objs (w_se w') ! q)"
      if "q < length (objs (w_se w))" for q using world_invD(7) [OF inv that] by (simp only: rest)
    show "w_heaps w' q = []" if "length (objs (w_se w)) \<le> q" for q
      using world_invD(8) [OF inv that] by (simp only: rest)
    show "blocked_streams (w_se w') = int (card (blocked_set (w_se w')))"
      using world_invD(9) [OF inv] by (simp only: rest b)
    show "distinct (handles (w_se w') @ pending_free (w_se w') @ w_freed w')"
      using world_invD(6) [OF inv] by (simp only: rest)
  qed (simp_all add: rest)
  show "queues_kept w w'" by (rule queues_kept_same) (simp_all add: rest)
qed

lemma resp_same_blank: "resp_same st st' \<Longrightarrow> resp_blank st \<Longrightarrow> resp_blank st'"
  by (simp add: resp_same_def resp_blank_def)

lemma resp_same_trans: "resp_same a b \<Longrightarrow> resp_same b c \<Longrightarrow> resp_same a c"
  by (simp add: resp_same_def)

lemma queues_kept_trans:
  assumes ab: "queues_kept a b" and bc: "queues_kept b c"
  shows "queues_kept a c"
  unfolding queues_kept_def
proof (intro conjI allI impI)
  show "w_user c = w_user a" using ab bc by (simp add: queues_kept_def)
  fix p assume p: "p < length (objs (w_se a))"
  then have 1: "p < length (objs (w_se b))"
    "w_heaps b p = w_heaps a p \<and> resp_same (objs (w_se a) ! p) (objs (w_se b) ! p) \<or> resp_blank (objs (w_se b) ! p)"
    using ab by (simp_all add: queues_kept_def)
  then have 2: "p < length (objs (w_se c))"
    "w_heaps c p = w_heaps b p \<and> resp_same (objs (w_se b) ! p) (objs (w_se c) ! p) \<or> resp_blank (objs (w_se c) ! p)"
    using bc by (simp_all add: queues_kept_def)
  show "p < length (objs (w_se c))" by (rule 2)
  show "w_heaps c p = w_heaps a p \<and> resp_same (objs (w_se a) ! p) (objs (w_se c) ! p) \<or> resp_blank (objs (w_se c) ! p)"
    using 1(2) 2(2) resp_same_blank resp_same_trans by (elim disjE conjE) auto
qed

lemma cleanup_world_ok:
  assumes inv: "world_inv w" and p: "p < length (objs (w_se w))"
  obtains h st' where "h3_stream_response_cleanup_locked (w_heaps w p) (get_obj w p) = Some (h, st')"
    and "world_inv (put_heap p h (put_obj p st' w))" and "queues_kept w (put_heap p h (put_obj p st' w))"
proof -
  obtain us vs where rep: "resp_rep (w_heaps w p) (get_obj w p) us vs"
    and bw: "body_wf (h3_max_request_body_size (sess_conf (w_se w))) (get_obj w p)"
    using world_inv_stream_ok [OF inv p] by (auto simp: stream_ok_def)
  from cleanup_rep [OF rep] obtain h st' where
    c: "h3_stream_response_cleanup_locked (w_heaps w p) (get_obj w p) = Some (h, st')" "resp_rep h st' [] []"
      "\<forall>a. deref h a = (if a \<in> set (us @ vs) then None else deref (w_heaps w p) a)" by blast
  have st': "st' = (get_obj w p)\<lparr>response_head := None, response_tail := None, response_submit_chunk := None,
         response_submit_offset := 0, response_buffered := 0\<rparr>"
    using c(1) by (auto simp: h3_stream_response_cleanup_locked_def)
  have q: "quiet_update (get_obj w p) st'" "qstream st' = qstream (get_obj w p)" by (simp_all add: st' quiet_update_def)
  have "stream_ok (h3_max_request_body_size (sess_conf (w_se w))) h st'"
    using c(2) bw by (auto simp: stream_ok_def body_wf_def st')
  then have w: "world_inv (put_heap p h (put_obj p st' w))" by (rule world_inv_put [OF inv p q])
  have bl: "resp_blank st'" by (simp add: st' resp_blank_def)
  have "queues_kept w (put_heap p h (put_obj p st' w))"
    unfolding queues_kept_def
  proof (intro conjI allI impI)
    fix i assume i: "i < length (objs (w_se w))"
    show "w_heaps (put_heap p h (put_obj p st' w)) i = w_heaps w i \<and>
        resp_same (objs (w_se w) ! i) (objs (w_se (put_heap p h (put_obj p st' w))) ! i) \<or>
        resp_blank (objs (w_se (put_heap p h (put_obj p st' w))) ! i)"
      using i bl by (cases "i = p") simp_all
  qed simp_all
  with c(1) w show thesis by (rule that)
qed

text \<open>The pools destroyed so far belong to streams that are not tracked any more.\<close>

definition reclaim_inv :: "'o world \<Rightarrow> bool" where
  "reclaim_inv w \<longleftrightarrow> distinct (w_reclaimed w) \<and>
     (\<forall>p \<in> set (w_reclaimed w). p < length (objs (w_se w)) \<and> p \<notin> ran (streams (w_se w)))"

definition reclaim_frame :: "'o world \<Rightarrow> 'o world \<Rightarrow> bool" where
  "reclaim_frame w w' \<longleftrightarrow> length (objs (w_se w')) = length (objs (w_se w)) \<and> sess_conf (w_se w') = sess_conf (w_se w) \<and>
     ngh3 (w_se w') = ngh3 (w_se w) \<and> qconn (w_se w') = qconn (w_se w) \<and> ngh3_dead (w_se w') = ngh3_dead (w_se w) \<and>
     aborted (w_se w') = aborted (w_se w) \<and> stream_drain_cursor (w_se w') = stream_drain_cursor (w_se w) \<and>
     control_streams_created (w_se w') = control_streams_created (w_se w) \<and>
     active_tasks (w_se w') = active_tasks (w_se w) \<and> goaway_deadline (w_se w') = goaway_deadline (w_se w) \<and>
     held w' = held w \<and> w_ssl w' = w_ssl w \<and> w_freed w' = w_freed w \<and> w_stats w' = w_stats w"

lemma reclaim_frame_refl [simp]: "reclaim_frame w w"
  by (simp add: reclaim_frame_def)

lemma reclaim_frame_trans: "reclaim_frame a b \<Longrightarrow> reclaim_frame b c \<Longrightarrow> reclaim_frame a c"
  by (simp add: reclaim_frame_def)

lemma held_session_upd:
  "held (upd_se (\<lambda>se. se\<lparr>blocked_streams := k\<rparr>) w) = held w"
  "held (upd_se (\<lambda>se. se\<lparr>streams := m\<rparr>) w) = held w" "held (w\<lparr>w_reclaimed := ps\<rparr>) = held w"
  by (simp_all add: held_def handles_def)

lemma cleanup_qstream: "h3_stream_response_cleanup_locked h st = Some (h', st') \<Longrightarrow> qstream st' = qstream st"
  by (auto simp: h3_stream_response_cleanup_locked_def split: option.splits)

lemma reclaim_one_unfold:
  assumes "reclaimable (get_obj w p)"
  shows "reclaim_one p w =
    (let st = get_obj w p;
         w1 = (if write_blocked st
               then upd_se (\<lambda>se. se\<lparr>blocked_streams := blocked_streams se - 1\<rparr>) (put_obj p (st\<lparr>write_blocked := False\<rparr>) w) else w);
         w2 = upd_se (\<lambda>se. se\<lparr>streams := (streams se)(stream_id st := None)\<rparr>) w1
     in map_option (\<lambda>(h, st'). (put_heap p h (put_obj p st' w2))\<lparr>w_reclaimed := w_reclaimed w2 @ [p]\<rparr>)
          (h3_stream_response_cleanup_locked (w_heaps w2 p) (get_obj w2 p)))"
  using assms unfolding reclaim_one_def reclaimable_def Let_def by (simp only: simp_thms if_True)

lemma unblock_for_reclaim_ok:
  assumes inv: "world_inv w" and p: "p \<in> ran (streams (w_se w))"
  defines "w' \<equiv> (if write_blocked (get_obj w p)
     then upd_se (\<lambda>se. se\<lparr>blocked_streams := blocked_streams se - 1\<rparr>) (put_obj p ((get_obj w p)\<lparr>write_blocked := False\<rparr>) w) else w)"
  shows "world_inv w'" and "queues_kept w w'" and "reclaim_frame w w'" and "\<not> write_blocked (get_obj w' p)"
    and "streams (w_se w') = streams (w_se w)" and "w_reclaimed w' = w_reclaimed w"
    and "\<And>q. q \<noteq> p \<Longrightarrow> get_obj w' q = get_obj w q" and "stream_id (get_obj w' p) = stream_id (get_obj w p)"
proof -
  have pl: "p < length (objs (w_se w))" using p world_invD(3) [OF inv] by (auto simp: ran_def)
  have "world_inv w' \<and> queues_kept w w'"
  proof (cases "write_blocked (get_obj w p)")
    case True
    then have "blocked_streams (w_se w) + (if False then 1 else 0) - (if write_blocked (get_obj w p) then 1 else 0) =
        blocked_streams (w_se w) - 1" by simp
    from set_blocked_ok [OF inv p this] True show ?thesis by (simp add: w'_def)
  qed (simp add: w'_def inv)
  then show "world_inv w'" and "queues_kept w w'" by simp_all
  show "reclaim_frame w w'" "\<not> write_blocked (get_obj w' p)" "streams (w_se w') = streams (w_se w)"
    "w_reclaimed w' = w_reclaimed w" "stream_id (get_obj w' p) = stream_id (get_obj w p)"
    using pl by (simp_all add: w'_def reclaim_frame_def get_obj_def held_session_upd)
  show "\<And>q. q \<noteq> p \<Longrightarrow> get_obj w' q = get_obj w q" by (simp add: w'_def get_obj_def)
qed

lemma reclaim_one_ok:
  assumes inv: "world_inv w" and p: "p \<in> ran (streams (w_se w))" and ri: "reclaim_inv w"
  obtains w' where "reclaim_one p w = Some w'" and "world_inv w'" and "queues_kept w w'" and "reclaim_inv w'"
    and "reclaim_frame w w'" and "\<And>q. q \<noteq> p \<or> \<not> reclaimable (get_obj w p) \<Longrightarrow> get_obj w' q = get_obj w q"
    and "streams (w_se w') = (if reclaimable (get_obj w p) then (streams (w_se w))(stream_id (get_obj w p) := None) else streams (w_se w))"
    and "w_reclaimed w' = (if reclaimable (get_obj w p) then w_reclaimed w @ [p] else w_reclaimed w)"
proof (cases "reclaimable (get_obj w p)")
  case False
  then have "reclaim_one p w = Some w" unfolding reclaim_one_def reclaimable_def Let_def by (simp only: if_False simp_thms)
  then show thesis using False inv ri by (intro that) simp_all
next
  case True
  define sid where "sid = stream_id (get_obj w p)"
  define w1 where "w1 = (if write_blocked (get_obj w p)
     then upd_se (\<lambda>se. se\<lparr>blocked_streams := blocked_streams se - 1\<rparr>) (put_obj p ((get_obj w p)\<lparr>write_blocked := False\<rparr>) w) else w)"
  define w2 where "w2 = upd_se (\<lambda>se. se\<lparr>streams := (streams se)(sid := None)\<rparr>) w1"
  from p obtain s where s: "streams (w_se w) s = Some p" by (auto simp: ran_def)
  then have pl: "p < length (objs (w_se w))" and "s = sid" using world_invD(3) [OF inv s] by (simp_all add: sid_def get_obj_def)
  with s have sp: "streams (w_se w) sid = Some p" by simp
  note u = unblock_for_reclaim_ok [OF inv p, folded w1_def]
  have l1: "length (objs (w_se w1)) = length (objs (w_se w))" using u(3) by (simp add: reclaim_frame_def)
  have sp1: "streams (w_se w1) sid = Some p" using u(5) sp by simp
  note t = untrack_ok [OF u(1) sp1 u(4), folded w2_def]
  have p2: "p < length (objs (w_se w2))" using pl l1 by (simp add: w2_def)
  from cleanup_world_ok [OF t(1) p2] obtain h st' where
    c: "h3_stream_response_cleanup_locked (w_heaps w2 p) (get_obj w2 p) = Some (h, st')"
      "world_inv (put_heap p h (put_obj p st' w2))" "queues_kept w2 (put_heap p h (put_obj p st' w2))" by blast
  define w' where "w' = (put_heap p h (put_obj p st' w2))\<lparr>w_reclaimed := w_reclaimed w2 @ [p]\<rparr>"
  have run: "reclaim_one p w = Some w'"
    unfolding reclaim_one_unfold [OF True] Let_def w1_def [symmetric] sid_def [symmetric] w2_def [symmetric] c(1) w'_def by simp
  have st: "streams (w_se w') = (streams (w_se w))(sid := None)" using u(5) by (simp add: w'_def w2_def)
  have "w_reclaimed w' = w_reclaimed w @ [p]" using u(6) by (simp add: w'_def w2_def)
  moreover have "world_inv w'" using c(2) by (simp add: w'_def world_inv_def)
  moreover have "queues_kept w w'"
    using queues_kept_trans [OF queues_kept_trans [OF u(2) t(2)] c(3)] by (simp add: w'_def queues_kept_def)
  moreover have "held w' = held w"
    using held_put(1) [OF p2 cleanup_qstream [OF c(1)]] u(3) by (simp add: w'_def w2_def held_session_upd reclaim_frame_def)
  then have "reclaim_frame w w'" using u(3) by (simp add: w'_def w2_def reclaim_frame_def)
  moreover have "get_obj w' q = get_obj w q" if "q \<noteq> p \<or> \<not> reclaimable (get_obj w p)" for q
    using u(7) [of q] that True by (auto simp: w'_def w2_def get_obj_def)
  moreover have "reclaim_inv w'"
  proof -
    have "ran (streams (w_se w')) = ran (streams (w_se w)) - {p}"
      unfolding st by (rule ran_untrack [OF inv sp])
    moreover have "p \<notin> set (w_reclaimed w)" using ri p by (auto simp: reclaim_inv_def)
    ultimately show ?thesis using ri pl \<open>w_reclaimed w' = w_reclaimed w @ [p]\<close> \<open>reclaim_frame w w'\<close>
      by (auto simp: reclaim_inv_def reclaim_frame_def)
  qed
  ultimately show thesis using True st run by (intro that [of w']) (simp_all add: sid_def)
qed

lemma reclaim_all_ok:
  assumes "world_inv w" and "distinct ps" and "set ps \<subseteq> ran (streams (w_se w))" and "reclaim_inv w"
  shows "\<exists>w'. reclaim_all ps w = Some w' \<and> world_inv w' \<and> queues_kept w w' \<and> reclaim_inv w' \<and> reclaim_frame w w' \<and>
    streams (w_se w') \<subseteq>\<^sub>m streams (w_se w) \<and>
    ran (streams (w_se w')) = ran (streams (w_se w)) - {p \<in> set ps. reclaimable (get_obj w p)} \<and>
    w_reclaimed w' = w_reclaimed w @ filter (\<lambda>p. reclaimable (get_obj w p)) ps \<and>
    (\<forall>q. q \<notin> set ps \<or> \<not> reclaimable (get_obj w q) \<longrightarrow> get_obj w' q = get_obj w q)"
  using assms
proof (induction ps arbitrary: w)
  case Nil
  then show ?case by simp
next
  case (Cons p ps)
  have p: "p \<in> ran (streams (w_se w))" and np: "p \<notin> set ps" using Cons.prems(2,3) by simp_all
  from reclaim_one_ok [OF Cons.prems(1) p Cons.prems(4)] obtain w1 where
    one: "reclaim_one p w = Some w1" "world_inv w1" "queues_kept w w1" "reclaim_inv w1" "reclaim_frame w w1"
      "\<And>q. q \<noteq> p \<or> \<not> reclaimable (get_obj w p) \<Longrightarrow> get_obj w1 q = get_obj w q"
      "streams (w_se w1) = (if reclaimable (get_obj w p) then (streams (w_se w))(stream_id (get_obj w p) := None) else streams (w_se w))"
      "w_reclaimed w1 = (if reclaimable (get_obj w p) then w_reclaimed w @ [p] else w_reclaimed w)" by blast
  from p obtain s where s: "streams (w_se w) s = Some p" by (auto simp: ran_def)
  then have "s = stream_id (get_obj w p)" using world_invD(3) [OF Cons.prems(1) s] by (simp add: get_obj_def)
  with s have sp: "streams (w_se w) (stream_id (get_obj w p)) = Some p" by simp
  have r1: "ran (streams (w_se w1)) = ran (streams (w_se w)) - (if reclaimable (get_obj w p) then {p} else {})"
    using ran_untrack [OF Cons.prems(1) sp] one(7) by simp
  have m1: "streams (w_se w1) \<subseteq>\<^sub>m streams (w_se w)" using one(7) by (auto simp: map_le_def)
  have same: "get_obj w1 q = get_obj w q" if "q \<in> set ps" for q using one(6) [of q] that np by auto
  have "set ps \<subseteq> ran (streams (w_se w1))" using Cons.prems(3) np r1 by auto
  from Cons.IH [OF one(2) _ this one(4)] Cons.prems(2) obtain w' where
    r: "reclaim_all ps w1 = Some w'" "world_inv w'" "queues_kept w1 w'" "reclaim_inv w'" "reclaim_frame w1 w'"
      "streams (w_se w') \<subseteq>\<^sub>m streams (w_se w1)"
      "ran (streams (w_se w')) = ran (streams (w_se w1)) - {p \<in> set ps. reclaimable (get_obj w1 p)}"
      "w_reclaimed w' = w_reclaimed w1 @ filter (\<lambda>p. reclaimable (get_obj w1 p)) ps"
      "\<And>q. q \<notin> set ps \<or> \<not> reclaimable (get_obj w1 q) \<Longrightarrow> get_obj w' q = get_obj w1 q" by auto
  have f: "filter (\<lambda>p. reclaimable (get_obj w1 p)) ps = filter (\<lambda>p. reclaimable (get_obj w p)) ps"
    using same by (simp cong: filter_cong)
  have g: "{p \<in> set ps. reclaimable (get_obj w1 p)} = {p \<in> set ps. reclaimable (get_obj w p)}" using same by auto
  have "get_obj w' q = get_obj w q" if q: "q \<notin> set (p # ps) \<or> \<not> reclaimable (get_obj w q)" for q
  proof -
    have 1: "get_obj w1 q = get_obj w q" using q one(6) [of q] by auto
    then have "q \<notin> set ps \<or> \<not> reclaimable (get_obj w1 q)" using q by auto
    from r(9) [OF this] 1 show ?thesis by simp
  qed
  moreover have "ran (streams (w_se w')) = ran (streams (w_se w)) - {q \<in> set (p # ps). reclaimable (get_obj w q)}"
    using r(7) g r1 by auto
  moreover have "w_reclaimed w' = w_reclaimed w @ filter (\<lambda>p. reclaimable (get_obj w p)) (p # ps)"
    using r(8) one(8) f by simp
  moreover have "streams (w_se w') \<subseteq>\<^sub>m streams (w_se w)" by (rule map_le_trans [OF r(6) m1])
  ultimately show ?case using one(1) r(1,2,4) queues_kept_trans [OF one(3) r(3)] reclaim_frame_trans [OF one(5) r(5)]
    by (intro exI [of _ w']) simp
qed

lemma hash_values_ok:
  assumes law: "libs_law L R sent" and inv: "world_inv w"
  shows "distinct (hash_values L (w_se w))" and "set (hash_values L (w_se w)) = ran (streams (w_se w))"
proof -
  let ?m = "streams (w_se w)" and ?ks = "lib_hash_order L (streams (w_se w))"
  note ks = libs_lawD(5,6) [OF law world_invD(2) [OF inv]]
  show "set (hash_values L (w_se w)) = ran ?m"
    using ks by (force simp: hash_values_def List.map_filter_def ran_def)
  have inj: "inj_on (\<lambda>k. the (?m k)) (dom ?m)"
  proof (rule inj_onI)
    fix x y assume "x \<in> dom ?m" "y \<in> dom ?m" and eq: "the (?m x) = the (?m y)"
    then obtain p q where "?m x = Some p" "?m y = Some q" by blast
    with eq show "x = y" using world_invD(3) [OF inv, of x p] world_invD(3) [OF inv, of y q] by simp
  qed
  have fl: "filter (\<lambda>k. ?m k \<noteq> None) ?ks = ?ks" using ks(2) by (auto intro!: filter_True)
  have "hash_values L (w_se w) = map (\<lambda>k. the (?m k)) ?ks"
    unfolding hash_values_def List.map_filter_def by (simp only: comp_def fl)
  then show "distinct (hash_values L (w_se w))" using ks inj by (simp add: distinct_map)
qed

lemma take_snapshot_ok:
  assumes law: "libs_law L R sent" and inv: "world_inv w"
  shows "take_snapshot L w = (hash_values L (w_se w), w)"
proof -
  note f = world_invD(2) [OF inv]
  have "length (lib_hash_order L (streams (w_se w))) = lib_hash_count L (streams (w_se w))"
    using libs_lawD(5,6,7) [OF law f] distinct_card by metis
  then show ?thesis by (simp add: take_snapshot_def)
qed

section \<open>Properties\<close>

definition initial_pass :: "'ng \<Rightarrow> 'o world \<Rightarrow> ('o, 'ng) pass" where
  "initial_pass ng w = \<lparr>pa_ng = ng, pa_w = w, data_read = False, reads_remaining = H3_STREAM_DRAIN_READ_BUDGET,
     bytes_remaining = H3_STREAM_DRAIN_BYTE_BUDGET\<rparr>"

lemma initial_pass_ok:
  assumes "world_inv w" and "R ng None w"
  shows "pass_ok R w (w_stats w) (initial_pass ng w)"
proof -
  have "map_option (apfst (\<lambda>x. x + 0)) c = c" for c :: "(uint64_t \<times> uint64_t) option"
    by (cases c) (auto simp: apfst_def map_prod_def split: prod.splits)
  then show ?thesis using assms by (simp add: pass_ok_def initial_pass_def evt_keeps_def evt_ok_def)
qed

lemma drain_ready_run:
  assumes law: "libs_law L R sent" and inv: "world_inv w" and rel: "R ng None w"
  defines "snap \<equiv> hash_values L (w_se w)"
  obtains completed a where
    "drain_ready_streams L (ng, w) = map_option (\<lambda>w'. (completed, a\<lparr>pa_w := w'\<rparr>)) (reclaim_all snap (pa_w a))"
    and "pass_ok R w (w_stats w) a" and "distinct completed" and "set completed \<subseteq> set snap"
    and "\<forall>p \<in> set completed. request_ready (get_obj (pa_w a) p)"
    and "\<exists>start. drain_streams L snap start [0..<length snap] [] (initial_pass ng w) = Some (completed, a)"
proof -
  define start where "start = (if snap \<noteq> [] then stream_drain_cursor (w_se w) mod length snap else 0)"
  have d: "distinct snap" and s: "set snap = ran (streams (w_se w))"
    unfolding snap_def using hash_values_ok [OF law inv] by simp_all
  have pl: "p < length (objs (w_se w))" if "p \<in> set snap" for p
    using that world_invD(3) [OF inv] by (auto simp: s ran_def)
  have c0: "completed_ok (pa_w (initial_pass ng w)) snap start {} []" by (simp add: completed_ok_def)
  have "\<exists>acc' a'. drain_streams L snap start [0..<length snap] [] (initial_pass ng w) = Some (acc', a') \<and>
      pass_ok R w (w_stats w) a' \<and> completed_ok (pa_w a') snap start ({} \<union> set [0..<length snap]) acc'"
    by (rule drain_streams_keeps [OF law d pl initial_pass_ok [where R = R, OF inv rel] c0]) auto
  then obtain acc a where r: "drain_streams L snap start [0..<length snap] [] (initial_pass ng w) = Some (acc, a)"
      "pass_ok R w (w_stats w) a" "completed_ok (pa_w a) snap start {0..<length snap} acc" by auto
  have "set acc \<subseteq> set snap"
  proof
    fix p assume "p \<in> set acc"
    with r(3) obtain off where "off < length snap" "p = snap ! ((start + off) mod length snap)"
      by (auto simp: completed_ok_def)
    then show "p \<in> set snap" by (cases "length snap") simp_all
  qed
  moreover have "drain_ready_streams L (ng, w) = map_option (\<lambda>w'. (acc, a\<lparr>pa_w := w'\<rparr>)) (reclaim_all snap (pa_w a))"
    using r(1) unfolding drain_ready_streams_def snd_conv fst_conv take_snapshot_ok [OF law inv] prod.case Let_def
      snap_def [symmetric] start_def [symmetric] initial_pass_def [symmetric] by simp
  ultimately show thesis using r by (intro that [of acc a]) (auto simp: completed_ok_def)
qed

text \<open>
  A pass runs in two stages: \<open>b\<close> is its state after the reading, which only moves within the
  event thread's frame, and reclaiming then takes the session to the state it is left in.
\<close>

lemma drain_pass_ok:
  assumes "libs_law L R sent" and "world_inv w" and "R ng None w" and "reclaim_inv w"
  obtains completed a b start where "drain_ready_streams L (ng, w) = Some (completed, a)"
    and "world_inv (pa_w a)" and "R (pa_ng a) None (pa_w a)" and "reclaim_inv (pa_w a)" and "distinct completed"
    and "\<forall>p \<in> set completed. p \<in> ran (streams (w_se (pa_w a))) \<and> request_ready (get_obj (pa_w a) p)"
    and "drain_streams L (hash_values L (w_se w)) start [0..<length (hash_values L (w_se w))] [] (initial_pass ng w) = Some (completed, b)"
    and "pass_ok R w (w_stats w) b" and "a = b\<lparr>pa_w := pa_w a\<rparr>" and "reclaim_frame (pa_w b) (pa_w a)"
    and "streams (w_se (pa_w a)) \<subseteq>\<^sub>m streams (w_se w)"
    and "ran (streams (w_se (pa_w a))) = {p \<in> ran (streams (w_se w)). \<not> reclaimable (get_obj (pa_w b) p)}"
    and "set (w_reclaimed (pa_w a)) = set (w_reclaimed w) \<union> {p \<in> ran (streams (w_se w)). reclaimable (get_obj (pa_w b) p)}"
    and "\<forall>p \<in> ran (streams (w_se (pa_w a))). get_obj (pa_w a) p = get_obj (pa_w b) p"
proof -
  from drain_ready_run [where R = R, OF assms(1-3)] obtain completed b where
    run: "drain_ready_streams L (ng, w) = map_option (\<lambda>w'. (completed, b\<lparr>pa_w := w'\<rparr>)) (reclaim_all (hash_values L (w_se w)) (pa_w b))"
    and ok: "pass_ok R w (w_stats w) b" and c: "distinct completed" "set completed \<subseteq> set (hash_values L (w_se w))"
      "\<forall>p \<in> set completed. request_ready (get_obj (pa_w b) p)"
    and ds: "\<exists>start. drain_streams L (hash_values L (w_se w)) start [0..<length (hash_values L (w_se w))] [] (initial_pass ng w) = Some (completed, b)"
    by blast
  note hv = hash_values_ok [OF assms(1,2)]
  have fr: "evt_frame w (pa_w b)" "world_inv (pa_w b)" "R (pa_ng b) None (pa_w b)"
    using ok by (simp_all add: pass_ok_def evt_keeps_def evt_ok_def)
  have st: "streams (w_se (pa_w b)) = streams (w_se w)" "w_reclaimed (pa_w b) = w_reclaimed w"
    "length (objs (w_se (pa_w b))) = length (objs (w_se w))" using fr(1) by (simp_all add: evt_frame_def Let_def)
  have ri: "reclaim_inv (pa_w b)" using assms(4) by (simp add: reclaim_inv_def st)
  have sub: "set (hash_values L (w_se w)) \<subseteq> ran (streams (w_se (pa_w b)))" using hv(2) st(1) by simp
  from reclaim_all_ok [OF fr(2) hv(1) sub ri] obtain w' where
    r: "reclaim_all (hash_values L (w_se w)) (pa_w b) = Some w'" "world_inv w'" "queues_kept (pa_w b) w'" "reclaim_inv w'"
      "reclaim_frame (pa_w b) w'"
      "ran (streams (w_se w')) = ran (streams (w_se (pa_w b))) - {p \<in> set (hash_values L (w_se w)). reclaimable (get_obj (pa_w b) p)}"
      "w_reclaimed w' = w_reclaimed (pa_w b) @ filter (\<lambda>p. reclaimable (get_obj (pa_w b) p)) (hash_values L (w_se w))"
      "\<forall>q. q \<notin> set (hash_values L (w_se w)) \<or> \<not> reclaimable (get_obj (pa_w b) q) \<longrightarrow> get_obj w' q = get_obj (pa_w b) q"
      "streams (w_se w') \<subseteq>\<^sub>m streams (w_se (pa_w b))" by blast
  have nr: "\<not> reclaimable (get_obj (pa_w b) p)" if "p \<in> set completed" for p
    using c(3) that by (auto simp: request_ready_def reclaimable_def)
  have cm: "\<forall>p \<in> set completed. p \<in> ran (streams (w_se w')) \<and> request_ready (get_obj w' p)"
    using nr r(6,8) c(2,3) sub by auto
  have R': "R (pa_ng b) None w'" by (rule ng_lawD(7) [OF libs_lawD(1) [OF assms(1)] fr(3) r(3)])
  have ra: "ran (streams (w_se w')) = {p \<in> ran (streams (w_se w)). \<not> reclaimable (get_obj (pa_w b) p)}"
    using r(6) hv(2) st(1) by auto
  have rc: "set (w_reclaimed w') = set (w_reclaimed w) \<union> {p \<in> ran (streams (w_se w)). reclaimable (get_obj (pa_w b) p)}"
    using r(7) hv(2) st(2) by auto
  from ds obtain start where ds': "drain_streams L (hash_values L (w_se w)) start [0..<length (hash_values L (w_se w))] []
      (initial_pass ng w) = Some (completed, b)" by blast
  show thesis
    using run r(1,2,4,5,8,9) c(1,3) cm R' ra rc ok ds' st(1) hv(2) by (intro that [of completed "b\<lparr>pa_w := w'\<rparr>" start b]) simp_all
qed


subsection \<open>Termination of the send loop\<close>

text \<open>
  What the send loop relies on to end. \<open>work\<close> bounds what nghttp3 can still offer, counting
  what it would fetch from the response queues; \<open>ngb\<close> is the set of streams it was told are
  blocked. A stream in \<open>ngb\<close> is never offered, consuming a whole offer is progress, and
  blocking and unblocking change \<open>ngb\<close> only.
\<close>

definition ng_progress :: "('o, 'ng) libs \<Rightarrow> ('o, 'ng) agree \<Rightarrow> ('ng \<Rightarrow> 'o world \<Rightarrow> nat) \<Rightarrow> ('ng \<Rightarrow> int set) \<Rightarrow> bool" where
  "ng_progress L R work ngb \<longleftrightarrow>
     (\<forall>ng w ng1 w1 ret. R ng None w \<longrightarrow> ng_run L (ng_writev_stream (lib_ng L) ng) w = Some ((ng1, ret), w1) \<longrightarrow>
        work ng1 w1 \<le> work ng w \<and> ngb ng1 = ngb ng \<and>
        (\<forall>sid fin vecs. ret = Writev sid fin vecs \<longrightarrow> (0 \<le> sid \<longrightarrow> sid \<notin> ngb ng) \<and> (vecs \<noteq> [] \<longrightarrow> 0 \<le> sid))) \<and>
     (\<forall>ng w sid t n ng' w'. R ng (Some (sid, t)) w \<longrightarrow> unat n \<le> t \<longrightarrow>
        ng_run L (ng_add_ack_offset (lib_ng L) (ng_add_write_offset (lib_ng L) ng sid n) sid n) w = Some (ng', w') \<longrightarrow>
        work ng' w' \<le> work ng w \<and> (0 \<le> sid \<and> unat n = t \<longrightarrow> work ng' w' < work ng w) \<and> ngb ng' = ngb ng) \<and>
     (\<forall>ng w sid. work (ng_block_stream (lib_ng L) ng sid) w = work ng w \<and>
        ngb (ng_block_stream (lib_ng L) ng sid) = insert sid (ngb ng) \<and>
        work (ng_unblock_stream (lib_ng L) ng sid) w = work ng w \<and>
        ngb (ng_unblock_stream (lib_ng L) ng sid) = ngb ng - {sid}) \<and>
     (\<forall>ng w w'. queues_kept w w' \<longrightarrow> work ng w' \<le> work ng w)"

lemma ng_progress_block:
  assumes "ng_progress L R work ngb"
  shows "work (ng_block_stream (lib_ng L) ng sid) w = work ng w"
    and "ngb (ng_block_stream (lib_ng L) ng sid) = insert sid (ngb ng)"
    and "work (ng_unblock_stream (lib_ng L) ng sid) w = work ng w"
    and "ngb (ng_unblock_stream (lib_ng L) ng sid) = ngb ng - {sid}"
  using assms unfolding ng_progress_def by blast+

lemma ng_progressD:
  assumes "ng_progress L R work ngb"
  shows "R ng None w \<Longrightarrow> ng_run L (ng_writev_stream (lib_ng L) ng) w = Some ((ng1, ret), w1) \<Longrightarrow>
      work ng1 w1 \<le> work ng w \<and> ngb ng1 = ngb ng"
    and "R ng None w \<Longrightarrow> ng_run L (ng_writev_stream (lib_ng L) ng) w = Some ((ng1, Writev sid fin vecs), w1) \<Longrightarrow>
      (0 \<le> sid \<longrightarrow> sid \<notin> ngb ng) \<and> (vecs \<noteq> [] \<longrightarrow> 0 \<le> sid)"
    and "R ng (Some (sid, t)) w \<Longrightarrow> unat n \<le> t \<Longrightarrow> advance_offsets L sid n (ng, w) = Some (ng', w') \<Longrightarrow>
      work ng' w' \<le> work ng w \<and> ngb ng' = ngb ng"
    and "R ng (Some (sid, t)) w \<Longrightarrow> unat n = t \<Longrightarrow> 0 \<le> sid \<Longrightarrow> advance_offsets L sid n (ng, w) = Some (ng', w') \<Longrightarrow>
      work ng' w' < work ng w"
    and "work (ng_block_stream (lib_ng L) ng sid) w = work ng w"
    and "ngb (ng_block_stream (lib_ng L) ng sid) = insert sid (ngb ng)"
    and "work (ng_unblock_stream (lib_ng L) ng sid) w = work ng w"
    and "ngb (ng_unblock_stream (lib_ng L) ng sid) = ngb ng - {sid}"
    and "queues_kept w w' \<Longrightarrow> work ng w' \<le> work ng w"
proof -
  note d = assms [unfolded ng_progress_def]
  note c1 = conjunct1 [OF d] and d1 = conjunct2 [OF d]
  note c2 = conjunct1 [OF d1] and d2 = conjunct2 [OF d1]
  note c4 = conjunct2 [OF d2]
  show "work ng1 w1 \<le> work ng w \<and> ngb ng1 = ngb ng"
    if "R ng None w" "ng_run L (ng_writev_stream (lib_ng L) ng) w = Some ((ng1, ret), w1)"
    using c1 that by blast
  show "(0 \<le> sid \<longrightarrow> sid \<notin> ngb ng) \<and> (vecs \<noteq> [] \<longrightarrow> 0 \<le> sid)"
    if "R ng None w" "ng_run L (ng_writev_stream (lib_ng L) ng) w = Some ((ng1, Writev sid fin vecs), w1)"
    using c1 that by blast
  show "work ng' w' \<le> work ng w \<and> ngb ng' = ngb ng"
    if "R ng (Some (sid, t)) w" "unat n \<le> t" "advance_offsets L sid n (ng, w) = Some (ng', w')"
    using c2 that(1,2) that(3) [unfolded advance_offsets_def fst_conv snd_conv] by blast
  show "work ng' w' < work ng w"
    if "R ng (Some (sid, t)) w" "unat n = t" "0 \<le> sid" "advance_offsets L sid n (ng, w) = Some (ng', w')"
    using c2 that(1-3) that(4) [unfolded advance_offsets_def fst_conv snd_conv] order_refl by blast
  show "work ng w' \<le> work ng w" if "queues_kept w w'" using c4 that by blast
qed (use ng_progress_block [OF assms] in simp_all)

text \<open>Every tracked stream marked as blocked is blocked for nghttp3 as well.\<close>

definition blocked_agree :: "('ng \<Rightarrow> int set) \<Rightarrow> 'ng \<Rightarrow> 'o world \<Rightarrow> bool" where
  "blocked_agree ngb ng w \<longleftrightarrow>
     (\<forall>sid p. streams (w_se w) sid = Some p \<longrightarrow> write_blocked (get_obj w p) \<longrightarrow> sid \<in> ngb ng)"

definition open_set :: "'o world \<Rightarrow> sptr set" where
  "open_set w = {p \<in> ran (streams (w_se w)). \<not> write_blocked (get_obj w p)}"

text \<open>A round that goes on advances a whole offer, or blocks the stream it wrote to.\<close>

lemma flush_round_go:
  assumes law: "libs_law L R sent" and ok: "evt_ok R ng w" and go: "flush_round L (ng, w) = Some (True, s')"
  obtains ng1 sid fin vecs w1 w2 n ng3 w3 where
    "ng_run L (ng_writev_stream (lib_ng L) ng) w = Some ((ng1, Writev sid fin vecs), w1)"
    and "\<not> (vecs = [] \<and> sid < 0)" and "cb_frame w w1" and "world_inv w2" and "queues_kept w1 w2" and "w_se w2 = w_se w1"
    and "R ng1 (Some (sid, length (concat vecs))) w2" and "unat n \<le> length (concat vecs)"
    and "advance_offsets L sid n (ng1, w2) = Some (ng3, w3)" and "cb_frame w2 w3" and "evt_ok R ng3 w3"
    and "unat n = length (concat vecs) \<and> s' = (ng3, w3) \<or>
      (\<exists>p. h3_stream_find (w_se w1) sid = Some p \<and> s' = block_stream L p sid (ng3, w3))"
proof -
  note N = libs_lawD(1) [OF law]
  have i: "world_inv w" "R ng None w" using ok by (simp_all add: evt_ok_def)
  obtain a w1 where r: "ng_run L (ng_writev_stream (lib_ng L) ng) w = Some (a, w1)"
      "world_inv w1" "cb_frame w w1" "writev_agrees R a w1"
    by (rule ng_run_ok [OF libs_lawD(2) [OF law] i(1) ng_lawD(1) [OF N i]])
  from go r(1) obtain ng1 sid fin vecs where a: "a = (ng1, Writev sid fin vecs)" and nz: "\<not> (vecs = [] \<and> sid < 0)"
    by (cases a; cases "snd a") (auto simp: flush_round_def split: if_splits)
  have len: "length (concat vecs) < 2 ^ 64" and R1: "R ng1 (Some (sid, length (concat vecs))) w1" using r(4) a by simp_all
  have un: "unat (vec_total vecs) = length (concat vecs)" using len by (simp add: vec_total_length unat_of_nat_64)
  have adv: "\<exists>ng3 w3. advance_offsets L sid n (ng1, w2) = Some (ng3, w3) \<and> cb_frame w2 w3 \<and> evt_ok R ng3 w3"
    if "world_inv w2" "R ng1 (Some (sid, length (concat vecs))) w2" "unat n \<le> length (concat vecs)" for n w2
    by (rule ng_run_ok [OF libs_lawD(2) [OF law] that(1) ng_lawD(2) [OF N that]])
      (auto simp: advance_offsets_def evt_ok_def)
  define found where "found = (case h3_stream_find (w_se w1) sid of None \<Rightarrow> None
      | Some p \<Rightarrow> map_option (Pair p) (qstream (get_obj w1 p)))"
  note fin = that [OF r(1) [unfolded a] nz r(3)]
  show thesis
  proof (cases found)
    case None
    obtain ng3 w3 where s: "advance_offsets L sid (vec_total vecs) (ng1, w1) = Some (ng3, w3)" "cb_frame w1 w3" "evt_ok R ng3 w3"
      using adv [OF r(2) R1, of "vec_total vecs"] un by auto
    have "s' = (ng3, w3)" using go r(1) a nz None s(1) by (auto simp: flush_round_def Let_def found_def [symmetric])
    then show thesis using r(2) R1 s un by (intro fin [of w1 "vec_total vecs" ng3 w3]) simp_all
  next
    case (Some pq)
    then obtain p q where pq: "pq = (p, q)" "h3_stream_find (w_se w1) sid = Some p"
      by (auto simp: found_def split: option.splits)
    obtain so res where wr: "h3q_stream_write (lib_ssl L) (w_ssl w1) q vecs fin = (so, res)" by fastforce
    note acc = stream_write_accepted [OF libs_lawD(3) [OF law] len wr]
    define w2 where "w2 = count_written (accepted res) (w1\<lparr>w_ssl := so\<rparr>)"
    have q2: "queues_kept w1 w2" "world_inv w2" "w_se w2 = w_se w1"
      using r(2) by (simp_all add: w2_def count_written_def queues_kept_def)
    have R2: "R ng1 (Some (sid, length (concat vecs))) w2" by (rule ng_lawD(7) [OF N R1 q2(1)])
    have body: "Some (True, s') =
        (if broken res then map_option (Pair True) (advance_offsets L sid (vec_total vecs) (ng1, w2))
         else (case advance_offsets L sid (accepted res) (ng1, w2) of None \<Rightarrow> None
               | Some s3 \<Rightarrow> Some (True, if blocked res then block_stream L p sid s3 else s3)))"
      unfolding go [symmetric] using r(1) a nz Some pq(1) wr by (auto simp: flush_round_def Let_def found_def [symmetric] w2_def)
    define n where "n = (if broken res then vec_total vecs else accepted res)"
    have n: "unat n \<le> length (concat vecs)" "\<not> blocked res \<or> broken res \<Longrightarrow> unat n = length (concat vecs)"
      using un acc by (auto simp: n_def)
    obtain ng3 w3 where s: "advance_offsets L sid n (ng1, w2) = Some (ng3, w3)" "cb_frame w2 w3" "evt_ok R ng3 w3"
      using adv [OF q2(2) R2 n(1)] by blast
    have "s' = (if blocked res \<and> \<not> broken res then block_stream L p sid (ng3, w3) else (ng3, w3))"
      using body s(1) by (auto simp: n_def split: if_splits)
    then show thesis using q2 R2 n s pq(2) by (intro fin [of w2 n ng3 w3]) auto
  qed
qed

lemma cb_frame_blocked:
  assumes "world_inv w" and "cb_frame w w'"
  shows "blocked_agree ngb ng w' = blocked_agree ngb ng w" and "open_set w' = open_set w"
proof -
  have s: "streams (w_se w') = streams (w_se w)" using assms(2) by (simp add: cb_frame_def Let_def)
  have b: "write_blocked (get_obj w' p) = write_blocked (get_obj w p)" if "streams (w_se w) sid = Some p" for sid p
    using world_invD(3) [OF assms(1) that] assms(2) by (simp add: cb_frame_def Let_def quiet_update_def get_obj_def)
  show "blocked_agree ngb ng w' = blocked_agree ngb ng w"
    unfolding blocked_agree_def s using b by blast
  show "open_set w' = open_set w" unfolding open_set_def s using b by (auto simp: ran_def)
qed

lemma open_set_finite:
  assumes "world_inv w"
  shows "finite (open_set w)" and "card (open_set w) \<le> card (ran (streams (w_se w)))"
proof -
  have "finite (ran (streams (w_se w)))" using world_invD(2) [OF assms] by (rule finite_ran)
  then show "finite (open_set w)" and "card (open_set w) \<le> card (ran (streams (w_se w)))"
    by (auto simp: open_set_def intro: card_mono)
qed

lemma block_stream_progress:
  assumes inv: "world_inv w" and f: "streams (w_se w) sid = Some p" and nb: "\<not> write_blocked (get_obj w p)"
    and prog: "ng_progress L R work ngb" and ag: "blocked_agree ngb ng w"
    and s': "block_stream L p sid (ng, w) = (ng', w')"
  shows "blocked_agree ngb ng' w'" and "card (open_set w') < card (open_set w)" and "work ng' w' \<le> work ng w"
proof -
  have pl: "p < length (objs (w_se w))" using world_invD(3) [OF inv f] by simp
  have ng': "ng' = ng_block_stream (lib_ng L) ng sid"
    and w': "w' = upd_se (\<lambda>se. se\<lparr>blocked_streams := blocked_streams se + 1\<rparr>) (put_obj p ((get_obj w p)\<lparr>write_blocked := True\<rparr>) w)"
    using s' nb by (auto simp: block_stream_def)
  have g: "get_obj w' q = (if q = p then (get_obj w p)\<lparr>write_blocked := True\<rparr> else get_obj w q)" for q
    using pl by (simp add: w' get_obj_def)
  have st: "streams (w_se w') = streams (w_se w)" by (simp add: w')
  show "blocked_agree ngb ng' w'"
    unfolding blocked_agree_def st
  proof (intro allI impI)
    fix s q assume q: "streams (w_se w) s = Some q" "write_blocked (get_obj w' q)"
    show "s \<in> ngb ng'"
    proof (cases "q = p")
      case True
      then have "s = sid" using world_invD(3) [OF inv q(1)] world_invD(3) [OF inv f] by simp
      then show ?thesis by (simp add: ng' ng_progressD(6) [OF prog])
    next
      case False
      with ag q show ?thesis by (auto simp: ng' ng_progressD(6) [OF prog] g blocked_agree_def)
    qed
  qed
  have "open_set w' = open_set w - {p}" by (auto simp: open_set_def g st)
  moreover have "p \<in> open_set w" using f nb by (auto simp: open_set_def ran_def)
  ultimately show "card (open_set w') < card (open_set w)"
    using open_set_finite(1) [OF inv] card_Diff1_less by metis
  have "queues_kept w w'"
    by (rule queues_kept_same) (use pl in \<open>simp_all add: w' nth_list_update resp_same_def get_obj_def\<close>)
  from ng_progressD(9) [OF prog this] show "work ng' w' \<le> work ng w" by (simp add: ng' ng_progressD(5) [OF prog])
qed

lemma flush_round_progress:
  assumes law: "libs_law L R sent" and prog: "ng_progress L R work ngb" and ok: "evt_ok R ng w"
    and ag: "blocked_agree ngb ng w" and go: "flush_round L (ng, w) = Some (True, ng', w')"
  shows "blocked_agree ngb ng' w'" and "work ng' w' + card (open_set w') < work ng w + card (open_set w)"
proof -
  obtain ng1 sid fin vecs w1 w2 n ng3 w3 where
    r: "ng_run L (ng_writev_stream (lib_ng L) ng) w = Some ((ng1, Writev sid fin vecs), w1)"
      "\<not> (vecs = [] \<and> sid < 0)" "cb_frame w w1" "world_inv w2" "queues_kept w1 w2" "w_se w2 = w_se w1"
      "R ng1 (Some (sid, length (concat vecs))) w2" "unat n \<le> length (concat vecs)"
      "advance_offsets L sid n (ng1, w2) = Some (ng3, w3)" "cb_frame w2 w3" "evt_ok R ng3 w3"
    and c: "unat n = length (concat vecs) \<and> (ng', w') = (ng3, w3) \<or>
      (\<exists>p. h3_stream_find (w_se w1) sid = Some p \<and> (ng', w') = block_stream L p sid (ng3, w3))"
    by (rule flush_round_go [OF law ok go])
  have i: "world_inv w" "R ng None w" using ok by (simp_all add: evt_ok_def)
  note v = ng_progressD(1,2) [OF prog i(2) r(1)] and a = ng_progressD(3) [OF prog r(7,8,9)]
  have o2: "open_set w2 = open_set w" "blocked_agree ngb x w2 = blocked_agree ngb x w" for x
    using cb_frame_blocked(1) [OF i(1) r(3), of ngb] cb_frame_blocked(2) [OF i(1) r(3)] r(6) by (simp_all add: open_set_def blocked_agree_def get_obj_def)
  have o3: "open_set w3 = open_set w" "blocked_agree ngb x w3 = blocked_agree ngb x w" for x
    using cb_frame_blocked(1) [OF r(4) r(10), of ngb] cb_frame_blocked(2) [OF r(4) r(10)] o2 by simp_all
  have n3: "ngb ng3 = ngb ng" using v(1) a by simp
  then have ag3: "blocked_agree ngb ng3 w3" using ag o3(2) [of ng3] by (simp add: blocked_agree_def)
  have le: "work ng1 w2 \<le> work ng w" using v(1) ng_progressD(9) [OF prog r(5)] by (meson le_trans)
  have sid: "0 \<le> sid" using r(2) v(2) by auto
  from c have "blocked_agree ngb ng' w' \<and> work ng' w' + card (open_set w') < work ng w + card (open_set w)"
  proof
    assume e: "unat n = length (concat vecs) \<and> (ng', w') = (ng3, w3)"
    from ng_progressD(4) [OF prog r(7) _ sid r(9)] e le have "work ng3 w3 < work ng w" by simp
    then show ?thesis using e ag3 o3(1) by simp
  next
    assume "\<exists>p. h3_stream_find (w_se w1) sid = Some p \<and> (ng', w') = block_stream L p sid (ng3, w3)"
    then obtain p where p: "h3_stream_find (w_se w1) sid = Some p" "block_stream L p sid (ng3, w3) = (ng', w')" by auto
    have f3: "streams (w_se w3) sid = Some p"
      using p(1) r(6,10) by (simp add: h3_stream_find_def cb_frame_def Let_def)
    have nb: "\<not> write_blocked (get_obj w3 p)" using ag3 f3 v(2) n3 sid by (auto simp: blocked_agree_def)
    have i3: "world_inv w3" using r(11) by (simp add: evt_ok_def)
    show ?thesis using block_stream_progress [OF i3 f3 nb prog ag3 p(2)] a le o3(1) by simp
  qed
  then show "blocked_agree ngb ng' w'" and "work ng' w' + card (open_set w') < work ng w + card (open_set w)" by simp_all
qed

lemma flush_round_stop:
  assumes law: "libs_law L R sent" and prog: "ng_progress L R work ngb" and ok: "evt_ok R ng w"
    and ag: "blocked_agree ngb ng w" and go: "flush_round L (ng, w) = Some (False, ng', w')"
  shows "blocked_agree ngb ng' w'"
proof -
  have i: "world_inv w" "R ng None w" using ok by (simp_all add: evt_ok_def)
  obtain a w1 where r: "ng_run L (ng_writev_stream (lib_ng L) ng) w = Some (a, w1)" "cb_frame w w1"
    by (rule ng_run_ok [OF libs_lawD(2) [OF law] i(1) ng_lawD(1) [OF libs_lawD(1) [OF law] i]])
  obtain ng1 ret where a: "a = (ng1, ret)" by fastforce
  have "ng' = ng1 \<and> (w' = w1 \<or> (\<exists>e. w' = mark_ngh3_dead L e w1))"
    using go r(1) a by (cases ret) (auto simp: flush_round_def Let_def split: if_splits option.splits prod.splits)
  moreover have "ngb ng1 = ngb ng" using ng_progressD(1) [OF prog i(2) r(1) [unfolded a]] by simp
  ultimately show ?thesis
    using cb_frame_blocked(1) [OF i(1) r(2), of ngb ng1] ag
    by (auto simp: blocked_agree_def mark_ngh3_dead_def get_obj_def)
qed

lemma flush_loop_ends:
  assumes law: "libs_law L R sent" and prog: "ng_progress L R work ngb"
  shows "evt_ok R ng w \<Longrightarrow> blocked_agree ngb ng w \<Longrightarrow> work ng w + card (open_set w) < fuel \<Longrightarrow>
    \<exists>ng' w'. flush_loop L fuel (ng, w) = Done (ng', w') \<and> evt_keeps R w (ng', w') \<and> blocked_agree ngb ng' w'"
proof (induction fuel arbitrary: ng w)
  case 0
  then show ?case by simp
next
  case (Suc k)
  from flush_round_keeps [OF law Suc.prems(1)] obtain go ng1 w1 where
    r: "flush_round L (ng, w) = Some (go, ng1, w1)" "evt_keeps R w (ng1, w1)" by auto
  have k: "evt_ok R ng1 w1" "evt_frame w w1" using r(2) by (simp_all add: evt_keeps_def)
  show ?case
  proof (cases go)
    case True
    then have "flush_round L (ng, w) = Some (True, ng1, w1)" using r(1) by simp
    note p = flush_round_progress [OF law prog Suc.prems(1,2) this]
    from Suc.IH [OF k(1) p(1)] p(2) Suc.prems(3) obtain ng' w' where
      "flush_loop L k (ng1, w1) = Done (ng', w')" "evt_keeps R w1 (ng', w')" "blocked_agree ngb ng' w'" by auto
    then show ?thesis using r(1) True evt_keeps_step [OF k(2)] by auto
  next
    case False
    then show ?thesis using r flush_round_stop [OF law prog Suc.prems(1,2)] by simp
  qed
qed

lemma map_filter_replace:
  assumes "p < length xs" and "f x = Some q"
  shows "mset (List.map_filter f (xs[p := x])) \<subseteq># add_mset q (mset (List.map_filter f xs))"
  using assms
proof (induction xs arbitrary: p)
  case (Cons y ys)
  show ?case
  proof (cases p)
    case 0
    then show ?thesis using Cons.prems(2) by (auto simp: List.map_filter_simps split: option.splits)
  next
    case (Suc k)
    then have "mset (List.map_filter f (ys[k := x])) \<subseteq># add_mset q (mset (List.map_filter f ys))"
      using Cons by simp
    then show ?thesis using Suc by (auto simp: List.map_filter_simps add_mset_commute split: option.splits)
  qed
qed simp

lemma mset_sub_distinct: "mset xs \<subseteq># mset ys \<Longrightarrow> distinct ys \<Longrightarrow> distinct xs"
proof -
  assume s: "mset xs \<subseteq># mset ys" and d: "distinct ys"
  have "count (mset xs) a = (if a \<in> set xs then 1 else 0)" for a
  proof -
    have "count (mset xs) a \<le> count (mset ys) a" using s by (rule mset_subset_eq_count)
    also have "\<dots> \<le> 1" using d by (simp add: distinct_count_atmost_1)
    finally have le: "count (mset xs) a \<le> 1" .
    show ?thesis
    proof (cases "a \<in> set xs")
      case True
      then have "0 < count (mset xs) a" by simp
      with le have "count (mset xs) a = 1" by linarith
      with True show ?thesis by (simp only: if_True)
    qed (simp add: count_eq_zero_iff)
  qed
  then show "distinct xs" by (simp add: distinct_count_atmost_1)
qed

lemma rehandle_keeps:
  assumes inv: "world_inv w" and p: "p < length (objs (w_se w))"
    and q: "q \<notin> set (handles (w_se w) @ pending_free (w_se w) @ w_freed w)"
  defines "w' \<equiv> put_obj p ((get_obj w p)\<lparr>qstream := Some q\<rparr>) w"
  shows "world_inv w'" and "queues_kept w w'"
proof -
  have g: "objs (w_se w') = (objs (w_se w))[p := (get_obj w p)\<lparr>qstream := Some q\<rparr>]" by (simp add: w'_def)
  have rest: "sess_conf (w_se w') = sess_conf (w_se w)" "streams (w_se w') = streams (w_se w)" "w_user w' = w_user w"
    "pending_h3s (w_se w') = pending_h3s (w_se w)" "pending_sid (w_se w') = pending_sid (w_se w)"
    "w_heaps w' = w_heaps w" "pending_free (w_se w') = pending_free (w_se w)" "w_freed w' = w_freed w"
    "blocked_streams (w_se w') = blocked_streams (w_se w)" by (simp_all add: w'_def)
  have b: "blocked_set (w_se w') = blocked_set (w_se w)"
    using p by (auto simp: blocked_set_def g rest nth_list_update get_obj_def)
  have "mset (handles (w_se w')) \<subseteq># add_mset q (mset (handles (w_se w)))"
    unfolding handles_def g by (rule map_filter_replace [OF p]) simp
  then have "mset (handles (w_se w') @ pending_free (w_se w') @ w_freed w') \<subseteq>#
      mset (q # handles (w_se w) @ pending_free (w_se w) @ w_freed w)" by (simp add: rest)
  then have d: "distinct (handles (w_se w') @ pending_free (w_se w') @ w_freed w')"
    by (rule mset_sub_distinct) (use q world_invD(6) [OF inv] in simp)
  have same: "objs (w_se w') ! i = (if i = p then (get_obj w p)\<lparr>qstream := Some q\<rparr> else objs (w_se w) ! i)"
    if "i < length (objs (w_se w))" for i using that by (simp add: g nth_list_update)
  show "world_inv w'"
  proof (rule world_inv_mod [OF inv])
    show "i < length (objs (w_se w)) \<and> stream_id (objs (w_se w) ! i) = pending_sid (w_se w')"
      if "pending_h3s (w_se w') = Some i" for i using world_invD(5) [OF inv, of i] that by (simp add: rest)
    show "stream_id (objs (w_se w') ! i) = stream_id (objs (w_se w) ! i)" if "i < length (objs (w_se w))" for i
      using that by (simp add: same get_obj_def)
    show "stream_ok (h3_max_request_body_size (sess_conf (w_se w))) (w_heaps w' i) (objs (w_se w') ! i)"
      if "i < length (objs (w_se w))" for i
      using world_invD(7) [OF inv that] that
      by (auto simp: same rest get_obj_def stream_ok_def body_wf_def resp_rep_def)
    show "w_heaps w' i = []" if "length (objs (w_se w)) \<le> i" for i using world_invD(8) [OF inv that] by (simp only: rest)
    show "blocked_streams (w_se w') = int (card (blocked_set (w_se w')))" using world_invD(9) [OF inv] by (simp only: rest b)
  qed (use d in \<open>simp_all add: rest g\<close>)
  show "queues_kept w w'"
    by (rule queues_kept_same) (use p in \<open>simp_all add: rest g nth_list_update resp_same_def get_obj_def\<close>)
qed

lemma add_stream_keeps:
  assumes inv: "world_inv w" and q: "q \<notin> set (handles (w_se w) @ pending_free (w_se w) @ w_freed w)"
    and none: "streams (w_se w) sid = None" and st: "st = new_stream (sess_conf (w_se w)) sid q"
  defines "w' \<equiv> upd_se (\<lambda>se. se\<lparr>objs := objs se @ [st], streams := (streams se)(sid \<mapsto> length (objs se))\<rparr>) w"
  shows "world_inv w'" and "queues_kept w w'"
proof -
  let ?n = "length (objs (w_se w))"
  have sf: "stream_id st = sid" "qstream st = Some q" "\<not> write_blocked st"
    by (simp_all add: st new_stream_def zero_stream_def)
  have rest: "sess_conf (w_se w') = sess_conf (w_se w)" "streams (w_se w') = (streams (w_se w))(sid \<mapsto> ?n)" "w_user w' = w_user w"
    "objs (w_se w') = objs (w_se w) @ [st]"
    "pending_h3s (w_se w') = pending_h3s (w_se w)" "pending_sid (w_se w') = pending_sid (w_se w)"
    "w_heaps w' = w_heaps w" "pending_free (w_se w') = pending_free (w_se w)" "w_freed w' = w_freed w"
    "blocked_streams (w_se w') = blocked_streams (w_se w)" by (simp_all add: w'_def)
  have "ran (streams (w_se w')) = insert ?n (ran (streams (w_se w)))" using none by (simp add: rest)
  moreover have "i < ?n" if "i \<in> ran (streams (w_se w))" for i using that world_invD(3) [OF inv] by (auto simp: ran_def)
  ultimately have b: "blocked_set (w_se w') = blocked_set (w_se w)"
    using sf(3) by (auto simp: blocked_set_def rest nth_append)
  have h: "handles (w_se w') = handles (w_se w) @ [q]"
    using sf(2) by (simp add: handles_def rest List.map_filter_def)
  have ok: "stream_ok (h3_max_request_body_size (sess_conf (w_se w))) [] st"
    by (rule blank_stream_ok) (simp_all add: st new_stream_def zero_stream_def resp_blank_def)
  show "world_inv w'"
  proof (rule world_invI)
    show "stream_ok (h3_max_request_body_size (sess_conf (w_se w'))) (w_heaps w' i) (objs (w_se w') ! i)"
      if "i < length (objs (w_se w'))" for i
      using that world_invD(7) [OF inv, of i] world_invD(8) [OF inv, of i] ok by (cases "i < ?n") (auto simp: rest nth_append)
    show "i < length (objs (w_se w')) \<and> stream_id (objs (w_se w') ! i) = s" if "streams (w_se w') s = Some i" for s i
      using that world_invD(3) [OF inv, of s i] sf(1) by (auto simp: rest nth_append split: if_splits)
    show "i < length (objs (w_se w')) \<and> stream_id (objs (w_se w') ! i) = s" if "w_user w' s = Some i" for s i
      using that world_invD(4) [OF inv, of s i] by (auto simp: rest nth_append)
    show "i < length (objs (w_se w')) \<and> stream_id (objs (w_se w') ! i) = pending_sid (w_se w')"
      if "pending_h3s (w_se w') = Some i" for i
      using that world_invD(5) [OF inv, of i] by (auto simp: rest nth_append)
    show "distinct (handles (w_se w') @ pending_free (w_se w') @ w_freed w')"
      unfolding h rest using world_invD(6) [OF inv] q by auto
    show "blocked_streams (w_se w') = int (card (blocked_set (w_se w')))" using world_invD(9) [OF inv] by (simp only: rest b)
  qed (use world_invD(1,2,8) [OF inv] in \<open>simp_all add: rest\<close>)
  show "queues_kept w w'" by (simp add: queues_kept_def rest nth_append)
qed

lemma unblock_one_progress:
  assumes inv: "world_inv w" and f: "p \<in> ran (streams (w_se w))"
    and prog: "ng_progress L R work ngb" and ag: "blocked_agree ngb ng w"
    and s': "unblock_one L p (ng, w) = (ng', w')"
  shows "blocked_agree ngb ng' w' \<and> work ng' w' \<le> work ng w"
proof (cases "ng' = ng \<and> w' = w")
  case True
  then show ?thesis using ag by simp
next
  case False
  then have ng': "ng' = ng_unblock_stream (lib_ng L) ng (stream_id (get_obj w p))"
    and w': "w' = upd_se (\<lambda>se. se\<lparr>blocked_streams := blocked_streams se - 1\<rparr>) (put_obj p ((get_obj w p)\<lparr>write_blocked := False\<rparr>) w)"
    using s' unfolding unblock_one_def by (auto simp: Let_def split: if_splits)
  from f obtain sid where sid: "streams (w_se w) sid = Some p" by (auto simp: ran_def)
  have pl: "p < length (objs (w_se w))" "stream_id (get_obj w p) = sid"
    using world_invD(3) [OF inv sid] by (simp_all add: get_obj_def)
  have g: "get_obj w' q = (if q = p then (get_obj w p)\<lparr>write_blocked := False\<rparr> else get_obj w q)" for q
    using pl by (simp add: w' get_obj_def)
  have st: "streams (w_se w') = streams (w_se w)" by (simp add: w')
  have "s \<in> ngb ng'" if q: "streams (w_se w) s = Some q" "write_blocked (get_obj w' q)" for s q
  proof -
    have "q \<noteq> p" using q(2) by (auto simp: g)
    then have "write_blocked (get_obj w q)" "s \<noteq> sid" using q sid by (auto simp: g)
    then show ?thesis using ag q(1) by (auto simp: ng' pl ng_progressD(8) [OF prog] blocked_agree_def)
  qed
  then have "blocked_agree ngb ng' w'" by (simp add: blocked_agree_def st)
  moreover have "queues_kept w w'"
    by (rule queues_kept_same) (use pl in \<open>simp_all add: w' nth_list_update resp_same_def get_obj_def\<close>)
  ultimately show ?thesis using ng_progressD(9) [OF prog] by (auto simp: ng' ng_progressD(7) [OF prog])
qed

lemma fold_unblock_progress:
  assumes law: "ng_law L R" and prog: "ng_progress L R work ngb"
  shows "evt_ok R ng w \<Longrightarrow> set ps \<subseteq> ran (streams (w_se w)) \<Longrightarrow> blocked_agree ngb ng w \<Longrightarrow>
    fold (unblock_one L) ps (ng, w) = (ng', w') \<Longrightarrow> blocked_agree ngb ng' w' \<and> work ng' w' \<le> work ng w"
proof (induction ps arbitrary: ng w)
  case Nil
  then show ?case by simp
next
  case (Cons p ps)
  obtain ng1 w1 where u: "unblock_one L p (ng, w) = (ng1, w1)" by fastforce
  have k: "evt_ok R ng1 w1" "evt_frame w w1"
    using unblock_one_keeps [OF law Cons.prems(1), of p] Cons.prems(2) u by (auto simp: evt_keeps_def)
  have i: "world_inv w" using Cons.prems(1) by (simp add: evt_ok_def)
  have p: "p \<in> ran (streams (w_se w))" using Cons.prems(2) by simp
  have sp: "set ps \<subseteq> ran (streams (w_se w1))" using k(2) Cons.prems(2) by (simp add: evt_frame_def Let_def)
  note o = unblock_one_progress [OF i p prog Cons.prems(3) u]
  have "fold (unblock_one L) ps (ng1, w1) = (ng', w')" using Cons.prems(4) u by simp
  from Cons.IH [OF k(1) sp conjunct1 [OF o] this] o show ?case by (meson le_trans)
qed

lemma unblock_writable_progress:
  assumes "ng_law L R" and "ng_progress L R work ngb" and "evt_ok R ng w" and "blocked_agree ngb ng w"
    and "unblock_writable_streams L (ng, w) = (ng', w')"
  shows "blocked_agree ngb ng' w'" and "work ng' w' \<le> work ng w"
  using fold_unblock_progress [OF assms(1-3) hash_values_ran [of L] assms(4)] assms(4,5)
  by (auto simp: unblock_writable_streams_def split: if_splits)

lemma flush_ends:
  assumes "libs_law L R sent" and "ng_progress L R work ngb" and "world_inv w" and "R ng None w"
    and "ngh3 (w_se w)" and "\<not> ngh3_dead (w_se w)" and "blocked_agree ngb ng w"
    and "work ng w + card (ran (streams (w_se w))) < fuel"
  shows "\<exists>ng' w'. flush_nghttp3 L fuel (ng, w) = Done (ng', w') \<and> world_inv w' \<and> R ng' None w' \<and>
    evt_frame w w' \<and> blocked_agree ngb ng' w' \<and> pending_free (w_se w') = []"
proof -
  note N = libs_lawD(1) [OF assms(1)]
  have ok: "evt_ok R ng w" using assms(3,4) by (simp add: evt_ok_def)
  obtain ng0 w0 where u: "unblock_writable_streams L (ng, w) = (ng0, w0)" by fastforce
  have k0: "evt_ok R ng0 w0" "evt_frame w w0"
    using unblock_writable_keeps [OF N ok] u by (simp_all add: evt_keeps_def)
  note p0 = unblock_writable_progress [OF N assms(2) ok assms(7) u]
  have "card (open_set w0) \<le> card (ran (streams (w_se w)))"
    using open_set_finite(2) [of w0] k0 by (simp add: evt_ok_def evt_frame_def Let_def)
  with p0(2) assms(8) have "work ng0 w0 + card (open_set w0) < fuel" by simp
  from flush_loop_ends [OF assms(1,2) k0(1) p0(1) this] obtain ng' w' where
    r: "flush_loop L fuel (ng0, w0) = Done (ng', w')" "evt_keeps R w0 (ng', w')" "blocked_agree ngb ng' w'" by blast
  have k': "evt_ok R ng' w'" "evt_frame w0 w'" using r(2) by (simp_all add: evt_keeps_def)
  note f = free_pending_keeps [OF N k'(1)]
  have "flush_nghttp3 L fuel (ng, w) = Done (ng', free_pending L w')"
    using assms(5,6) u r(1) by (simp add: flush_nghttp3_def)
  moreover have "blocked_agree ngb ng' (free_pending L w')"
    using r(3) by (simp add: blocked_agree_def free_pending_def Let_def get_obj_def)
  ultimately show ?thesis
    using f evt_frame_trans [OF k0(2) evt_frame_trans [OF k'(2)]] by (auto simp: evt_keeps_def evt_ok_def)
qed

text \<open>
  C17: A flush ends: within the work nghttp3 has to offer plus the number of tracked streams,
  whatever OpenSSL accepts or refuses, because every round consumes a whole offer or blocks a
  stream that is then not offered again. It leaves the session well formed, with the count of
  blocked streams exact and agreed with nghttp3, and no QUIC stream handle freed twice or
  left waiting to be freed.
\<close>

theorem flush_terminates_safely:
  assumes "libs_law L R sent" and "ng_progress L R work ngb" and "world_inv w" and "R ng None w"
    and "ngh3 (w_se w)" and "\<not> ngh3_dead (w_se w)" and "blocked_agree ngb ng w"
    and "work ng w + card (ran (streams (w_se w))) < fuel"
  shows "\<exists>ng' w'. flush_nghttp3 L fuel (ng, w) = Done (ng', w') \<and> world_inv w' \<and> R ng' None w' \<and>
    evt_frame w w' \<and> blocked_agree ngb ng' w' \<and> pending_free (w_se w') = []"
  using assms by (rule flush_ends [where R = R])

lemma track_stream_ok:
  assumes "world_inv w" and "q \<notin> set (handles (w_se w) @ pending_free (w_se w) @ w_freed w)"
    and "track_stream True True sid q w = Some (r, w')"
  shows "world_inv w' \<and> queues_kept w w' \<and> (\<exists>p. r = Some p \<and> h3_stream_find (w_se w') sid = Some p \<and>
    qstream (get_obj w' p) = Some q \<and> stream_id (get_obj w' p) = sid \<and>
    (\<forall>p' < length (objs (w_se w)). p' \<noteq> p \<longrightarrow> get_obj w' p' = get_obj w p') \<and>
    (\<forall>s. s \<noteq> sid \<longrightarrow> streams (w_se w') s = streams (w_se w) s) \<and>
    (streams (w_se w) sid = None \<longrightarrow> resp_blank (get_obj w' p) \<and>
       response_buffer_limit (get_obj w' p) = h3_stream_buffer_size (sess_conf (w_se w))))"
proof (cases "streams (w_se w) sid")
  case (Some p)
  then have pl: "p < length (objs (w_se w))" "stream_id (get_obj w p) = sid"
    using world_invD(3) [OF assms(1) Some] by (simp_all add: get_obj_def)
  have e: "r = Some p" "w' = put_obj p ((get_obj w p)\<lparr>qstream := Some q\<rparr>) w"
    using assms(3) Some by (auto simp: track_stream_def h3_stream_find_def)
  show ?thesis using rehandle_keeps [OF assms(1) pl(1) assms(2), folded e(2)] e pl Some
    by (auto simp: h3_stream_find_def get_obj_def)
next
  case None
  define st where "st = new_stream (sess_conf (w_se w)) sid q"
  have e: "r = Some (length (objs (w_se w)))"
    "w' = upd_se (\<lambda>se. se\<lparr>objs := objs se @ [st], streams := (streams se)(sid \<mapsto> length (objs se))\<rparr>) w"
    using assms(3) None by (auto simp: track_stream_def h3_stream_find_def Let_def st_def)
  have "h3_stream_buffer_size (sess_conf (w_se w)) \<noteq> 0"
    using world_invD(1) [OF assms(1)] by (auto simp: conf_ready_def)
  then have "resp_blank st" "response_buffer_limit st = h3_stream_buffer_size (sess_conf (w_se w))"
    "qstream st = Some q" "stream_id st = sid" by (simp_all add: st_def new_stream_def resp_blank_def zero_stream_def)
  with add_stream_keeps [OF assms(1,2) None st_def, folded e(2)] e None show ?thesis
    by (auto simp: h3_stream_find_def get_obj_def nth_append)
qed

text \<open>
  C18: Tracking a stream under a handle nothing else holds keeps the session well formed and
  leaves the stream findable under its identifier with that handle and, when it was not
  tracked before, with an empty response queue under the configured limit; other streams are
  untouched. It fails only when the pool or the condition variable cannot be created.
\<close>

theorem track_stream_correct:
  assumes "world_inv w" and "q \<notin> set (handles (w_se w) @ pending_free (w_se w) @ w_freed w)"
    and "track_stream True True sid q w = Some (r, w')"
  shows "world_inv w' \<and> queues_kept w w' \<and> (\<exists>p. r = Some p \<and> h3_stream_find (w_se w') sid = Some p \<and>
    qstream (get_obj w' p) = Some q \<and> stream_id (get_obj w' p) = sid \<and>
    (\<forall>p' < length (objs (w_se w)). p' \<noteq> p \<longrightarrow> get_obj w' p' = get_obj w p') \<and>
    (\<forall>s. s \<noteq> sid \<longrightarrow> streams (w_se w') s = streams (w_se w) s) \<and>
    (streams (w_se w) sid = None \<longrightarrow> resp_blank (get_obj w' p) \<and>
       response_buffer_limit (get_obj w' p) = h3_stream_buffer_size (sess_conf (w_se w))))"
  using assms by (rule track_stream_ok)

section \<open>A concrete library\<close>

text \<open>An nghttp3 that holds bytes to send on stream 0, and the set of streams it was told are blocked.\<close>

definition wit_ng :: "(byte list \<times> int set) nghttp3" where
  "wit_ng = \<lparr>ng_writev_stream = (\<lambda>ng. Ret (ng, if fst ng = [] \<or> 0 \<in> snd ng then Writev (-1) False [] else Writev 0 False [fst ng])),
     ng_add_write_offset = (\<lambda>ng sid n. (drop (unat n) (fst ng), snd ng)), ng_add_ack_offset = (\<lambda>ng sid n. Ret ng),
     ng_read_stream = (\<lambda>ng sid bs fin. Ret (ng, int (length bs))), ng_close_stream = (\<lambda>ng sid. Ret ng),
     ng_block_stream = (\<lambda>ng sid. (fst ng, insert sid (snd ng))), ng_unblock_stream = (\<lambda>ng sid. (fst ng, snd ng - {sid})),
     ng_infer_quic_app_error_code = (\<lambda>e. 258), ng_strerror = (\<lambda>e. ''error'')\<rparr>"

definition wit_libs :: "(byte list, byte list \<times> int set) libs" where
  "wit_libs = \<lparr>lib_ssl = wit_ssl, lib_ng = wit_ng, lib_palloc = (\<lambda>n. replicate (unat n) 0),
     lib_hash_order = (\<lambda>m. sorted_list_of_set (dom m)), lib_hash_count = (\<lambda>m. card (dom m))\<rparr>"

definition wit_agree :: "(byte list, byte list \<times> int set) agree" where
  "wit_agree ng ofr w \<longleftrightarrow> length (fst ng) < 2 ^ 64 \<and>
     (case ofr of None \<Rightarrow> True | Some (sid, t) \<Rightarrow> 0 \<le> sid \<longrightarrow> t = length (fst ng) \<and> fst ng \<noteq> [])"

lemma ng_run_Ret [simp]: "ng_run L (Ret a) w = Some (a, w)"
  by (simp add: ng_run_def)

lemma wit_libs_law: "libs_law wit_libs wit_agree (\<lambda>s q. s)"
proof -
  have "ng_law wit_libs wit_agree"
    by (auto simp: ng_law_def tree_ok_def wit_libs_def wit_ng_def wit_agree_def split: option.splits)
  moreover have "ssl_read_law wit_ssl" by (simp add: ssl_read_law_def wit_ssl_def)
  ultimately show ?thesis using wit_ssl_write_law wit_palloc_law by (simp add: libs_law_def wit_libs_def)
qed

lemma wit_progress: "ng_progress wit_libs wit_agree (\<lambda>ng w. length (fst ng)) snd"
  by (auto simp: ng_progress_def wit_libs_def wit_ng_def wit_agree_def split: if_splits)

theorem flush_terminates_safely_witness:
  "libs_law wit_libs wit_agree (\<lambda>s q. s) \<and> ng_progress wit_libs wit_agree (\<lambda>ng w. length (fst ng)) snd \<and>
   (\<exists>ng' w'. flush_nghttp3 wit_libs 5 (([1, 2, 3], {}), wit_world []) = Done (ng', w') \<and> world_inv w')"
proof -
  have st: "ran (streams (w_se (wit_world []))) = {0}" by (simp add: wit_world_def)
  have "\<exists>ng' w'. flush_nghttp3 wit_libs 5 (([1, 2, 3], {}), wit_world []) = Done (ng', w') \<and> world_inv w' \<and>
      wit_agree ng' None w' \<and> evt_frame (wit_world []) w' \<and> blocked_agree snd ng' w' \<and> pending_free (w_se w') = []"
    by (rule flush_terminates_safely [OF wit_libs_law wit_progress wit_world_inv])
      (simp_all add: st wit_agree_def blocked_agree_def, simp_all add: wit_world_def zero_session_def get_obj_def one_stream_def zero_stream_def)
  then show ?thesis using wit_libs_law wit_progress by blast
qed


theorem track_stream_correct_witness:
  "\<exists>r w'. track_stream True True 4 9 (wit_world (0 :: nat)) = Some (r, w') \<and> h3_stream_find (w_se w') 4 = r \<and> world_inv w'"
proof -
  obtain r w' where t: "track_stream True True 4 9 (wit_world (0 :: nat)) = Some (r, w')"
    by (simp add: track_stream_def h3_stream_find_def wit_world_def Let_def)
  have "9 \<notin> set (handles (w_se (wit_world (0 :: nat))) @ pending_free (w_se (wit_world (0 :: nat))) @ w_freed (wit_world (0 :: nat)))"
    by (simp add: wit_world_def zero_session_def handles_def one_stream_def zero_stream_def List.map_filter_simps)
  from track_stream_correct [OF wit_world_inv this t] t show ?thesis by auto
qed

end
