(* ===== verification/H3_Session.thy ===== *)
theory H3_Session
  imports H3_Stream
begin

text \<open>
  Creating and destroying sessions (\<^verbatim>\<open>src/h3_session.c\<close>): the session object, the three
  unidirectional streams an HTTP/3 endpoint opens for control and QPACK, and the release of
  everything a session holds. The nghttp3 calls that make no callbacks are a record of
  functions. A call returns \<open>None\<close> where a \<^verbatim>\<open>CHECK\<close> would stop the child.
\<close>

section \<open>Operations\<close>

record 'ng ng_conn_ops =
  ng_server_new :: "'ng option"
  ng_set_max_concurrent_streams :: "'ng \<Rightarrow> uint32_t \<Rightarrow> 'ng"
  ng_set_max_client_streams_bidi :: "'ng \<Rightarrow> uint32_t \<Rightarrow> 'ng"
  ng_bind_control_stream :: "'ng \<Rightarrow> int \<Rightarrow> 'ng \<times> int"
  ng_bind_qpack_streams :: "'ng \<Rightarrow> int \<Rightarrow> int \<Rightarrow> 'ng \<times> int"

definition h3_session_create ::
  "'ng ng_conn_ops \<Rightarrow> apr_status \<Rightarrow> h3_server_conf \<Rightarrow> qconn option \<Rightarrow> apr_status \<times> (h3_session \<times> 'ng) option" where
  "h3_session_create N mutex_rv conf qc =
    (let se = (zero_session conf)\<lparr>qconn := qc\<rparr> in
     if mutex_rv \<noteq> APR_SUCCESS then (mutex_rv, None)
     else (case ng_server_new N of
             None \<Rightarrow> (APR_EGENERAL, None)
           | Some ng \<Rightarrow>
             (let ng1 = ng_set_max_concurrent_streams N ng (h3_max_concurrent_streams conf);
                  ng2 = ng_set_max_client_streams_bidi N ng1 (h3_max_concurrent_streams conf)
              in (APR_SUCCESS, Some (se\<lparr>ngh3 := True\<rparr>, ng2)))))"

text \<open>The three opens, in order.\<close>

fun open_streams :: "'o openssl \<Rightarrow> nat \<Rightarrow> qconn \<Rightarrow> 'o \<Rightarrow> (qstream \<times> int) option list \<times> 'o" where
  "open_streams ssl 0 c s = ([], s)"
| "open_streams ssl (Suc n) c s =
    (case h3q_conn_open_uni_stream ssl s c of
       (s1, r) \<Rightarrow> (case open_streams ssl n c s1 of (rs, s2) \<Rightarrow> (r # rs, s2)))"

text \<open>Giving back what was opened.\<close>

definition free_opened :: "'o openssl \<Rightarrow> (qstream \<times> int) option list \<Rightarrow> 'o world \<Rightarrow> 'o world" where
  "free_opened ssl rs w =
    (let qs = map fst (List.map_filter id rs) in
     w\<lparr>w_ssl := fold (\<lambda>q s. h3q_stream_free ssl s (Some q)) qs (w_ssl w), w_freed := w_freed w @ qs\<rparr>)"

text \<open>Tracking the opened streams. What \<^verbatim>\<open>track_stream\<close> returns is not looked at.\<close>

fun track_opened :: "(bool \<times> bool) list \<Rightarrow> (qstream \<times> int) list \<Rightarrow> 'o world \<Rightarrow> 'o world option" where
  "track_opened (e # es) ((q, sid) # cs) w =
    Option.bind (track_stream (fst e) (snd e) sid q w) (\<lambda>(_, w1). track_opened es cs w1)"
| "track_opened _ _ w = Some w"

text \<open>Binding is attempted only when all three streams exist, and QPACK only after control.\<close>

definition bind_opened :: "'ng ng_conn_ops \<Rightarrow> 'ng \<Rightarrow> (qstream \<times> int) option list \<Rightarrow> 'ng \<times> (qstream \<times> int) list option" where
  "bind_opened N ng rs =
    (case rs of
       [Some c, Some e, Some d] \<Rightarrow>
         (case ng_bind_control_stream N ng (snd c) of (ng1, rv) \<Rightarrow>
            if rv \<noteq> 0 then (ng1, None)
            else (case ng_bind_qpack_streams N ng1 (snd e) (snd d) of (ng2, rv2) \<Rightarrow>
                    if rv2 \<noteq> 0 then (ng2, None) else (ng2, Some [c, e, d])))
     | _ \<Rightarrow> (ng, None))"

definition h3_session_create_control_streams ::
  "'o openssl \<Rightarrow> 'ng ng_conn_ops \<Rightarrow> (bool \<times> bool) list \<Rightarrow> 'ng \<times> 'o world \<Rightarrow> (apr_status \<times> 'ng \<times> 'o world) option" where
  "h3_session_create_control_streams ssl N env s =
    (case s of (ng, w) \<Rightarrow>
      if control_streams_created (w_se w) then Some (APR_SUCCESS, ng, w)
      else (case qconn (w_se w) of
              None \<Rightarrow> None
            | Some c \<Rightarrow>
              (case open_streams ssl 3 c (w_ssl w) of (rs, s1) \<Rightarrow>
                 let w1 = w\<lparr>w_ssl := s1\<rparr> in
                 (case bind_opened N ng rs of
                    (ng1, None) \<Rightarrow>
                      Some (APR_EGENERAL, ng1, upd_se (\<lambda>se. se\<lparr>ngh3 := False\<rparr>) (free_opened ssl rs w1))
                  | (ng1, Some cs) \<Rightarrow>
                      map_option (\<lambda>w2. (APR_SUCCESS, ng1, upd_se (\<lambda>se. se\<lparr>control_streams_created := True\<rparr>) w2))
                        (track_opened env cs w1)))))"

text \<open>Cancelling and emptying one tracked stream.\<close>

definition destroy_stream :: "sptr \<Rightarrow> 'o world \<Rightarrow> 'o world option" where
  "destroy_stream p w =
    map_option (\<lambda>(h, st'). put_heap p h (put_obj p st' w))
      (h3_stream_response_cleanup_locked (w_heaps w p) (fst (h3_stream_response_cancel_locked (get_obj w p))))"

fun destroy_streams :: "sptr list \<Rightarrow> 'o world \<Rightarrow> 'o world option" where
  "destroy_streams [] w = Some w"
| "destroy_streams (p # ps) w = Option.bind (destroy_stream p w) (destroy_streams ps)"

text \<open>The first result lists the connections freed.\<close>

definition h3_session_destroy :: "('o, 'ng) libs \<Rightarrow> 'o world \<Rightarrow> (qconn list \<times> 'o world) option" where
  "h3_session_destroy L w =
    (let w1 = upd_se (\<lambda>se. se\<lparr>ngh3 := False\<rparr>) w in
     case destroy_streams (hash_values L (w_se w1)) w1 of
       None \<Rightarrow> None
     | Some w2 \<Rightarrow>
       (let w3 = free_pending L w2 in
        case qconn (w_se w3) of
          None \<Rightarrow> Some ([], w3)
        | Some c \<Rightarrow> Some ([c], upd_se (\<lambda>se. se\<lparr>qconn := None\<rparr>) (w3\<lparr>w_ssl := h3q_conn_free (lib_ssl L) (w_ssl w3) (Some c)\<rparr>))))"

section \<open>Creation\<close>

definition new_world :: "h3_session \<Rightarrow> 'o \<Rightarrow> (uint64_t \<times> uint64_t) option \<Rightarrow> 'o world" where
  "new_world se x counters = \<lparr>w_se = se, w_heaps = (\<lambda>_. []), w_user = Map.empty, w_ssl = x, w_freed = [],
     w_reclaimed = [], w_stats = counters\<rparr>"

lemma new_world_inv:
  assumes "conf_ready conf"
  shows "world_inv (new_world ((zero_session conf)\<lparr>qconn := qc, ngh3 := b\<rparr>) x counters)"
  by (rule world_invI)
    (use assms in \<open>simp_all add: new_world_def zero_session_def handles_def blocked_set_def List.map_filter_simps\<close>)


definition wit_conn_ops :: "(byte list \<times> int set) ng_conn_ops" where
  "wit_conn_ops = \<lparr>ng_server_new = Some ([], {}), ng_set_max_concurrent_streams = (\<lambda>ng n. ng),
     ng_set_max_client_streams_bidi = (\<lambda>ng n. ng), ng_bind_control_stream = (\<lambda>ng i. (ng, 0)),
     ng_bind_qpack_streams = (\<lambda>ng i j. (ng, 0))\<rparr>"


section \<open>Control streams\<close>

text \<open>
  What is relied on of new streams: OpenSSL returns a handle it has not issued before, and a
  stream identifier not used before, of the server-initiated unidirectional kind.
\<close>

definition uni_law :: "'o openssl \<Rightarrow> ('o \<Rightarrow> qstream set) \<Rightarrow> ('o \<Rightarrow> int set) \<Rightarrow> bool" where
  "uni_law ssl issued ids \<longleftrightarrow> (\<forall>s c s' r. h3q_conn_open_uni_stream ssl s c = (s', r) \<longrightarrow>
     (case r of None \<Rightarrow> issued s' = issued s \<and> ids s' = ids s
      | Some (q, sid) \<Rightarrow> q \<notin> issued s \<and> issued s' = insert q (issued s) \<and> sid \<notin> ids s \<and> ids s' = insert sid (ids s) \<and>
          H3_SID_IS_SERVER sid \<and> \<not> H3_SID_IS_BIDI sid))"

lemma open_streams_fresh:
  assumes law: "uni_law ssl issued ids"
  shows "open_streams ssl n c s = (rs, s') \<Longrightarrow> length rs = n \<and> issued s \<subseteq> issued s' \<and>
    (let cs = List.map_filter id rs in distinct (map fst cs) \<and> distinct (map snd cs) \<and>
       set (map fst cs) \<inter> issued s = {} \<and> set (map snd cs) \<inter> ids s = {} \<and> issued s' = issued s \<union> set (map fst cs) \<and>
       list_all (\<lambda>(q, sid). H3_SID_IS_SERVER sid \<and> \<not> H3_SID_IS_BIDI sid) cs)"
proof (induction n arbitrary: s rs)
  case 0
  then show ?case by (auto simp: List.map_filter_simps)
next
  case (Suc n)
  obtain s1 r where o1: "h3q_conn_open_uni_stream ssl s c = (s1, r)" by fastforce
  obtain rs' where o2: "open_streams ssl n c s1 = (rs', s')" "rs = r # rs'"
    using Suc.prems o1 by (auto split: prod.splits)
  note IH = Suc.IH [OF o2(1)]
  show ?case
  proof (cases r)
    case None
    then have "issued s1 = issued s" "ids s1 = ids s" using law o1 by (force simp: uni_law_def)+
    then show ?thesis using IH None o2(2) by (simp add: List.map_filter_simps)
  next
    case (Some qs)
    obtain q sid where qs: "qs = (q, sid)" by fastforce
    have "q \<notin> issued s \<and> issued s1 = insert q (issued s) \<and> sid \<notin> ids s \<and> ids s1 = insert sid (ids s) \<and>
        H3_SID_IS_SERVER sid \<and> \<not> H3_SID_IS_BIDI sid"
      using law o1 Some qs unfolding uni_law_def by fastforce
    then show ?thesis using IH Some qs o2(2) by (auto simp: List.map_filter_simps Let_def)
  qed
qed

lemma track_fresh:
  assumes "streams (w_se w) sid = None"
  obtains w' where "track_stream True True sid q w = Some (Some (length (objs (w_se w))), w')"
    and "handles (w_se w') = handles (w_se w) @ [q]" and "pending_free (w_se w') = pending_free (w_se w)"
    and "w_freed w' = w_freed w" and "w_ssl w' = w_ssl w"
    and "streams (w_se w') = (streams (w_se w))(sid \<mapsto> length (objs (w_se w)))"
    and "objs (w_se w') = objs (w_se w) @ [new_stream (sess_conf (w_se w)) sid q]"
  using assms
  by (intro that [of "upd_se (\<lambda>se. se\<lparr>objs := objs se @ [new_stream (sess_conf se) sid q], streams := (streams se)(sid \<mapsto> length (objs se))\<rparr>) w"])
    (simp_all add: track_stream_def h3_stream_find_def Let_def handles_def List.map_filter_def new_stream_def)

lemma track_opened_ok:
  assumes "world_inv w" and "distinct (map fst cs)" and "distinct (map snd cs)"
    and "set (map fst cs) \<inter> set (handles (w_se w) @ pending_free (w_se w) @ w_freed w) = {}"
    and "set (map snd cs) \<inter> dom (streams (w_se w)) = {}"
  shows "\<exists>w'. track_opened (replicate (length cs) (True, True)) cs w = Some w' \<and> world_inv w' \<and> queues_kept w w' \<and>
    pending_free (w_se w') = pending_free (w_se w) \<and> w_freed w' = w_freed w \<and>
    handles (w_se w') = handles (w_se w) @ map fst cs \<and> length (objs (w_se w)) \<le> length (objs (w_se w')) \<and>
    (\<forall>p < length (objs (w_se w)). objs (w_se w') ! p = objs (w_se w) ! p) \<and>
    (\<forall>s. s \<notin> set (map snd cs) \<longrightarrow> streams (w_se w') s = streams (w_se w) s) \<and>
    (\<forall>(q, sid) \<in> set cs. \<exists>p. streams (w_se w') sid = Some p \<and> qstream (get_obj w' p) = Some q)"
  using assms
proof (induction cs arbitrary: w)
  case Nil
  then show ?case by simp
next
  case (Cons x cs)
  obtain q sid where x: "x = (q, sid)" by fastforce
  let ?n = "length (objs (w_se w))"
  have none: "streams (w_se w) sid = None" using Cons.prems(5) x by auto
  have fq: "q \<notin> set (handles (w_se w) @ pending_free (w_se w) @ w_freed w)" using Cons.prems(4) x by auto
  obtain w1 where t: "track_stream True True sid q w = Some (Some ?n, w1)"
    "handles (w_se w1) = handles (w_se w) @ [q]" "pending_free (w_se w1) = pending_free (w_se w)" "w_freed w1 = w_freed w"
    "streams (w_se w1) = (streams (w_se w))(sid \<mapsto> ?n)"
    "objs (w_se w1) = objs (w_se w) @ [new_stream (sess_conf (w_se w)) sid q]" using track_fresh [OF none, of q] by metis
  note k = track_stream_ok [OF Cons.prems(1) fq t(1)]
  have "\<exists>w'. track_opened (replicate (length cs) (True, True)) cs w1 = Some w' \<and> world_inv w' \<and> queues_kept w1 w' \<and>
    pending_free (w_se w') = pending_free (w_se w1) \<and> w_freed w' = w_freed w1 \<and>
    handles (w_se w') = handles (w_se w1) @ map fst cs \<and> length (objs (w_se w1)) \<le> length (objs (w_se w')) \<and>
    (\<forall>p < length (objs (w_se w1)). objs (w_se w') ! p = objs (w_se w1) ! p) \<and>
    (\<forall>s. s \<notin> set (map snd cs) \<longrightarrow> streams (w_se w') s = streams (w_se w1) s) \<and>
    (\<forall>(q, sid) \<in> set cs. \<exists>p. streams (w_se w') sid = Some p \<and> qstream (get_obj w' p) = Some q)"
  proof (rule Cons.IH)
    show "world_inv w1" using k by blast
    show "set (map fst cs) \<inter> set (handles (w_se w1) @ pending_free (w_se w1) @ w_freed w1) = {}"
      using Cons.prems(2,4) x by (auto simp: t(2-4))
    have "set (map snd cs) \<inter> dom (streams (w_se w)) = {}" "sid \<notin> set (map snd cs)" using Cons.prems(3,5) x by auto
    then show "set (map snd cs) \<inter> dom (streams (w_se w1)) = {}" unfolding t(5) dom_fun_upd by auto
  qed (use Cons.prems(2,3) in simp_all)
  then obtain w' where r: "track_opened (replicate (length cs) (True, True)) cs w1 = Some w'" "world_inv w'" "queues_kept w1 w'"
    "pending_free (w_se w') = pending_free (w_se w1)" "w_freed w' = w_freed w1"
    "handles (w_se w') = handles (w_se w1) @ map fst cs" "length (objs (w_se w1)) \<le> length (objs (w_se w'))"
    "\<And>p. p < length (objs (w_se w1)) \<Longrightarrow> objs (w_se w') ! p = objs (w_se w1) ! p"
    "\<And>s. s \<notin> set (map snd cs) \<Longrightarrow> streams (w_se w') s = streams (w_se w1) s"
    "\<forall>(q, sid) \<in> set cs. \<exists>p. streams (w_se w') sid = Some p \<and> qstream (get_obj w' p) = Some q" by blast
  have "streams (w_se w') sid = Some ?n" using r(9) [of sid] t(5) Cons.prems(3) x by simp
  moreover have "qstream (get_obj w' ?n) = Some q" using r(8) [of ?n] t(6) by (simp add: get_obj_def new_stream_def)
  moreover have "objs (w_se w') ! p = objs (w_se w) ! p" if "p < ?n" for p
    using r(8) [of p] that t(6) by (simp add: nth_append)
  moreover have "streams (w_se w') s = streams (w_se w) s" if "s \<notin> set (map snd (x # cs))" for s
    using r(9) [of s] that t(5) x by simp
  moreover have "queues_kept w w'" using k r(3) queues_kept_trans by blast
  ultimately show ?case using r(1,2,4-7,10) t x by (intro exI [of _ w']) auto
qed

lemma free_opened_ok:
  fixes ssl :: "'o openssl" and w :: "'o world"
  assumes inv: "world_inv w" and d: "distinct (map fst (List.map_filter id rs))"
    and n: "set (map fst (List.map_filter id rs)) \<inter> set (handles (w_se w) @ pending_free (w_se w) @ w_freed w) = {}"
  defines "w' \<equiv> upd_se (\<lambda>se. se\<lparr>ngh3 := False\<rparr>) (free_opened ssl rs w)"
  shows "world_inv w'"
proof -
  have e: "handles (w_se w') = handles (w_se w)" "pending_free (w_se w') = pending_free (w_se w)"
    "w_freed w' = w_freed w @ map fst (List.map_filter id rs)" "blocked_set (w_se w') = blocked_set (w_se w)"
    "objs (w_se w') = objs (w_se w)" "streams (w_se w') = streams (w_se w)" "w_heaps w' = w_heaps w" "w_user w' = w_user w"
    "sess_conf (w_se w') = sess_conf (w_se w)" "blocked_streams (w_se w') = blocked_streams (w_se w)"
    "pending_h3s (w_se w') = pending_h3s (w_se w)" "pending_sid (w_se w') = pending_sid (w_se w)"
    by (simp_all add: w'_def free_opened_def Let_def handles_def blocked_set_def)
  have "distinct (handles (w_se w') @ pending_free (w_se w') @ w_freed w')"
    unfolding e using world_invD(6) [OF inv] d n by (simp, blast)
  then show ?thesis using inv unfolding world_inv_def Let_def e by blast
qed

lemma bind_opened_some:
  assumes "bind_opened N ng rs = (ng1, Some cs)"
  shows "rs = map Some cs" and "List.map_filter id rs = cs" and "length cs = 3"
  using assms by (auto simp: bind_opened_def List.map_filter_simps split: list.splits option.splits prod.splits if_splits)


text \<open>An OpenSSL that numbers the streams it opens.\<close>

definition uni_ssl :: "nat openssl" where
  "uni_ssl = \<lparr>SSL_write_ex = (\<lambda>s q bs. (s, 1, of_nat (length bs))),
     SSL_get_error = (\<lambda>s q rv. SSL_ERROR_WANT_WRITE), SSL_stream_conclude = (\<lambda>s q. s),
     SSL_write_buf_avail = (\<lambda>s q. (1, 2)), SSL_read_ex = (\<lambda>s q n. (s, 0, [])),
     SSL_get_stream_read_state = (\<lambda>s q. SSL_STREAM_STATE_OK),
     SSL_get_stream_write_state = (\<lambda>s q. SSL_STREAM_STATE_OK),
     SSL_stream_reset = (\<lambda>s q e. s), SSL_free_stream = (\<lambda>s q. s), SSL_get_stream_id = (\<lambda>s q. 4 * int q + 3),
     SSL_set_blocking_mode = (\<lambda>s c. (s, True)), SSL_set_default_stream_mode_none = (\<lambda>s c. s),
     SSL_set_incoming_stream_policy_accept = (\<lambda>s c. s), SSL_set_idle_timeout = (\<lambda>s c t. s),
     SSL_new_stream = (\<lambda>s c. (Suc s, Some s)), SSL_accept_stream = (\<lambda>s c. (s, None)),
     SSL_is_init_finished = (\<lambda>s c. True), SSL_get_shutdown = (\<lambda>s c. 0),
     SSL_shutdown_ex = (\<lambda>s c r e m. (s, 1)), SSL_shutdown = (\<lambda>s c. (s, 1)),
     SSL_get_conn_error = (\<lambda>s c rv. SSL_ERROR_WANT_READ), SSL_free_conn = (\<lambda>s c. s)\<rparr>"

lemma uni_ssl_law: "uni_law uni_ssl (\<lambda>s. {..<s}) (\<lambda>s. (\<lambda>q. 4 * int q + 3) ` {..<s})"
proof -
  have "H3_SID_IS_SERVER (4 * int q + 3)" "\<not> H3_SID_IS_BIDI (4 * int q + 3)" for q
    by (simp_all add: sid_is_server_odd sid_is_bidi_mod)
  then show ?thesis by (auto simp: uni_law_def h3q_conn_open_uni_stream_def uni_ssl_def lessThan_Suc)
qed


section \<open>Destruction\<close>

lemma destroy_stream_ok:
  assumes inv: "world_inv w" and p: "p < length (objs (w_se w))"
  obtains h st' where "destroy_stream p w = Some (put_heap p h (put_obj p st' w))"
    and "world_inv (put_heap p h (put_obj p st' w))" and "resp_blank st'" and "response_cancelled st'"
    and "\<And>a. deref h a = None \<or> deref h a = deref (w_heaps w p) a" and "qstream st' = qstream (get_obj w p)"
proof -
  obtain us vs where rep: "resp_rep (w_heaps w p) (get_obj w p) us vs"
    and bw: "body_wf (h3_max_request_body_size (sess_conf (w_se w))) (get_obj w p)"
    using world_inv_stream_ok [OF inv p] by (auto simp: stream_ok_def)
  let ?st = "fst (h3_stream_response_cancel_locked (get_obj w p))"
  have "resp_rep (w_heaps w p) ?st us vs" using rep by (simp add: resp_rep_cancel)
  from cleanup_rep [OF this] obtain h st' where
    c: "h3_stream_response_cleanup_locked (w_heaps w p) ?st = Some (h, st')" "resp_rep h st' [] []"
      "\<forall>a. deref h a = (if a \<in> set (us @ vs) then None else deref (w_heaps w p) a)" by blast
  have st': "st' = ?st\<lparr>response_head := None, response_tail := None, response_submit_chunk := None,
         response_submit_offset := 0, response_buffered := 0\<rparr>"
    using c(1) by (auto simp: h3_stream_response_cleanup_locked_def)
  have q: "quiet_update (get_obj w p) st'" "qstream st' = qstream (get_obj w p)"
    by (simp_all add: st' quiet_update_def h3_stream_response_cancel_locked_def)
  have "stream_ok (h3_max_request_body_size (sess_conf (w_se w))) h st'"
    using c(2) bw by (auto simp: stream_ok_def body_wf_def st' h3_stream_response_cancel_locked_def)
  note w' = world_inv_put [OF inv p q this]
  show thesis
    by (rule that [OF _ w']) (use c(1,3) q(2) in \<open>auto simp: destroy_stream_def st' resp_blank_def h3_stream_response_cancel_locked_def\<close>)
qed

lemma destroy_streams_ok:
  assumes "world_inv w" and "\<And>p. p \<in> set ps \<Longrightarrow> p < length (objs (w_se w))"
  shows "\<exists>w'. destroy_streams ps w = Some w' \<and> world_inv w' \<and> length (objs (w_se w')) = length (objs (w_se w)) \<and>
    streams (w_se w') = streams (w_se w) \<and> pending_free (w_se w') = pending_free (w_se w) \<and> qconn (w_se w') = qconn (w_se w) \<and>
    ngh3 (w_se w') = ngh3 (w_se w) \<and> w_freed w' = w_freed w \<and>
    (\<forall>p. p \<in> set ps \<or> resp_blank (get_obj w p) \<and> response_cancelled (get_obj w p) \<longrightarrow>
       resp_blank (get_obj w' p) \<and> response_cancelled (get_obj w' p))"
  using assms
proof (induction ps arbitrary: w)
  case Nil
  then show ?case by simp
next
  case (Cons p ps)
  have p: "p < length (objs (w_se w))" using Cons.prems(2) by simp
  obtain h st' where d: "destroy_stream p w = Some (put_heap p h (put_obj p st' w))"
    "world_inv (put_heap p h (put_obj p st' w))" "resp_blank st'" "response_cancelled st'"
    by (rule destroy_stream_ok [OF Cons.prems(1) p])
  have g: "get_obj (put_heap p h (put_obj p st' w)) q = (if q = p then st' else get_obj w q)" for q
    using p by (simp add: get_obj_def)
  from Cons.IH [OF d(2)] Cons.prems(2) obtain w' where
    "destroy_streams ps (put_heap p h (put_obj p st' w)) = Some w'" "world_inv w'"
    "length (objs (w_se w')) = length (objs (w_se w))" "streams (w_se w') = streams (w_se w)"
    "pending_free (w_se w') = pending_free (w_se w)" "qconn (w_se w') = qconn (w_se w)" "ngh3 (w_se w') = ngh3 (w_se w)"
    "w_freed w' = w_freed w"
    "\<forall>q. q \<in> set ps \<or> resp_blank (get_obj (put_heap p h (put_obj p st' w)) q) \<and>
        response_cancelled (get_obj (put_heap p h (put_obj p st' w)) q) \<longrightarrow>
      resp_blank (get_obj w' q) \<and> response_cancelled (get_obj w' q)" by auto
  then show ?case using d(1,3,4) by (auto simp: g split: if_splits)
qed

lemma session_destroy_ok:
  assumes "libs_law L R sent" and "world_inv w"
  shows "\<exists>cs w'. h3_session_destroy L w = Some (cs, w') \<and> cs = (case qconn (w_se w) of None \<Rightarrow> [] | Some c \<Rightarrow> [c]) \<and>
    qconn (w_se w') = None \<and> \<not> ngh3 (w_se w') \<and> pending_free (w_se w') = [] \<and>
    w_freed w' = w_freed w @ rev (pending_free (w_se w)) \<and> distinct (w_freed w') \<and>
    (\<forall>p \<in> ran (streams (w_se w)). resp_blank (get_obj w' p) \<and> response_cancelled (get_obj w' p))"
proof -
  let ?w1 = "upd_se (\<lambda>se. se\<lparr>ngh3 := False\<rparr>) w"
  have i1: "world_inv ?w1" using assms(2) unfolding world_inv_def by (simp add: Let_def handles_def blocked_set_def)
  have hv: "set (hash_values L (w_se ?w1)) = ran (streams (w_se w))" using hash_values_ok(2) [OF assms(1) i1] by simp
  have pl: "p < length (objs (w_se ?w1))" if "p \<in> set (hash_values L (w_se ?w1))" for p
    using that world_invD(3) [OF assms(2)] unfolding hv by (auto simp: ran_def)
  from destroy_streams_ok [where ps = "hash_values L (w_se ?w1)", OF i1 pl] obtain w2 where
    d: "destroy_streams (hash_values L (w_se ?w1)) ?w1 = Some w2" "pending_free (w_se w2) = pending_free (w_se w)"
      "qconn (w_se w2) = qconn (w_se w)" "\<not> ngh3 (w_se w2)" "w_freed w2 = w_freed w"
      "\<forall>p \<in> ran (streams (w_se w)). resp_blank (get_obj w2 p) \<and> response_cancelled (get_obj w2 p)"
    using hv by auto
  have dis: "distinct (w_freed w @ rev (pending_free (w_se w)))" using world_invD(6) [OF assms(2)] by auto
  have fp: "pending_free (w_se (free_pending L w2)) = []" "w_freed (free_pending L w2) = w_freed w @ rev (pending_free (w_se w))"
    "qconn (w_se (free_pending L w2)) = qconn (w_se w)" "ngh3 (w_se (free_pending L w2)) = ngh3 (w_se w2)"
    "get_obj (free_pending L w2) = get_obj w2"
    using d(2,3,5) by (simp_all add: free_pending_def Let_def get_obj_def fun_eq_iff)
  let ?w' = "case qconn (w_se w) of None \<Rightarrow> free_pending L w2 | Some c \<Rightarrow> upd_se (\<lambda>se. se\<lparr>qconn := None\<rparr>)
      ((free_pending L w2)\<lparr>w_ssl := h3q_conn_free (lib_ssl L) (w_ssl (free_pending L w2)) (Some c)\<rparr>)"
  have "h3_session_destroy L w = Some (case qconn (w_se w) of None \<Rightarrow> [] | Some c \<Rightarrow> [c], ?w')"
    using d(1) fp(3) by (simp add: h3_session_destroy_def Let_def split: option.splits)
  moreover have "get_obj ?w' = get_obj w2" using fp(5) by (auto simp: get_obj_def fun_eq_iff split: option.splits)
  ultimately show ?thesis using d(4,6) dis fp(1-4)
    by (intro exI [of _ "case qconn (w_se w) of None \<Rightarrow> [] | Some c \<Rightarrow> [c]"] exI [of _ ?w'])
      (auto split: option.splits)
qed



end
