(* ===== verification/H3_Reply.thy ===== *)
theory H3_Reply
  imports H3_Response
begin

text \<open>
  Submitting a response (\<^verbatim>\<open>src/h3_request.c\<close>): the header block built from what the handler
  produced, and the one submission to nghttp3 that starts the response. The table and token
  functions of APR and httpd are a record of functions; nghttp3's submit call is one too.
\<close>

section \<open>Operations\<close>

type_synonym nva = "(string \<times> string) list"

record apr_ops =
  ap_cstr_caseeq :: "string \<Rightarrow> string \<Rightarrow> bool"
  ap_find_token :: "string \<Rightarrow> string \<Rightarrow> bool"
  apr_table_get :: "table \<Rightarrow> string \<Rightarrow> string option"
  apr_table_setn :: "table \<Rightarrow> string \<Rightarrow> string \<Rightarrow> table"
  apr_table_overlap_set :: "table \<Rightarrow> table \<Rightarrow> table"

definition print_int :: "int \<Rightarrow> string" where
  "print_int i = (if i < 0 then CHR ''-'' # print_dec (nat (- i)) else print_dec (nat i))"

definition is_connection_specific :: "apr_ops \<Rightarrow> string \<Rightarrow> bool" where
  "is_connection_specific A k \<longleftrightarrow>
     ap_cstr_caseeq A k ''Connection'' \<or> ap_cstr_caseeq A k ''Keep-Alive'' \<or> ap_cstr_caseeq A k ''Proxy-Connection'' \<or>
     ap_cstr_caseeq A k ''Transfer-Encoding'' \<or> ap_cstr_caseeq A k ''Upgrade'' \<or> ap_cstr_caseeq A k ''TE''"

text \<open>The response bucket's headers and status, when there is one.\<close>

type_synonym ap_response = "table option \<times> int"

fun nva_loop :: "apr_ops \<Rightarrow> string option \<Rightarrow> nat \<Rightarrow> nat \<Rightarrow> table \<Rightarrow> nva" where
  "nva_loop A conn_hdr cap nvlen [] = []"
| "nva_loop A conn_hdr cap nvlen ((k, v) # rest) =
    (if nvlen < cap
     then (if k \<noteq> [] \<and> hd k = CHR '':'' then nva_loop A conn_hdr cap nvlen rest
           else if is_connection_specific A k \<or> (conn_hdr \<noteq> None \<and> ap_find_token A (the conn_hdr) k)
           then nva_loop A conn_hdr cap nvlen rest
           else (k, v) # nva_loop A conn_hdr cap (Suc nvlen) rest)
     else [])"

definition build_response_nva :: "apr_ops \<Rightarrow> nat \<Rightarrow> ap_response option \<Rightarrow> table option \<Rightarrow> int \<Rightarrow> nva" where
  "build_response_nva A cap resp headers_out r_status =
    (let hdrs = (case resp of Some (Some hs, _) \<Rightarrow> Some hs | _ \<Rightarrow> headers_out);
         status = (case resp of Some (_, st) \<Rightarrow> if st \<noteq> 0 then st else r_status | None \<Rightarrow> r_status)
     in ('':status'', print_int status) #
        (case hdrs of None \<Rightarrow> [] | Some t \<Rightarrow> nva_loop A (apr_table_get A t ''Connection'') cap 1 t))"

text \<open>
  What a worker does that others see: submitting a header block to nghttp3, and the effects
  of the response queue.
\<close>

datatype reply_effect = Submitted nva | Queue resp_effect

type_synonym 'ng rstate = "'ng \<times> resp_state"
type_synonym 'ng submit_fn = "'ng \<Rightarrow> int \<Rightarrow> nva \<Rightarrow> 'ng \<times> int"

definition submit_response_nva :: "'ng submit_fn \<Rightarrow> nva \<Rightarrow> 'ng rstate \<Rightarrow> apr_status \<times> 'ng rstate \<times> reply_effect list" where
  "submit_response_nva submit nva s =
    (case s of (ng, h, st, se) \<Rightarrow>
       if response_submitted st then (APR_SUCCESS, s, [])
       else if response_cancelled st \<or> aborted se \<or> ngh3_dead se \<or> \<not> ngh3 se then (APR_ECONNABORTED, s, [])
       else (case submit ng (stream_id st) nva of (ng', rv) \<Rightarrow>
         if rv = 0
         then (APR_SUCCESS, (ng', h, st\<lparr>response_submitted := True\<rparr>, se), [Submitted nva, Queue Wake_event_thread])
         else (case h3_stream_response_cancel_locked st of (st', e) \<Rightarrow>
                 (APR_EGENERAL, (ng', h, st', se), map Queue e))))"

text \<open>The header block has room for 64 fields. A request without a stream is refused.\<close>

definition h3_response_start ::
  "apr_ops \<Rightarrow> 'ng submit_fn \<Rightarrow> ap_response option \<Rightarrow> table option \<Rightarrow> int \<Rightarrow> 'ng rstate option \<Rightarrow>
   apr_status \<times> 'ng rstate option \<times> reply_effect list" where
  "h3_response_start A submit resp headers_out r_status stream =
    (case stream of
       None \<Rightarrow> (APR_EINVAL, None, [])
     | Some s \<Rightarrow>
       (case submit_response_nva submit (build_response_nva A 64 resp headers_out r_status) s of
          (rv, s', e) \<Rightarrow> (rv, Some s', e)))"

section \<open>The header block\<close>

text \<open>The fields that may go into an HTTP/3 header block.\<close>

definition field_allowed :: "apr_ops \<Rightarrow> string option \<Rightarrow> string \<Rightarrow> bool" where
  "field_allowed A conn_hdr k \<longleftrightarrow> \<not> (k \<noteq> [] \<and> hd k = CHR '':'') \<and> \<not> is_connection_specific A k \<and>
     \<not> (conn_hdr \<noteq> None \<and> ap_find_token A (the conn_hdr) k)"

lemma nva_loop_Cons:
  "nva_loop A c cap n ((k, v) # t) =
    (if n < cap then (if field_allowed A c k then (k, v) # nva_loop A c cap (Suc n) t else nva_loop A c cap n t) else [])"
  by (cases "k \<noteq> [] \<and> hd k = CHR '':''"; cases "is_connection_specific A k"; cases c)
    (auto simp: field_allowed_def)

lemma nva_loop_spec:
  "nva_loop A c cap n t = take (cap - n) (filter (\<lambda>(k, v). field_allowed A c k) t)"
proof (induction t arbitrary: n)
  case Nil
  then show ?case by simp
next
  case (Cons e t)
  obtain k v where e: "e = (k, v)" by fastforce
  show ?case
  proof (cases "n < cap \<and> field_allowed A c k")
    case True
    then have "cap - n = Suc (cap - Suc n)" by (simp add: Suc_diff_Suc)
    with True show ?thesis by (simp add: e Cons.IH nva_loop_Cons del: nva_loop.simps)
  next
    case False
    then show ?thesis by (auto simp: e Cons.IH nva_loop_Cons simp del: nva_loop.simps)
  qed
qed

text \<open>
  C27: The loop that builds a response's header block computes exactly this: the status as the
  only pseudo-header, first, followed by the response's fields in their order without the
  connection-specific ones, the ones the Connection field names and anything that looks like
  a pseudo-header, cut off at the capacity. So the block never exceeds its array and never
  carries a field HTTP/3 forbids.
\<close>

theorem response_nva_equiv:
  assumes "0 < cap" and "nva = build_response_nva A cap resp headers_out r_status"
  shows "nva = ('':status'', print_int (case resp of Some (_, st) \<Rightarrow> if st \<noteq> 0 then st else r_status | None \<Rightarrow> r_status)) #
      (case (case resp of Some (Some hs, _) \<Rightarrow> Some hs | _ \<Rightarrow> headers_out) of
         None \<Rightarrow> []
       | Some t \<Rightarrow> take (cap - 1) (filter (\<lambda>(k, v). field_allowed A (apr_table_get A t ''Connection'') k) t)) \<and>
    length nva \<le> cap \<and>
    (\<forall>(k, v) \<in> set (tl nva). \<not> is_connection_specific A k \<and> (k = [] \<or> hd k \<noteq> CHR '':''))"
proof -
  let ?h = "case resp of Some (Some hs, _) \<Rightarrow> Some hs | _ \<Rightarrow> headers_out"
  have eq: "nva = ('':status'', print_int (case resp of Some (_, st) \<Rightarrow> if st \<noteq> 0 then st else r_status | None \<Rightarrow> r_status)) #
      (case ?h of None \<Rightarrow> []
       | Some t \<Rightarrow> take (cap - 1) (filter (\<lambda>(k, v). field_allowed A (apr_table_get A t ''Connection'') k) t))"
    using assms(2) unfolding build_response_nva_def nva_loop_spec Let_def .
  show ?thesis
  proof (cases ?h)
    case None
    then show ?thesis using eq assms(1) by simp
  next
    case (Some t)
    have "length (take (cap - 1) xs) + 1 \<le> cap" for xs :: nva using assms(1) by simp
    then show ?thesis using eq Some by (auto simp: field_allowed_def dest!: in_set_takeD)
  qed
qed

text \<open>Concrete table functions: first match, replace, and the last value of every key.\<close>

definition wit_apr :: apr_ops where
  "wit_apr = \<lparr>ap_cstr_caseeq = (=), ap_find_token = (=), apr_table_get = map_of,
     apr_table_setn = (\<lambda>t k v. (k, v) # filter (\<lambda>e. fst e \<noteq> k) t),
     apr_table_overlap_set = (\<lambda>a b. map (\<lambda>k. (k, the (map_of (rev (a @ b)) k))) (remdups (map fst (a @ b))))\<rparr>"

theorem response_nva_equiv_witness:
  "build_response_nva wit_apr 3 (Some (Some [(''Upgrade'', ''x''), (''a'', ''1''), (''b'', ''2''), (''c'', ''3'')], 200)) None 0 =
   [('':status'', print_int 200), (''a'', ''1''), (''b'', ''2'')]"
  using response_nva_equiv [of 3 "build_response_nva wit_apr 3 (Some (Some [(''Upgrade'', ''x''), (''a'', ''1''), (''b'', ''2''), (''c'', ''3'')], 200)) None 0"
      wit_apr "Some (Some [(''Upgrade'', ''x''), (''a'', ''1''), (''b'', ''2''), (''c'', ''3'')], 200)" None 0]
  by (simp add: field_allowed_def is_connection_specific_def wit_apr_def)

section \<open>Submission\<close>

fun submissions :: "reply_effect list \<Rightarrow> nva list" where
  "submissions [] = []"
| "submissions (Submitted n # es) = n # submissions es"
| "submissions (Queue e # es) = submissions es"

fun queue_effects :: "reply_effect list \<Rightarrow> resp_effect list" where
  "queue_effects [] = []"
| "queue_effects (Submitted n # es) = queue_effects es"
| "queue_effects (Queue e # es) = e # queue_effects es"

lemma submissions_simps [simp]:
  "submissions (xs @ ys) = submissions xs @ submissions ys" "submissions (map Queue es) = []"
  "queue_effects (xs @ ys) = queue_effects xs @ queue_effects ys" "queue_effects (map Queue es) = es"
  by (induction xs rule: submissions.induct, simp_all) (induction es, simp_all)+

lemma submit_result:
  assumes "submit_response_nva submit nva (ng, h, st, se) = (rv, (ng', h', st', se'), es)"
  shows "h' = h" and "se' = se" and "enqueued (queue_effects es) = []"
    and "submissions es = (if \<not> response_submitted st \<and> response_submitted st' then [nva] else [])"
    and "response_submitted st \<Longrightarrow> response_submitted st'" and "rv = APR_SUCCESS \<longleftrightarrow> response_submitted st'"
    and "resp_rep h st' us vs = resp_rep h st us vs"
  using assms
  by (auto simp: submit_response_nva_def h3_stream_response_cancel_locked_def resp_rep_def split: if_splits prod.splits)

end
