(* ===== verification/H3_Filter.thy ===== *)
theory H3_Filter
  imports H3_Reply H3_Callbacks
begin

text \<open>
  The filters of \<^verbatim>\<open>src/h3_filter.c\<close>: serving the received request body to httpd's input
  filters, and turning the buckets of the response into header and body of the HTTP/3
  response, either streamed through the bounded queue of \<open>H3_Response\<close> or collected in one
  buffer. A brigade is the list of its buckets. Other threads run between the locked steps of
  a worker; what they do is a parameter.
\<close>

section \<open>The input filters\<close>

datatype ap_input_mode = AP_MODE_READBYTES | AP_MODE_GETLINE | AP_MODE_EATCRLF | AP_MODE_SPECULATIVE
  | AP_MODE_EXHAUSTIVE | AP_MODE_INIT

datatype in_bucket = Ib_data "byte list" | Ib_eos

definition input_filter_eos ::
  "(in_bucket list \<Rightarrow> ap_input_mode \<Rightarrow> int \<Rightarrow> apr_status \<times> in_bucket list) option \<Rightarrow> in_bucket list \<Rightarrow> ap_input_mode \<Rightarrow> int \<Rightarrow>
   apr_status \<times> in_bucket list" where
  "input_filter_eos nxt bb mode readbytes =
    (if mode \<noteq> AP_MODE_READBYTES \<and> mode \<noteq> AP_MODE_GETLINE
     then (case nxt of None \<Rightarrow> (APR_EOF, bb) | Some get_brigade \<Rightarrow> get_brigade bb mode readbytes)
     else if bb \<noteq> [] then (APR_SUCCESS, bb)
     else (APR_SUCCESS, bb @ [Ib_eos]))"

definition h3_filter_in where
  "h3_filter_in = input_filter_eos"

text \<open>How much to hand over: what the mode and the caller ask for, and never more than is left.\<close>

definition body_want :: "ap_input_mode \<Rightarrow> int \<Rightarrow> byte list \<Rightarrow> size_t \<Rightarrow> size_t" where
  "body_want mode readbytes unread avail =
    (if mode = AP_MODE_READBYTES \<or> mode = AP_MODE_SPECULATIVE
     then (if readbytes > 0 \<and> word_of_int readbytes < avail then word_of_int readbytes else avail)
     else if mode = AP_MODE_GETLINE
     then (let k = length (takeWhile (\<lambda>b. b \<noteq> 10) (take (unat avail) unread))
           in if k < unat avail then of_nat k + 1 else avail)
     else avail)"

text \<open>\<open>None\<close> where the pointer handed to the bucket would leave the body buffer.\<close>

definition serve_request_body ::
  "h3_stream \<Rightarrow> in_bucket list \<Rightarrow> ap_input_mode \<Rightarrow> int \<Rightarrow> (apr_status \<times> h3_stream \<times> in_bucket list) option" where
  "serve_request_body st bb mode readbytes =
    (if mode = AP_MODE_INIT \<or> mode = AP_MODE_EATCRLF then Some (APR_SUCCESS, st, bb)
     else (let avail = request_body_len st - request_body_offset st in
       if avail = 0 then Some (APR_SUCCESS, st, bb @ [Ib_eos])
       else (let unread = drop (unat (request_body_offset st)) (request_body st);
                 want = body_want mode readbytes unread avail
             in if length unread < unat want then None
                else (let bb1 = bb @ [Ib_data (take (unat want) unread)] in
                  if mode \<noteq> AP_MODE_SPECULATIVE
                  then (let st1 = st\<lparr>request_body_offset := request_body_offset st + want\<rparr>
                        in Some (APR_SUCCESS, st1,
                             if request_body_offset st1 \<ge> request_body_len st1 then bb1 @ [Ib_eos] else bb1))
                  else Some (APR_SUCCESS, st, bb1)))))"

definition h3_filter_in_proto ::
  "h3_stream option \<Rightarrow> (in_bucket list \<Rightarrow> ap_input_mode \<Rightarrow> int \<Rightarrow> apr_status \<times> in_bucket list) option \<Rightarrow> in_bucket list \<Rightarrow>
   ap_input_mode \<Rightarrow> int \<Rightarrow> (apr_status \<times> h3_stream option \<times> in_bucket list) option" where
  "h3_filter_in_proto stream nxt bb mode readbytes =
    (case stream of
       None \<Rightarrow> (case input_filter_eos nxt bb mode readbytes of (rv, bb') \<Rightarrow> Some (rv, None, bb'))
     | Some st \<Rightarrow> map_option (\<lambda>(rv, st', bb'). (rv, Some st', bb')) (serve_request_body st bb mode readbytes))"

section \<open>The output filters\<close>

text \<open>The network filter drops what reaches it: the response has been captured before.\<close>

definition h3_filter_out :: "'b list \<Rightarrow> apr_status \<times> 'b list" where
  "h3_filter_out bb = (APR_SUCCESS, [])"

record h3_conn_ctx_t =
  cx_resp :: "ap_response option"
  dataheap :: "byte list"
  dataheaplen :: size_t
  dataheapcap :: size_t
  response_too_large :: bool
  streaming :: bool

text \<open>
  The bytes of a bucket as \<^verbatim>\<open>apr_bucket_read\<close> yields them: a status, and the data (\<open>None\<close> for
  a null pointer).
\<close>

type_synonym bucket_read = "apr_status \<times> byte list option"

text \<open>Making room in the collected response; the doubling starts beyond the old capacity.\<close>

definition heap_grow :: "(size_t \<Rightarrow> byte list) \<Rightarrow> size_t \<Rightarrow> h3_conn_ctx_t \<Rightarrow> h3_conn_ctx_t option" where
  "heap_grow palloc new_len ctx =
    (if new_len > dataheapcap ctx
     then (case grow_cap 65 new_len (if dataheapcap ctx \<noteq> 0 then dataheapcap ctx * 2 else H3_BODY_BUF_INIT_CAP) of
             None \<Rightarrow> None
           | Some cap \<Rightarrow>
             (case (if dataheaplen ctx > 0
                    then memcpy_at (palloc cap) 0 (take (unat (dataheaplen ctx)) (dataheap ctx))
                    else Some (palloc cap)) of
                None \<Rightarrow> None
              | Some new_heap \<Rightarrow> Some (ctx\<lparr>dataheap := new_heap, dataheapcap := cap\<rparr>)))
     else Some ctx)"

definition capture_body_bucket ::
  "(size_t \<Rightarrow> byte list) \<Rightarrow> h3_server_conf option \<Rightarrow> bucket_read \<Rightarrow> h3_conn_ctx_t \<Rightarrow> (apr_status \<times> h3_conn_ctx_t) option" where
  "capture_body_bucket palloc conf b ctx =
    (if response_too_large ctx then Some (APR_SUCCESS, ctx)
     else (case b of
       (APR_SUCCESS, Some data) \<Rightarrow>
         (let len = of_nat (length data);
              limit = (case conf of None \<Rightarrow> H3_MAX_RESPONSE_BODY_SIZE_DEFAULT | Some c \<Rightarrow> h3_max_response_body_size c)
          in if len = 0 then Some (APR_SUCCESS, ctx)
             else if dataheaplen ctx > limit \<or> len > limit - dataheaplen ctx
             then Some (APR_SUCCESS, ctx\<lparr>response_too_large := True\<rparr>)
             else (case heap_grow palloc (dataheaplen ctx + len) ctx of
                     None \<Rightarrow> None
                   | Some ctx1 \<Rightarrow>
                     (case memcpy_at (dataheap ctx1) (unat (dataheaplen ctx1)) data of
                        None \<Rightarrow> None
                      | Some buf \<Rightarrow> Some (APR_SUCCESS, ctx1\<lparr>dataheap := buf, dataheaplen := dataheaplen ctx1 + len\<rparr>))))
     | _ \<Rightarrow> Some (APR_SUCCESS, ctx)))"

text \<open>
  A worker's view: nghttp3, its stream's response queue and the session, the request context,
  the effects so far and the number of locked operations done. \<open>we_sync k\<close> is what other
  threads did before operation \<open>k\<close>; the other fields are the environment of an append.
\<close>

record 'ng wenv =
  we_sync :: "nat \<Rightarrow> 'ng rstate \<Rightarrow> 'ng rstate"
  we_env :: "nat \<Rightarrow> nat \<Rightarrow> resp_state \<Rightarrow> resp_state"
  we_wait :: "nat \<Rightarrow> nat \<Rightarrow> apr_status"
  we_mal :: "nat \<Rightarrow> nat \<Rightarrow> bool"
  we_fuel :: "nat \<Rightarrow> nat"

record 'ng wk =
  wk_ng :: 'ng
  wk_rs :: resp_state
  wk_ctx :: h3_conn_ctx_t
  wk_effs :: "reply_effect list"
  wk_ops :: nat

text \<open>The libraries and the request a worker runs with.\<close>

record 'ng wlib =
  wl_apr :: apr_ops
  wl_submit :: "'ng submit_fn"
  wl_palloc :: "size_t \<Rightarrow> byte list"
  wl_conf :: "h3_server_conf option"
  wl_send_error :: "'ng wk \<Rightarrow> 'ng wk"

definition wk_sync :: "'ng wenv \<Rightarrow> 'ng wk \<Rightarrow> 'ng wk" where
  "wk_sync E s = (case we_sync E (wk_ops s) (wk_ng s, wk_rs s) of (ng, rs) \<Rightarrow>
     s\<lparr>wk_ng := ng, wk_rs := rs, wk_ops := Suc (wk_ops s)\<rparr>)"

definition wk_submit :: "'ng wlib \<Rightarrow> 'ng wenv \<Rightarrow> nva \<Rightarrow> 'ng wk \<Rightarrow> apr_status \<times> 'ng wk" where
  "wk_submit W E nva s =
    (let s1 = wk_sync E s in
     case submit_response_nva (wl_submit W) nva (wk_ng s1, wk_rs s1) of
       (rv, (ng, rs), es) \<Rightarrow> (rv, s1\<lparr>wk_ng := ng, wk_rs := rs, wk_effs := wk_effs s1 @ es\<rparr>))"

definition wk_response_start :: "'ng wlib \<Rightarrow> 'ng wenv \<Rightarrow> table option \<Rightarrow> int \<Rightarrow> 'ng wk \<Rightarrow> apr_status \<times> 'ng wk" where
  "wk_response_start W E headers_out r_status s =
    (let s1 = wk_sync E s in
     case h3_response_start (wl_apr W) (wl_submit W) (cx_resp (wk_ctx s1)) headers_out r_status (Some (wk_ng s1, wk_rs s1)) of
       (rv, Some (ng, rs), es) \<Rightarrow> (rv, s1\<lparr>wk_ng := ng, wk_rs := rs, wk_effs := wk_effs s1 @ es\<rparr>)
     | (rv, None, es) \<Rightarrow> (rv, s1))"

definition wk_append :: "'ng wenv \<Rightarrow> byte list \<Rightarrow> 'ng wk \<Rightarrow> (apr_status \<times> 'ng wk) c_run" where
  "wk_append E data s =
    (let k = wk_ops s in
     case h3_stream_response_append (we_env E k) (we_wait E k) (we_mal E k) (we_fuel E k)
            (Some data) (of_nat (length data)) (Some (wk_rs s)) of
       Done (rv, Some rs, es) \<Rightarrow> Done (rv, s\<lparr>wk_rs := rs, wk_ops := Suc k, wk_effs := wk_effs s @ map Queue es\<rparr>)
     | Done (rv, None, es) \<Rightarrow> Done (rv, s)
     | Undefined \<Rightarrow> Undefined
     | Out_of_fuel \<Rightarrow> Out_of_fuel)"

definition wk_complete :: "'ng wenv \<Rightarrow> 'ng wk \<Rightarrow> 'ng wk" where
  "wk_complete E s =
    (let s1 = wk_sync E s in
     case wk_rs s1 of (h, st, se) \<Rightarrow>
       (case h3_stream_response_complete se st of (st', es) \<Rightarrow>
          s1\<lparr>wk_rs := (h, st', se), wk_effs := wk_effs s1 @ map Queue es\<rparr>))"

text \<open>
  The buckets the output filter tells apart. A response bucket carries its headers and its
  status; a data bucket is what reading it yields.
\<close>

datatype out_bucket = Ob_error | Ob_response ap_response | Ob_data bucket_read | Ob_eos | Ob_flush | Ob_metadata

text \<open>A data bucket in streaming mode: headers first, then the bytes.\<close>

definition stream_bucket ::
  "'ng wlib \<Rightarrow> 'ng wenv \<Rightarrow> table option \<Rightarrow> int \<Rightarrow> bucket_read \<Rightarrow> 'ng wk \<Rightarrow> (apr_status \<times> 'ng wk) c_run" where
  "stream_bucket W E headers_out r_status b s =
    (case wk_response_start W E headers_out r_status s of (rv, s1) \<Rightarrow>
       if rv \<noteq> APR_SUCCESS then Done (rv, s1)
       else (case b of
               (APR_SUCCESS, Some data) \<Rightarrow> if data \<noteq> [] then wk_append E data s1 else Done (APR_SUCCESS, s1)
             | (brv, _) \<Rightarrow> Done (brv, s1)))"

definition capture_bucket :: "'ng wlib \<Rightarrow> bucket_read \<Rightarrow> 'ng wk \<Rightarrow> (apr_status \<times> 'ng wk) c_run" where
  "capture_bucket W b s =
    (case capture_body_bucket (wl_palloc W) (wl_conf W) b (wk_ctx s) of
       None \<Rightarrow> Undefined | Some (rv, ctx) \<Rightarrow> Done (rv, s\<lparr>wk_ctx := ctx\<rparr>))"

fun filter_buckets ::
  "'ng wlib \<Rightarrow> 'ng wenv \<Rightarrow> table option \<Rightarrow> int \<Rightarrow> out_bucket list \<Rightarrow> 'ng wk \<Rightarrow> (apr_status \<times> 'ng wk) c_run" where
  "filter_buckets W E hs rst [] s = Done (APR_SUCCESS, s)"
| "filter_buckets W E hs rst (Ob_error # bb) s = Done (APR_SUCCESS, wl_send_error W s)"
| "filter_buckets W E hs rst (Ob_response resp # bb) s =
    (let s1 = s\<lparr>wk_ctx := (wk_ctx s)\<lparr>cx_resp := Some resp\<rparr>\<rparr> in
     if streaming (wk_ctx s1)
     then (case wk_response_start W E hs rst s1 of (rv, s2) \<Rightarrow>
             if rv \<noteq> APR_SUCCESS then Done (rv, s2) else filter_buckets W E hs rst bb s2)
     else filter_buckets W E hs rst bb s1)"
| "filter_buckets W E hs rst (Ob_data b # bb) s =
    (case (if streaming (wk_ctx s) then stream_bucket W E hs rst b s else capture_bucket W b s) of
       Done (rv, s1) \<Rightarrow> if rv \<noteq> APR_SUCCESS then Done (rv, s1) else filter_buckets W E hs rst bb s1
     | Undefined \<Rightarrow> Undefined
     | Out_of_fuel \<Rightarrow> Out_of_fuel)"
| "filter_buckets W E hs rst (Ob_eos # bb) s =
    (if streaming (wk_ctx s)
     then (case wk_response_start W E hs rst s of (rv, s1) \<Rightarrow>
             if rv \<noteq> APR_SUCCESS then Done (rv, s1) else filter_buckets W E hs rst bb (wk_complete E s1))
     else filter_buckets W E hs rst bb s)"
| "filter_buckets W E hs rst (Ob_flush # bb) s =
    (if streaming (wk_ctx s)
     then (case wk_response_start W E hs rst s of (rv, s1) \<Rightarrow>
             if rv \<noteq> APR_SUCCESS then Done (rv, s1) else filter_buckets W E hs rst bb s1)
     else filter_buckets W E hs rst bb s)"
| "filter_buckets W E hs rst (Ob_metadata # bb) s = filter_buckets W E hs rst bb s"

text \<open>A subrequest, or a request without the module's context, is passed on.\<close>

definition h3_filter_out_proto ::
  "'ng wlib \<Rightarrow> 'ng wenv \<Rightarrow> bool \<Rightarrow> (out_bucket list \<Rightarrow> apr_status) \<Rightarrow> table option \<Rightarrow> int \<Rightarrow> out_bucket list \<Rightarrow> 'ng wk \<Rightarrow>
   (apr_status \<times> 'ng wk) c_run" where
  "h3_filter_out_proto W E ours pass_brigade headers_out r_status bb s =
    (if \<not> ours then Done (pass_brigade bb, s) else filter_buckets W E headers_out r_status bb s)"

section \<open>The request body is served once\<close>

text \<open>What is left to serve, and the state of a body that can be served.\<close>

definition body_rest :: "h3_stream \<Rightarrow> byte list" where
  "body_rest st = drop (unat (request_body_offset st)) (body_bytes st)"

definition servable :: "h3_stream \<Rightarrow> bool" where
  "servable st \<longleftrightarrow> unat (request_body_len st) \<le> length (request_body st) \<and> request_body_offset st \<le> request_body_len st"

definition consuming :: "ap_input_mode \<Rightarrow> bool" where
  "consuming mode \<longleftrightarrow> mode = AP_MODE_READBYTES \<or> mode = AP_MODE_GETLINE \<or> mode = AP_MODE_EXHAUSTIVE"

fun bucket_bytes :: "in_bucket list \<Rightarrow> byte list" where
  "bucket_bytes [] = []"
| "bucket_bytes (Ib_data d # bb) = d @ bucket_bytes bb"
| "bucket_bytes (Ib_eos # bb) = bucket_bytes bb"

lemma unat_less_64: "unat (w :: size_t) < 2 ^ 64"
proof -
  have "unat w < 2 ^ LENGTH(64)" by (rule unsigned_less)
  then show ?thesis by simp
qed

lemma body_want_bounds:
  assumes "avail \<noteq> 0" and "readbytes < 2 ^ 63"
  shows "0 < unat (body_want mode readbytes unread avail)" and "unat (body_want mode readbytes unread avail) \<le> unat avail"
proof -
  have r: "0 < unat (word_of_int readbytes :: size_t)" if "0 < readbytes"
  proof -
    have "readbytes mod 2 ^ 64 = readbytes" using that assms(2) by (intro mod_pos_pos_trivial) simp_all
    then have "uint (word_of_int readbytes :: size_t) = readbytes" by (simp add: uint_word_of_int)
    with that show ?thesis by (metis unat_eq_nat_uint zero_less_nat_eq)
  qed
  have a: "0 < unat avail" using assms(1) by (simp add: unat_gt_0)
  let ?k = "length (takeWhile (\<lambda>b. b \<noteq> 10) (take (unat avail) unread))"
  have k: "unat (of_nat ?k + 1 :: size_t) = ?k + 1" if "?k < unat avail"
  proof -
    have "?k < 2 ^ 64" using that unat_less_64 [of avail] by linarith
    then have "unat (of_nat ?k :: size_t) = ?k" by (simp add: unat_of_nat_64)
    moreover have "unat (of_nat ?k :: size_t) + unat (1 :: size_t) < 2 ^ 64"
      using that unat_less_64 [of avail] \<open>unat (of_nat ?k :: size_t) = ?k\<close> by (simp only: unsigned_1)
    ultimately show ?thesis by (simp add: unat_add_64)
  qed
  show "0 < unat (body_want mode readbytes unread avail)"
    using a r k by (auto simp: body_want_def Let_def)
  show "unat (body_want mode readbytes unread avail) \<le> unat avail"
    using k by (auto simp: body_want_def Let_def word_less_nat_alt)
qed

lemma servable_avail:
  assumes "servable st"
  shows "length (body_rest st) = unat (request_body_len st - request_body_offset st)"
    and "request_body_len st - request_body_offset st = 0 \<longleftrightarrow> body_rest st = []"
proof -
  have le: "request_body_offset st \<le> request_body_len st" "unat (request_body_len st) \<le> length (request_body st)"
    using assms by (simp_all add: servable_def)
  show "length (body_rest st) = unat (request_body_len st - request_body_offset st)"
    using le by (simp add: body_rest_def body_bytes_def unat_sub)
  then show "request_body_len st - request_body_offset st = 0 \<longleftrightarrow> body_rest st = []"
    by (metis length_0_conv unat_0 unat_eq_zero)
qed

text \<open>One call on an empty brigade.\<close>

lemma serve_step:
  assumes s: "servable st" and n: "readbytes < 2 ^ 63"
  obtains st' bb where "serve_request_body st [] mode readbytes = Some (APR_SUCCESS, st', bb)" and "servable st'"
    and "body_bytes st' = body_bytes st"
    and "if consuming mode then body_rest st = bucket_bytes bb @ body_rest st' else body_rest st' = body_rest st"
    and "consuming mode \<longrightarrow> body_rest st \<noteq> [] \<longrightarrow> bucket_bytes bb \<noteq> []"
    and "consuming mode \<longrightarrow> (Ib_eos \<in> set bb) = (body_rest st' = [])"
proof (cases "mode = AP_MODE_INIT \<or> mode = AP_MODE_EATCRLF")
  case True
  then show thesis using s by (intro that [of st "[]"]) (auto simp: serve_request_body_def consuming_def)
next
  case m: False
  let ?avail = "request_body_len st - request_body_offset st"
  note av = servable_avail [OF s]
  show thesis
  proof (cases "?avail = 0")
    case True
    then show thesis using s av m by (intro that [of st "[Ib_eos]"]) (auto simp: serve_request_body_def Let_def)
  next
    case False
    let ?unread = "drop (unat (request_body_offset st)) (request_body st)"
    let ?want = "body_want mode readbytes ?unread ?avail"
    note w = body_want_bounds [OF False n, of mode ?unread]
    have le: "request_body_offset st \<le> request_body_len st" "unat (request_body_len st) \<le> length (request_body st)"
      using s by (simp_all add: servable_def)
    have ua: "unat ?avail = unat (request_body_len st) - unat (request_body_offset st)" using le(1) by (simp add: unat_sub)
    have fits: "\<not> length ?unread < unat ?want" using w(2) ua le by (simp add: word_le_nat_alt)
    have br: "body_rest st = take (unat ?avail) ?unread"
      using le ua by (simp add: body_rest_def body_bytes_def drop_take word_le_nat_alt)
    have tk: "take (unat ?want) ?unread = take (unat ?want) (body_rest st)" using w(2) by (simp add: br min_def)
    have ow: "unat (request_body_offset st) + unat ?want \<le> unat (request_body_len st)" using w(2) ua le(1) by (simp add: word_le_nat_alt)
    have "unat (request_body_len st) < 2 ^ 64" by (rule unat_less_64)
    with ow have off: "unat (request_body_offset st + ?want) = unat (request_body_offset st) + unat ?want"
      by (intro unat_add_64) linarith
    with ow have off2: "request_body_offset st + ?want \<le> request_body_len st" by (simp add: word_le_nat_alt)
    have ne: "take (unat ?want) (body_rest st) \<noteq> []" using w(1) False av(2) by simp
    show thesis
    proof (cases "mode = AP_MODE_SPECULATIVE")
      case True
      then show thesis using s m False fits
        by (intro that [of st "[Ib_data (take (unat ?want) ?unread)]"])
          (simp_all add: serve_request_body_def Let_def consuming_def)
    next
      case ns: False
      then have c: "consuming mode" using m by (cases mode) (simp_all add: consuming_def)
      let ?st = "st\<lparr>request_body_offset := request_body_offset st + ?want\<rparr>"
      have sv: "servable ?st" using s off2 by (simp add: servable_def)
      have bb: "body_bytes ?st = body_bytes st" by (simp add: body_bytes_def)
      have rest: "body_rest ?st = drop (unat ?want) (body_rest st)"
        by (simp add: body_rest_def bb off add.commute)
      have eos: "request_body_len ?st \<le> request_body_offset ?st \<longleftrightarrow> body_rest ?st = []"
      proof -
        have "request_body_len ?st \<le> request_body_offset ?st \<longleftrightarrow> request_body_len ?st - request_body_offset ?st = 0"
          using off2 by auto
        then show ?thesis using servable_avail(2) [OF sv] by simp
      qed
      show thesis
        using s m False fits ns c sv bb rest eos ne tk
        by (intro that [of ?st "[Ib_data (take (unat ?want) ?unread)] @ (if request_body_len ?st \<le> request_body_offset ?st then [Ib_eos] else [])"])
          (simp_all add: serve_request_body_def Let_def)
    qed
  qed
qed

text \<open>A sequence of calls, each on an empty brigade.\<close>

fun serve_all :: "(ap_input_mode \<times> int) list \<Rightarrow> h3_stream \<Rightarrow> (in_bucket list list \<times> h3_stream) option" where
  "serve_all [] st = Some ([], st)"
| "serve_all ((mode, n) # calls) st =
    (case serve_request_body st [] mode n of
       None \<Rightarrow> None
     | Some (rv, st', bb) \<Rightarrow> map_option (\<lambda>(outs, st''). (bb # outs, st'')) (serve_all calls st'))"

definition served :: "(ap_input_mode \<times> int) list \<Rightarrow> in_bucket list list \<Rightarrow> in_bucket list list" where
  "served calls outs = map snd (filter (\<lambda>(c, bb). consuming (fst c)) (zip calls outs))"

lemma serve_all_spec:
  assumes "servable st" and "list_all (\<lambda>(m, n). n < 2 ^ 63) calls"
  shows "\<exists>outs st'. serve_all calls st = Some (outs, st') \<and> length outs = length calls \<and> servable st' \<and>
    body_rest st = concat (map bucket_bytes (served calls outs)) @ body_rest st' \<and>
    ((\<exists>bb \<in> set (served calls outs). Ib_eos \<in> set bb) \<longleftrightarrow> served calls outs \<noteq> [] \<and> body_rest st' = []) \<and>
    length (body_rest st') \<le> length (body_rest st) - length (served calls outs)"
  using assms
proof (induction calls arbitrary: st)
  case Nil
  then show ?case by (simp add: served_def)
next
  case (Cons c calls)
  obtain mode n where c: "c = (mode, n)" by fastforce
  have n: "n < 2 ^ 63" using Cons.prems(2) c by simp
  obtain st1 bb where r: "serve_request_body st [] mode n = Some (APR_SUCCESS, st1, bb)" "servable st1" "body_bytes st1 = body_bytes st"
    "if consuming mode then body_rest st = bucket_bytes bb @ body_rest st1 else body_rest st1 = body_rest st"
    "consuming mode \<longrightarrow> body_rest st \<noteq> [] \<longrightarrow> bucket_bytes bb \<noteq> []"
    "consuming mode \<longrightarrow> (Ib_eos \<in> set bb) = (body_rest st1 = [])" by (rule serve_step [OF Cons.prems(1) n, of mode])
  have "list_all (\<lambda>(m, n). n < 2 ^ 63) calls" using Cons.prems(2) by simp
  from Cons.IH [OF r(2) this] obtain outs st' where
    i: "serve_all calls st1 = Some (outs, st')" "length outs = length calls" "servable st'"
      "body_rest st1 = concat (map bucket_bytes (served calls outs)) @ body_rest st'"
      "(\<exists>bb \<in> set (served calls outs). Ib_eos \<in> set bb) \<longleftrightarrow> served calls outs \<noteq> [] \<and> body_rest st' = []"
      "length (body_rest st') \<le> length (body_rest st1) - length (served calls outs)" by blast
  have run: "serve_all (c # calls) st = Some (bb # outs, st')" using c r(1) i(1) by simp
  show ?case
  proof (cases "consuming mode")
    case False
    then have "served (c # calls) (bb # outs) = served calls outs" by (simp add: served_def c)
    then show ?thesis using run r(4) i False by auto
  next
    case True
    then have sv: "served (c # calls) (bb # outs) = bb # served calls outs" by (simp add: served_def c)
    have d: "body_rest st = bucket_bytes bb @ body_rest st1" using r(4) True by simp
    have sh: "length (body_rest st1) \<le> length (body_rest st) - 1"
      using r(5) True d by (cases "body_rest st = []"; cases "bucket_bytes bb") auto
    have "(Ib_eos \<in> set bb) \<longrightarrow> body_rest st' = []" using r(6) True i(4) by auto
    moreover have "body_rest st' = [] \<and> served calls outs = [] \<longrightarrow> Ib_eos \<in> set bb" using r(6) True i(4) by auto
    ultimately have "(\<exists>b \<in> set (bb # served calls outs). Ib_eos \<in> set b) \<longleftrightarrow> body_rest st' = []" using i(5) by auto
    then show ?thesis using run sv d sh i by auto
  qed
qed

text \<open>
  C28: Reading the request body through the input filter, in any mix of modes and sizes, never
  leaves the body buffer and hands out the received body exactly once and in order: what the
  consuming reads returned followed by what is left is the body, end-of-stream appears
  exactly when nothing is left, and as many consuming reads as there are bytes exhaust it.
\<close>

theorem body_served_exactly_once:
  assumes "servable st" and "request_body_offset st = 0" and "list_all (\<lambda>(m, n). n < 2 ^ 63) calls"
  shows "\<exists>outs st'. serve_all calls st = Some (outs, st') \<and>
    body_bytes st = concat (map bucket_bytes (served calls outs)) @ body_rest st' \<and>
    ((\<exists>bb \<in> set (served calls outs). Ib_eos \<in> set bb) \<longleftrightarrow> served calls outs \<noteq> [] \<and> body_rest st' = []) \<and>
    (length (body_bytes st) \<le> length (served calls outs) \<longrightarrow> concat (map bucket_bytes (served calls outs)) = body_bytes st)"
proof -
  have b: "body_rest st = body_bytes st" using assms(2) by (simp add: body_rest_def)
  from serve_all_spec [OF assms(1,3)] b show ?thesis by fastforce
qed

theorem body_served_exactly_once_witness:
  "\<exists>outs st'. serve_all [(AP_MODE_READBYTES, 2), (AP_MODE_SPECULATIVE, 9), (AP_MODE_GETLINE, 0)]
      (one_stream\<lparr>request_body := [65, 66, 67, 10], request_body_len := 4, request_body_capacity := 4\<rparr>) = Some (outs, st') \<and>
    [65, 66, 67, 10] = concat (map bucket_bytes (served [(AP_MODE_READBYTES, 2), (AP_MODE_SPECULATIVE, 9), (AP_MODE_GETLINE, 0)] outs)) @ body_rest st'"
  using body_served_exactly_once [of "one_stream\<lparr>request_body := [65, 66, 67, 10], request_body_len := 4, request_body_capacity := 4\<rparr>"
      "[(AP_MODE_READBYTES, 2), (AP_MODE_SPECULATIVE, 9), (AP_MODE_GETLINE, 0)]"]
  by (auto simp: servable_def one_stream_def zero_stream_def body_bytes_def)

section \<open>A collected response is exact or refused\<close>

text \<open>The collected bytes, and the state of the buffer between two buckets.\<close>

definition captured :: "h3_conn_ctx_t \<Rightarrow> byte list" where
  "captured ctx = take (unat (dataheaplen ctx)) (dataheap ctx)"

definition ctx_wf :: "h3_conn_ctx_t \<Rightarrow> bool" where
  "ctx_wf ctx \<longleftrightarrow> length (dataheap ctx) = unat (dataheapcap ctx) \<and> dataheaplen ctx \<le> dataheapcap ctx"

fun bucket_payload :: "bucket_read \<Rightarrow> byte list" where
  "bucket_payload (APR_SUCCESS, Some data) = data"
| "bucket_payload _ = []"

fun capture_all ::
  "(size_t \<Rightarrow> byte list) \<Rightarrow> h3_server_conf option \<Rightarrow> bucket_read list \<Rightarrow> h3_conn_ctx_t \<Rightarrow> h3_conn_ctx_t option" where
  "capture_all palloc conf [] ctx = Some ctx"
| "capture_all palloc conf (b # bs) ctx =
    (case capture_body_bucket palloc conf b ctx of None \<Rightarrow> None | Some (_, ctx') \<Rightarrow> capture_all palloc conf bs ctx')"

lemma heap_grow_ok:
  assumes wf: "ctx_wf ctx" and law: "palloc_law palloc" and n: "unat n \<le> 2 ^ 62" "dataheaplen ctx \<le> n"
  shows "\<exists>ctx'. heap_grow palloc n ctx = Some ctx' \<and> ctx_wf ctx' \<and> n \<le> dataheapcap ctx' \<and> captured ctx' = captured ctx \<and>
    ctx' = ctx\<lparr>dataheap := dataheap ctx', dataheapcap := dataheapcap ctx'\<rparr>"
proof (cases "n > dataheapcap ctx")
  case False
  then show ?thesis using wf by (simp add: heap_grow_def)
next
  case True
  let ?cap = "if dataheapcap ctx \<noteq> 0 then dataheapcap ctx * 2 else H3_BODY_BUF_INIT_CAP"
  have "unat (dataheapcap ctx) < 2 ^ 62" using True n(1) by (simp add: word_less_nat_alt)
  then have "unat (dataheapcap ctx * 2) = unat (dataheapcap ctx) * 2"
    using unat_add_64 [of "dataheapcap ctx" "dataheapcap ctx"] by (simp add: mult_2_right)
  then have c0: "0 < unat ?cap" by (simp add: unat_gt_0 [symmetric] H3_BODY_BUF_INIT_CAP_def)
  have n63: "unat n \<le> 2 ^ 63" using n(1) by simp
  have "unat n \<le> 1 * 2 ^ 65" using n(1) by simp
  also have "\<dots> \<le> unat ?cap * 2 ^ 65" using c0 by (intro mult_right_mono) simp_all
  finally obtain c where c: "grow_cap 65 n ?cap = Some c" "n \<le> c" using grow_cap_ends [OF c0 _ n63, of 65] by blast
  have len: "unat (dataheaplen ctx) \<le> length (palloc c)" "length (palloc c) = unat c"
    using law c(2) n(2) by (auto simp: palloc_law_def word_le_nat_alt)
  have lb: "length (captured ctx) = unat (dataheaplen ctx)" using wf by (simp add: captured_def ctx_wf_def word_le_nat_alt)
  have "\<exists>g. (if dataheaplen ctx > 0 then memcpy_at (palloc c) 0 (captured ctx) else Some (palloc c)) = Some g \<and>
      length g = unat c \<and> take (unat (dataheaplen ctx)) g = captured ctx"
    using len lb memcpy_at_Some [of 0 "captured ctx" "palloc c"] by (auto simp: word_gt_0)
  then obtain g where g: "(if dataheaplen ctx > 0 then memcpy_at (palloc c) 0 (captured ctx) else Some (palloc c)) = Some g"
      "length g = unat c" "take (unat (dataheaplen ctx)) g = captured ctx" by blast
  have "heap_grow palloc n ctx = Some (ctx\<lparr>dataheap := g, dataheapcap := c\<rparr>)"
    using True c(1) g(1) by (cases "dataheaplen ctx > 0") (simp_all add: heap_grow_def captured_def del: grow_cap.simps)
  moreover have "dataheaplen ctx \<le> c" using n(2) c(2) by simp
  ultimately show ?thesis using g(2,3) c(2) by (simp add: ctx_wf_def captured_def)
qed

lemma capture_step:
  assumes wf: "ctx_wf ctx" and law: "palloc_law palloc" and lim: "unat limit \<le> 2 ^ 62" "unat (dataheaplen ctx) \<le> unat limit"
    and conf: "limit = (case conf of None \<Rightarrow> H3_MAX_RESPONSE_BODY_SIZE_DEFAULT | Some c \<Rightarrow> h3_max_response_body_size c)"
    and d: "length (bucket_payload b) < 2 ^ 63" and nt: "\<not> response_too_large ctx"
  shows "\<exists>ctx'. capture_body_bucket palloc conf b ctx = Some (APR_SUCCESS, ctx') \<and> ctx_wf ctx' \<and>
    unat (dataheaplen ctx') \<le> unat limit \<and> cx_resp ctx' = cx_resp ctx \<and> streaming ctx' = streaming ctx \<and>
    (if unat (dataheaplen ctx) + length (bucket_payload b) \<le> unat limit
     then captured ctx' = captured ctx @ bucket_payload b \<and> \<not> response_too_large ctx' \<and>
       unat (dataheaplen ctx') = unat (dataheaplen ctx) + length (bucket_payload b)
     else response_too_large ctx')"
proof (cases "bucket_payload b = []")
  case True
  then have "capture_body_bucket palloc conf b ctx = Some (APR_SUCCESS, ctx)"
    by (cases b rule: bucket_payload.cases) (simp_all add: capture_body_bucket_def split: apr_status.split)
  then show ?thesis using wf lim nt True by simp
next
  case False
  then obtain data where b: "b = (APR_SUCCESS, Some data)" and ne: "data \<noteq> []"
    by (cases b rule: bucket_payload.cases) auto
  let ?n = "of_nat (length data) :: size_t"
  have un: "unat ?n = length data" using d b by (simp add: unat_of_nat_64)
  have n0: "?n \<noteq> 0" using un ne by (metis length_0_conv unat_0)
  have sub: "unat (limit - dataheaplen ctx) = unat limit - unat (dataheaplen ctx)"
    using lim(2) by (rule unat_sub_64)
  have over: "(dataheaplen ctx > limit \<or> ?n > limit - dataheaplen ctx) \<longleftrightarrow>
      \<not> unat (dataheaplen ctx) + length data \<le> unat limit"
    using sub un lim(2) by (auto simp: word_less_nat_alt)
  show ?thesis
  proof (cases "unat (dataheaplen ctx) + length data \<le> unat limit")
    case False
    then have "capture_body_bucket palloc conf b ctx = Some (APR_SUCCESS, ctx\<lparr>response_too_large := True\<rparr>)"
      using nt n0 over unfolding capture_body_bucket_def conf [symmetric] b by (simp add: Let_def)
    then show ?thesis using False wf lim b by (simp add: ctx_wf_def)
  next
    case True
    have sum: "unat (dataheaplen ctx + ?n) = unat (dataheaplen ctx) + length data"
      using un True lim(1) by (subst unat_add_64) auto
    have "unat (dataheaplen ctx + ?n) \<le> 2 ^ 62" "dataheaplen ctx \<le> dataheaplen ctx + ?n"
      using sum True lim(1) by (simp_all add: word_le_nat_alt)
    from heap_grow_ok [OF wf law this] obtain ctx1 where
      g: "heap_grow palloc (dataheaplen ctx + ?n) ctx = Some ctx1" "ctx_wf ctx1" "dataheaplen ctx + ?n \<le> dataheapcap ctx1"
        "captured ctx1 = captured ctx" and c1: "ctx1 = ctx\<lparr>dataheap := dataheap ctx1, dataheapcap := dataheapcap ctx1\<rparr>" by blast
    have f1: "dataheaplen ctx1 = dataheaplen ctx" "response_too_large ctx1 = response_too_large ctx" "cx_resp ctx1 = cx_resp ctx"
      "streaming ctx1 = streaming ctx" by (subst c1, simp)+
    have "unat (dataheaplen ctx) + length data \<le> length (dataheap ctx1)"
      using g(2,3) sum by (simp add: ctx_wf_def word_le_nat_alt)
    from memcpy_at_Some [OF this] obtain buf where
      m: "memcpy_at (dataheap ctx1) (unat (dataheaplen ctx)) data = Some buf" "length buf = length (dataheap ctx1)"
        "take (unat (dataheaplen ctx) + length data) buf = take (unat (dataheaplen ctx)) (dataheap ctx1) @ data" by blast
    have run: "capture_body_bucket palloc conf b ctx =
        Some (APR_SUCCESS, ctx1\<lparr>dataheap := buf, dataheaplen := dataheaplen ctx + ?n\<rparr>)"
      using nt n0 over True g(1) m(1) f1(1) unfolding capture_body_bucket_def conf [symmetric] b by (simp add: Let_def)
    have "captured (ctx1\<lparr>dataheap := buf, dataheaplen := dataheaplen ctx + ?n\<rparr>) = captured ctx @ data"
      using m(3) g(4) f1(1) by (simp add: captured_def sum)
    then show ?thesis using run True g(2,3) m(2) sum b f1 nt by (simp add: ctx_wf_def)
  qed
qed

lemma capture_all_too_large:
  "response_too_large ctx \<Longrightarrow> capture_all palloc conf bs ctx = Some ctx"
  by (induction bs) (simp_all add: capture_body_bucket_def)

lemma capture_all_spec:
  assumes law: "palloc_law palloc" and lim: "unat limit \<le> 2 ^ 62"
    and conf: "limit = (case conf of None \<Rightarrow> H3_MAX_RESPONSE_BODY_SIZE_DEFAULT | Some c \<Rightarrow> h3_max_response_body_size c)"
  shows "ctx_wf ctx \<Longrightarrow> unat (dataheaplen ctx) \<le> unat limit \<Longrightarrow> \<not> response_too_large ctx \<Longrightarrow>
    list_all (\<lambda>b. length (bucket_payload b) < 2 ^ 63) bs \<Longrightarrow>
    \<exists>ctx'. capture_all palloc conf bs ctx = Some ctx' \<and> ctx_wf ctx' \<and>
      (if unat (dataheaplen ctx) + length (concat (map bucket_payload bs)) \<le> unat limit
       then captured ctx' = captured ctx @ concat (map bucket_payload bs) \<and> \<not> response_too_large ctx'
       else response_too_large ctx')"
proof (induction bs arbitrary: ctx)
  case Nil
  then show ?case by simp
next
  case (Cons b bs)
  have d: "length (bucket_payload b) < 2 ^ 63" using Cons.prems(4) by simp
  from capture_step [OF Cons.prems(1) law lim Cons.prems(2) conf d Cons.prems(3)] obtain ctx1 where
    s: "capture_body_bucket palloc conf b ctx = Some (APR_SUCCESS, ctx1)" "ctx_wf ctx1" "unat (dataheaplen ctx1) \<le> unat limit"
      "if unat (dataheaplen ctx) + length (bucket_payload b) \<le> unat limit
       then captured ctx1 = captured ctx @ bucket_payload b \<and> \<not> response_too_large ctx1 \<and>
         unat (dataheaplen ctx1) = unat (dataheaplen ctx) + length (bucket_payload b)
       else response_too_large ctx1" by blast
  show ?case
  proof (cases "unat (dataheaplen ctx) + length (bucket_payload b) \<le> unat limit")
    case True
    then have s': "captured ctx1 = captured ctx @ bucket_payload b" "\<not> response_too_large ctx1"
      "unat (dataheaplen ctx1) = unat (dataheaplen ctx) + length (bucket_payload b)" using s(4) by simp_all
    from Cons.IH [OF s(2,3) s'(2)] Cons.prems(4) s(1) s' show ?thesis by auto
  next
    case False
    then have "response_too_large ctx1" using s(4) by simp
    then show ?thesis using s(1,2) False by (simp add: capture_all_too_large)
  qed
qed


definition zero_ctx :: h3_conn_ctx_t where
  "zero_ctx = \<lparr>cx_resp = None, dataheap = [], dataheaplen = 0, dataheapcap = 0, response_too_large = False, streaming = False\<rparr>"


end
