(* ===== verification/H3_Worker.thy ===== *)
theory H3_Worker
  imports H3_Filter
begin

text \<open>
  The request worker of \<^verbatim>\<open>src/h3_request.c\<close>: building the request httpd processes from a
  stream, running httpd over the module's filters, and sending what is left of the response.
  httpd is a parameter: a tree of the calls it makes to the input and the output filter. The
  first part shows that a streamed response leaves in order.
\<close>

section \<open>The worker\<close>

text \<open>The fields of the request the module fills in.\<close>

record ap_request =
  ar_method :: string
  ar_header_only :: bool
  ar_the_request :: "string option"
  ar_headers_in :: table
  ar_protocol :: string
  ar_proto_num :: int

datatype httpd_call = Out_bb bool "table option" int "out_bucket list" | In_bb "in_bucket list" ap_input_mode int
datatype httpd_ans = Out_rv apr_status | In_rv apr_status "in_bucket list"

text \<open>
  \<open>hp_process r None\<close> is \<^verbatim>\<open>ap_process_request\<close> and \<open>hp_process r (Some err)\<close> is \<^verbatim>\<open>ap_die\<close>; both end
  with the response headers and the status of the request. \<open>hp_vhost_status\<close> is the status of
  the request after \<^verbatim>\<open>ap_update_vhost_from_headers\<close>.
\<close>

record httpd_ops =
  hp_method_is_get :: "string \<Rightarrow> bool"
  hp_unparsed_uri :: "string \<Rightarrow> string"
  hp_vhost_status :: "ap_request \<Rightarrow> int"
  hp_process :: "ap_request \<Rightarrow> int option \<Rightarrow> (httpd_call, httpd_ans, table option \<times> int) itree"

definition set_opt :: "apr_ops \<Rightarrow> string \<Rightarrow> string option \<Rightarrow> table \<Rightarrow> table" where
  "set_opt A k v t = (case v of None \<Rightarrow> t | Some v \<Rightarrow> apr_table_setn A t k v)"

definition worker_request :: "apr_ops \<Rightarrow> httpd_ops \<Rightarrow> h3_stream \<Rightarrow> ap_request" where
  "worker_request A H st =
    (let meth = (case req_method st of None \<Rightarrow> ''GET'' | Some m \<Rightarrow> m);
         proto = ''HTTP/3.0'';
         line = map_option (\<lambda>p. meth @ '' '' @ hp_unparsed_uri H p @ '' '' @ proto) (req_path st);
         t1 = set_opt A ''Host'' (req_authority st) [];
         t2 = set_opt A ''Scheme'' (req_scheme st) t1;
         t3 = (case req_headers st of None \<Rightarrow> t2 | Some hs \<Rightarrow> apr_table_overlap_set A t2 hs);
         t4 = (if request_body_len st > 0 then apr_table_setn A t3 ''Content-Length'' (print_dec (unat (request_body_len st))) else t3)
     in \<lparr>ar_method = meth, ar_header_only = (hp_method_is_get H meth \<and> meth \<noteq> [] \<and> hd meth = CHR ''H''),
         ar_the_request = line, ar_headers_in = t4, ar_protocol = proto, ar_proto_num = 3 * 1000 + 0\<rparr>)"

text \<open>The body bytes of a bucket.\<close>

fun bucket_data :: "out_bucket \<Rightarrow> byte list" where
  "bucket_data (Ob_data b) = bucket_payload b"
| "bucket_data _ = []"

abbreviation st_of :: "resp_state \<Rightarrow> h3_stream" where
  "st_of s \<equiv> fst (snd s)"

text \<open>
  httpd's calls. The bytes passed to the output filter of the request itself are recorded, and
  whether the filter accepted all of them; the record is for the statements below only.
\<close>

type_synonym 'ng wrun = "('ng wk \<times> byte list \<times> bool) c_run"

fun httpd_step :: "'ng wlib \<Rightarrow> 'ng wenv \<Rightarrow> httpd_call \<Rightarrow> 'ng wrun \<Rightarrow> httpd_ans \<times> 'ng wrun" where
  "httpd_step W E (Out_bb ours hs rst bb) (Done (s, log, acc)) =
    (case h3_filter_out_proto W E ours (\<lambda>b. fst (h3_filter_out b)) hs rst bb s of
       Done (rv, s') \<Rightarrow> (Out_rv rv, Done (s', if ours then log @ concat (map bucket_data bb) else log, acc \<and> (ours \<longrightarrow> rv = APR_SUCCESS)))
     | Undefined \<Rightarrow> (Out_rv APR_EGENERAL, Undefined)
     | Out_of_fuel \<Rightarrow> (Out_rv APR_EGENERAL, Out_of_fuel))"
| "httpd_step W E (In_bb bb mode n) (Done (s, log, acc)) =
    (case wk_rs s of (h, st, se) \<Rightarrow>
       (case h3_filter_in_proto (Some st) None bb mode n of
          Some (rv, Some st', bb') \<Rightarrow> (In_rv rv bb', Done (s\<lparr>wk_rs := (h, st', se)\<rparr>, log, acc))
        | _ \<Rightarrow> (In_rv APR_EGENERAL bb, Undefined)))"
| "httpd_step W E q r = (Out_rv APR_EGENERAL, r)"

definition set_stream_dispatched :: "'ng wenv \<Rightarrow> bool \<Rightarrow> 'ng wk \<Rightarrow> 'ng wk" where
  "set_stream_dispatched E b s =
    (let s1 = wk_sync E s in case wk_rs s1 of (h, st, se) \<Rightarrow> s1\<lparr>wk_rs := (h, st\<lparr>dispatched := b\<rparr>, se)\<rparr>)"

definition task_left :: "'ng wk \<Rightarrow> 'ng wk" where
  "task_left s = (case wk_rs s of (h, st, se) \<Rightarrow> s\<lparr>wk_rs := (h, st, se\<lparr>active_tasks := active_tasks se - 1\<rparr>)\<rparr>)"

definition set_worker_done :: "'ng wenv \<Rightarrow> 'ng wk \<Rightarrow> 'ng wk" where
  "set_worker_done E s =
    (let s1 = wk_sync E s in case wk_rs s1 of (h, st, se) \<Rightarrow> s1\<lparr>wk_rs := (h, st\<lparr>worker_done := True\<rparr>, se)\<rparr>)"

definition fresh_ctx :: "h3_server_conf option \<Rightarrow> h3_conn_ctx_t" where
  "fresh_ctx conf = zero_ctx\<lparr>streaming :=
     (case conf of None \<Rightarrow> True | Some c \<Rightarrow> h3_max_response_body_size c = H3_MAX_RESPONSE_BODY_SIZE_DEFAULT)\<rparr>"

definition oversized_msg :: "byte list" where
  "oversized_msg = map of_char ''Response exceeded H3MaxResponseBodySize\<newline>''"

definition oversized_nva :: nva where
  "oversized_nva = [('':status'', print_int HTTP_INTERNAL_SERVER_ERROR), (''content-type'', ''text/plain'')]"

text \<open>What is sent after httpd is done: the response's start if it is still missing, and a collected body.\<close>

definition worker_reply :: "'ng wlib \<Rightarrow> 'ng wenv \<Rightarrow> table option \<Rightarrow> int \<Rightarrow> 'ng wk \<Rightarrow> (apr_status \<times> 'ng wk) c_run" where
  "worker_reply W E hs rst s =
    (let ctx = wk_ctx s;
         (rv, s1) = (if response_too_large ctx then wk_submit W E oversized_nva s else wk_response_start W E hs rst s);
         body = (if response_too_large ctx then oversized_msg
                 else if \<not> streaming ctx \<and> dataheaplen ctx > 0 then take (unat (dataheaplen ctx)) (dataheap ctx) else [])
     in if rv = APR_SUCCESS \<and> body \<noteq> [] then wk_append E body s1 else Done (rv, s1))"

datatype worker_end = Worker_failed | Worker_finished apr_status

definition worker_die :: "httpd_ops \<Rightarrow> ap_request \<Rightarrow> h3_stream \<Rightarrow> int option" where
  "worker_die H r st =
    (if hp_vhost_status H r \<noteq> HTTP_OK then Some (hp_vhost_status H r)
     else if request_body_overflow st then Some HTTP_REQUEST_ENTITY_TOO_LARGE
     else None)"

definition run_httpd :: "'ng wlib \<Rightarrow> 'ng wenv \<Rightarrow> httpd_ops \<Rightarrow> 'ng wk \<Rightarrow> (table option \<times> int) \<times> 'ng wrun" where
  "run_httpd W E H s =
    (let st = st_of (wk_rs s); r = worker_request (wl_apr W) H st
     in run_itree (httpd_step W E) (hp_process H r (worker_die H r st))
          (Done (s\<lparr>wk_ctx := fresh_ctx (wl_conf W)\<rparr>, [], True)))"

definition stream_worker ::
  "'ng wlib \<Rightarrow> 'ng wenv \<Rightarrow> httpd_ops \<Rightarrow> bool \<Rightarrow> bool \<Rightarrow> 'ng wk \<Rightarrow> (worker_end \<times> 'ng wk) c_run" where
  "stream_worker W E H create_ok pool_ok s =
    (if \<not> create_ok \<or> \<not> pool_ok then Done (Worker_failed, task_left (set_stream_dispatched E False s))
     else (case run_httpd W E H s of
       ((hs, rst), Done (s1, _, _)) \<Rightarrow>
         (case worker_reply W E hs rst s1 of
            Done (rv, s2) \<Rightarrow> Done (Worker_finished rv, task_left (set_worker_done E (wk_complete E s2)))
          | Undefined \<Rightarrow> Undefined
          | Out_of_fuel \<Rightarrow> Out_of_fuel)
     | (_, Undefined) \<Rightarrow> Undefined
     | (_, Out_of_fuel) \<Rightarrow> Out_of_fuel))"

section \<open>A streamed response is in order\<close>

text \<open>
  What belongs to the worker alone while it runs: other threads change the response queue and
  the session, never these fields.
\<close>

definition worker_part :: "h3_stream \<Rightarrow> bool \<times> bool \<times> bool \<times> int \<times> byte list \<times> size_t \<times> size_t" where
  "worker_part st = (response_submitted st, worker_done st, dispatched st, stream_id st, request_body st,
     request_body_len st, request_body_offset st)"

definition wenv_ok :: "'ng wenv \<Rightarrow> bool" where
  "wenv_ok E \<longleftrightarrow>
     (\<forall>k ng s ng' s'. resp_ok s \<longrightarrow> we_sync E k (ng, s) = (ng', s') \<longrightarrow>
        resp_ok s' \<and> worker_part (st_of s') = worker_part (st_of s) \<and>
        (response_complete (st_of s) \<longrightarrow> response_complete (st_of s'))) \<and>
     (\<forall>k. env_ok (we_env E k)) \<and>
     (\<forall>k j s. resp_ok s \<longrightarrow> worker_part (st_of (we_env E k j s)) = worker_part (st_of s))"

text \<open>The event thread makes room in the queue in the end, and the fuel allows for the wait.\<close>

definition wenv_live :: "'ng wenv \<Rightarrow> nat \<Rightarrow> bool" where
  "wenv_live E n \<longleftrightarrow> (\<forall>k. \<exists>w. makes_room w (we_env E k) \<and> w + n < we_fuel E k)"

fun before_headers :: "reply_effect list \<Rightarrow> reply_effect list" where
  "before_headers [] = []"
| "before_headers (Submitted n # es) = []"
| "before_headers (Queue e # es) = Queue e # before_headers es"

lemma before_headers_append:
  "before_headers (xs @ ys) = (if submissions xs = [] then xs @ before_headers ys else before_headers xs)"
  by (induction xs rule: before_headers.induct) auto

abbreviation sent_body :: "'ng wk \<Rightarrow> byte list" where
  "sent_body s \<equiv> enqueued (queue_effects (wk_effs s))"

text \<open>At most one header block went out, none before it of the body, and the stream knows.\<close>

definition wk_ok :: "'ng wk \<Rightarrow> bool" where
  "wk_ok s \<longleftrightarrow> resp_ok (wk_rs s) \<and>
     length (submissions (wk_effs s)) = (if response_submitted (st_of (wk_rs s)) then 1 else 0) \<and>
     enqueued (queue_effects (before_headers (wk_effs s))) = []"

lemma wk_okI_effs:
  assumes "wk_ok s" and "resp_ok (wk_rs s')" and "wk_effs s' = wk_effs s @ es"
    and "length (submissions es) = (if \<not> response_submitted (st_of (wk_rs s)) \<and> response_submitted (st_of (wk_rs s')) then 1 else 0)"
    and "response_submitted (st_of (wk_rs s)) \<Longrightarrow> response_submitted (st_of (wk_rs s'))"
    and "response_submitted (st_of (wk_rs s)) \<or> enqueued (queue_effects (before_headers es)) = []"
  shows "wk_ok s'"
proof -
  have "enqueued (queue_effects (wk_effs s)) = []" if "submissions (wk_effs s) = []"
  proof -
    have "before_headers (wk_effs s) = wk_effs s" using before_headers_append [of "wk_effs s" "[]"] that by simp
    then show ?thesis using assms(1) by (simp add: wk_ok_def)
  qed
  moreover have "submissions (wk_effs s) = [] \<longleftrightarrow> \<not> response_submitted (st_of (wk_rs s))"
    using assms(1) by (auto simp: wk_ok_def split: if_splits)
  ultimately show ?thesis using assms
    by (cases "response_submitted (st_of (wk_rs s))") (auto simp: wk_ok_def before_headers_append)
qed

lemma wk_sync_ok:
  assumes "wenv_ok E" and "wk_ok s"
  shows "wk_ok (wk_sync E s)" and "wk_effs (wk_sync E s) = wk_effs s" and "wk_ctx (wk_sync E s) = wk_ctx s"
    and "worker_part (st_of (wk_rs (wk_sync E s))) = worker_part (st_of (wk_rs s))"
proof -
  obtain ng' s' where r: "we_sync E (wk_ops s) (wk_ng s, wk_rs s) = (ng', s')" by (metis surj_pair)
  have k: "resp_ok s' \<and> worker_part (st_of s') = worker_part (st_of (wk_rs s))"
    using assms r unfolding wenv_ok_def wk_ok_def by blast
  then have "response_submitted (st_of s') = response_submitted (st_of (wk_rs s))" by (simp add: worker_part_def)
  then show "wk_ok (wk_sync E s)" using assms(2) k r by (simp add: wk_sync_def wk_ok_def)
  show "wk_effs (wk_sync E s) = wk_effs s" "wk_ctx (wk_sync E s) = wk_ctx s"
    "worker_part (st_of (wk_rs (wk_sync E s))) = worker_part (st_of (wk_rs s))"
    using k r by (simp_all add: wk_sync_def)
qed

lemma submit_keeps:
  assumes "submit_response_nva submit nva (ng, h, st, se) = (rv, (ng', h', st', se'), es)"
  shows "worker_part (st'\<lparr>response_submitted := x\<rparr>) = worker_part (st\<lparr>response_submitted := x\<rparr>)"
    and "enqueued (queue_effects (before_headers es)) = []"
  using assms
  by (auto simp: submit_response_nva_def h3_stream_response_cancel_locked_def worker_part_def split: if_splits prod.splits)

lemma wk_submit_ok:
  assumes E: "wenv_ok E" and ok: "wk_ok s" and r: "wk_submit W E nva s = (rv, s')"
  shows "wk_ok s'" and "sent_body s' = sent_body s" and "wk_ctx s' = wk_ctx s"
    and "rv = APR_SUCCESS \<longleftrightarrow> response_submitted (st_of (wk_rs s'))"
    and "response_submitted (st_of (wk_rs s)) \<Longrightarrow> wk_effs s' = wk_effs s"
    and "worker_part (st_of (wk_rs s')\<lparr>response_submitted := x\<rparr>) = worker_part (st_of (wk_rs s)\<lparr>response_submitted := x\<rparr>)"
    and "\<not> response_submitted (st_of (wk_rs s)) \<Longrightarrow> rv = APR_SUCCESS \<Longrightarrow> submissions (wk_effs s') = submissions (wk_effs s) @ [nva]"
proof -
  note y = wk_sync_ok [OF E ok]
  obtain h st se where s1: "wk_rs (wk_sync E s) = (h, st, se)" by (metis prod_cases3)
  obtain ng' h' st' se' es where q: "submit_response_nva (wl_submit W) nva (wk_ng (wk_sync E s), h, st, se) = (rv, (ng', h', st', se'), es)"
    and s': "s' = (wk_sync E s)\<lparr>wk_ng := ng', wk_rs := (h', st', se'), wk_effs := wk_effs s @ es\<rparr>"
    using r y(2) s1 by (auto simp: wk_submit_def Let_def split: prod.splits)
  note u = submit_result [OF q] and v = submit_keeps [OF q]
  have w: "worker_part st = worker_part (st_of (wk_rs s))" using y(4) s1 by simp
  then have sb: "response_submitted st = response_submitted (st_of (wk_rs s))" by (simp add: worker_part_def)
  have ro: "resp_ok (h, st, se)" using y(1) s1 by (simp add: wk_ok_def)
  then have "resp_ok (h', st', se')" using u(1,7) by (auto simp: resp_ok_def)
  then show "wk_ok s'" using u v sb
    by (intro wk_okI_effs [OF ok, where es = es]) (auto simp: s')
  show "sent_body s' = sent_body s" using u(3) by (simp add: s')
  show "wk_ctx s' = wk_ctx s" using y(3) by (simp add: s')
  show "rv = APR_SUCCESS \<longleftrightarrow> response_submitted (st_of (wk_rs s'))" using u(6) by (simp add: s')
  show "wk_effs s' = wk_effs s" if "response_submitted (st_of (wk_rs s))"
    using q that sb by (auto simp: submit_response_nva_def s')
  show "worker_part (st_of (wk_rs s')\<lparr>response_submitted := x\<rparr>) = worker_part (st_of (wk_rs s)\<lparr>response_submitted := x\<rparr>)"
    using v(1) [of x] w by (simp add: s' worker_part_def)
  show "submissions (wk_effs s') = submissions (wk_effs s) @ [nva]" if "\<not> response_submitted (st_of (wk_rs s))" "rv = APR_SUCCESS"
    using u(4,6) that sb by (simp add: s')
qed

lemma response_start_submit:
  "wk_response_start W E hs rst s =
   wk_submit W E (build_response_nva (wl_apr W) 64 (cx_resp (wk_ctx (wk_sync E s))) hs rst) s"
  by (auto simp: wk_response_start_def wk_submit_def h3_response_start_def Let_def split: prod.splits)

lemma append_iteration_part:
  assumes "append_iteration m se data len off h st = Some (out, h', st', e)"
  shows "worker_part st' = worker_part st"
  using assms
  by (auto simp: append_iteration_def h3_stream_response_cancel_locked_def chunk_link_def worker_part_def Let_def heap_alloc_def
      split: if_splits option.splits prod.splits)

lemma append_loop_part:
  assumes env: "env_ok env" and part: "\<And>j s. resp_ok s \<Longrightarrow> worker_part (st_of (env j s)) = worker_part (st_of s)"
    and len: "unat len = length data"
  shows "resp_ok s \<Longrightarrow> append_loop env wait_rv mal fuel k data len off s effs = Done (rv, s', e) \<Longrightarrow>
    worker_part (st_of s') = worker_part (st_of s)"
proof (induction fuel arbitrary: k off s effs)
  case 0
  then show ?case by simp
next
  case (Suc fuel)
  obtain h st se where es: "env k s = (h, st, se)" by (metis prod_cases3)
  have p1: "worker_part st = worker_part (st_of s)" using part [OF Suc.prems(1), of k] es by simp
  show ?case
  proof (cases "off < len")
    case False
    then show ?thesis using Suc.prems by simp
  next
    case True
    show ?thesis
    proof (cases rule: append_step [where env = env and k = k and s = s, OF Suc.prems(1) env len True es, of "mal k", case_names w er q])
      case w
      have o2: "resp_ok (h, st, se)" by (rule w(3))
      from part [OF o2, of "Suc k"] Suc.prems(2) Suc.IH [OF o2, of "Suc k" off effs] w(1) True es p1 show ?thesis
        by (auto split: if_splits)
    next
      case (er rv' st' e')
      then show ?thesis using Suc.prems(2) True es p1 append_iteration_part [OF er(1)] by auto
    next
      case (q n h' st' e')
      from Suc.IH [OF q(5), of "Suc k" "off + n" "effs @ e'"] Suc.prems(2) q(1) True es p1 append_iteration_part [OF q(1)]
      show ?thesis by auto
    qed
  qed
qed

lemma wk_append_ok:
  assumes E: "wenv_ok E" and ok: "wk_ok s" and sub: "response_submitted (st_of (wk_rs s))" and len: "length data < 2 ^ 64"
  shows "wk_append E data s \<noteq> Undefined"
    and "wk_append E data s = Done (rv, s') \<Longrightarrow> wk_ok s' \<and> wk_ctx s' = wk_ctx s \<and>
      worker_part (st_of (wk_rs s')) = worker_part (st_of (wk_rs s)) \<and> submissions (wk_effs s') = submissions (wk_effs s) \<and>
      (\<exists>rest. sent_body s' @ rest = sent_body s @ data \<and> (rv = APR_SUCCESS \<longrightarrow> rest = []))"
    and "wenv_live E (length data) \<Longrightarrow> \<exists>rv s'. wk_append E data s = Done (rv, s')"
proof -
  let ?k = "wk_ops s"
  have e: "env_ok (we_env E ?k)" and part: "\<And>j s. resp_ok s \<Longrightarrow> worker_part (st_of (we_env E ?k j s)) = worker_part (st_of s)"
    using E unfolding wenv_ok_def by blast+
  have r: "resp_ok (wk_rs s)" using ok by (simp add: wk_ok_def)
  have ln: "unat (of_nat (length data) :: size_t) = length data" using len by (simp add: unat_of_nat_64)
  let ?run = "append_loop (we_env E ?k) (we_wait E ?k) (we_mal E ?k) (we_fuel E ?k) 0 data (of_nat (length data)) 0 (wk_rs s) []"
  have unf: "wk_append E data s = (case ?run of Done (rv, rs, es) \<Rightarrow>
        Done (rv, s\<lparr>wk_rs := rs, wk_ops := Suc ?k, wk_effs := wk_effs s @ map Queue es\<rparr>)
      | Undefined \<Rightarrow> Undefined | Out_of_fuel \<Rightarrow> Out_of_fuel)"
    by (auto simp: wk_append_def h3_stream_response_append_def Let_def split: c_run.splits)
  note res = append_loop_result [OF r e ln, of "we_wait E ?k" "we_mal E ?k" "we_fuel E ?k" 0 0 "[]"]
  show "wk_append E data s \<noteq> Undefined" using res(1) unf by (auto split: c_run.splits)
  show "\<exists>rv s'. wk_append E data s = Done (rv, s')" if "wenv_live E (length data)"
  proof -
    from that obtain w where w: "makes_room w (we_env E ?k)" "w + length data < we_fuel E ?k" by (auto simp: wenv_live_def)
    then have "(w - 0) + (length data - unat (0 :: size_t)) < we_fuel E ?k" by simp
    from append_loop_returns [OF r e w(1) ln this, of "we_wait E ?k" "we_mal E ?k" "[]"]
    obtain rv rs es where "?run = Done (rv, rs, es)" by blast
    then show ?thesis using unf by simp
  qed
  assume d: "wk_append E data s = Done (rv, s')"
  then obtain rs es where q: "?run = Done (rv, rs, es)"
    and s': "s' = s\<lparr>wk_rs := rs, wk_ops := Suc ?k, wk_effs := wk_effs s @ map Queue es\<rparr>"
    using unf by (auto split: c_run.splits)
  have p: "worker_part (st_of rs) = worker_part (st_of (wk_rs s))" by (rule append_loop_part [OF e part ln r q])
  then have sb: "response_submitted (st_of rs)" using sub by (simp add: worker_part_def)
  from res(2) [OF q] have rr: "resp_ok rs" "\<exists>rest. enqueued es @ rest = data \<and> (rv = APR_SUCCESS \<longrightarrow> rest = [])" by simp_all
  have "wk_ok s'" using sub sb rr(1) by (intro wk_okI_effs [OF ok, where es = "map Queue es"]) (simp_all add: s')
  then show "wk_ok s' \<and> wk_ctx s' = wk_ctx s \<and>
      worker_part (st_of (wk_rs s')) = worker_part (st_of (wk_rs s)) \<and> submissions (wk_effs s') = submissions (wk_effs s) \<and>
      (\<exists>rest. sent_body s' @ rest = sent_body s @ data \<and> (rv = APR_SUCCESS \<longrightarrow> rest = []))"
    using p rr(2) by (auto simp: s')
qed

lemma wk_complete_ok:
  assumes E: "wenv_ok E" and ok: "wk_ok s"
  shows "wk_ok (wk_complete E s)" and "wk_ctx (wk_complete E s) = wk_ctx s" and "sent_body (wk_complete E s) = sent_body s"
    and "worker_part (st_of (wk_rs (wk_complete E s))) = worker_part (st_of (wk_rs s))"
    and "response_complete (st_of (wk_rs (wk_complete E s)))"
    and "submissions (wk_effs (wk_complete E s)) = submissions (wk_effs s)"
proof -
  note y = wk_sync_ok [OF E ok]
  obtain h st se where s1: "wk_rs (wk_sync E s) = (h, st, se)" by (metis prod_cases3)
  obtain st' es where c: "h3_stream_response_complete se st = (st', es)" by fastforce
  have st': "st' = st\<lparr>response_complete := True\<rparr>" and en: "enqueued es = []"
    using c by (auto simp: h3_stream_response_complete_def split: if_splits)
  have w: "wk_complete E s = (wk_sync E s)\<lparr>wk_rs := (h, st', se), wk_effs := wk_effs s @ map Queue es\<rparr>"
    using s1 c y(2) by (simp add: wk_complete_def)
  have "resp_ok (h, st, se)" using y(1) s1 by (simp add: wk_ok_def)
  then have r: "resp_ok (h, st', se)" by (simp add: resp_ok_def resp_rep_def st')
  have p: "worker_part st' = worker_part (st_of (wk_rs s))" using y(4) s1 by (simp add: st' worker_part_def)
  then have sb: "response_submitted st' = response_submitted (st_of (wk_rs s))" by (simp add: worker_part_def)
  have bh: "enqueued (queue_effects (before_headers (map Queue es))) = []"
    using before_headers_append [of "map Queue es" "[]"] en by simp
  show "wk_ok (wk_complete E s)" using r sb bh by (intro wk_okI_effs [OF ok, where es = "map Queue es"]) (simp_all add: w)
  show "wk_ctx (wk_complete E s) = wk_ctx s" "sent_body (wk_complete E s) = sent_body s"
    "worker_part (st_of (wk_rs (wk_complete E s))) = worker_part (st_of (wk_rs s))"
    "response_complete (st_of (wk_rs (wk_complete E s)))"
    "submissions (wk_effs (wk_complete E s)) = submissions (wk_effs s)"
    using y(3) en p by (simp_all add: w st')
qed

lemma wenv_live_mono: "wenv_live E n \<Longrightarrow> m \<le> n \<Longrightarrow> wenv_live E m"
  unfolding wenv_live_def by (meson add_le_mono1 add_left_mono le_less_trans)

definition streamed :: "'ng wk \<Rightarrow> byte list \<Rightarrow> apr_status \<times> 'ng wk \<Rightarrow> bool" where
  "streamed s data r \<longleftrightarrow> (case r of (rv, s') \<Rightarrow> wk_ok s' \<and>
     streaming (wk_ctx s') = streaming (wk_ctx s) \<and> response_too_large (wk_ctx s') = response_too_large (wk_ctx s) \<and>
     (\<forall>x. worker_part (st_of (wk_rs s')\<lparr>response_submitted := x\<rparr>) = worker_part (st_of (wk_rs s)\<lparr>response_submitted := x\<rparr>)) \<and>
     (response_submitted (st_of (wk_rs s)) \<longrightarrow> response_submitted (st_of (wk_rs s'))) \<and>
     (\<exists>rest. sent_body s' @ rest = sent_body s @ data \<and> (rv = APR_SUCCESS \<longrightarrow> rest = [])))"

lemma streamed_trans:
  assumes "streamed s d1 (APR_SUCCESS, s1)" and "streamed s1 d2 r"
  shows "streamed s (d1 @ d2) r"
proof -
  obtain rv s2 where r: "r = (rv, s2)" by fastforce
  have "sent_body s1 = sent_body s @ d1" using assms(1) by (auto simp: streamed_def)
  then show ?thesis using assms unfolding r streamed_def prod.case by simp
qed

lemma streamed_stop: "rv \<noteq> APR_SUCCESS \<Longrightarrow> streamed s d1 (rv, s1) \<Longrightarrow> streamed s (d1 @ d2) (rv, s1)"
proof -
  assume "rv \<noteq> APR_SUCCESS" and s: "streamed s d1 (rv, s1)"
  then obtain rest where "sent_body s1 @ rest = sent_body s @ d1" by (auto simp: streamed_def)
  then have "sent_body s1 @ (rest @ d2) = sent_body s @ d1 @ d2" by (metis append.assoc)
  then have "\<exists>rest. sent_body s1 @ rest = sent_body s @ d1 @ d2 \<and> (rv = APR_SUCCESS \<longrightarrow> rest = [])"
    using \<open>rv \<noteq> APR_SUCCESS\<close> by blast
  then show "streamed s (d1 @ d2) (rv, s1)" using s unfolding streamed_def prod.case by blast
qed

lemma streamed_resp_upd:
  "streamed (s\<lparr>wk_ctx := (wk_ctx s)\<lparr>cx_resp := r\<rparr>\<rparr>) d t = streamed s d t"
  by (cases t) (simp add: streamed_def)

lemma start_streamed:
  assumes "wenv_ok E" and "wk_ok s" and "wk_response_start W E hs rst s = (rv, s1)"
  shows "streamed s [] (rv, s1)" and "rv = APR_SUCCESS \<Longrightarrow> response_submitted (st_of (wk_rs s1))"
proof -
  note a = wk_submit_ok [OF assms(1,2) assms(3) [unfolded response_start_submit]]
  have sb: "response_submitted (st_of (wk_rs s1))" if "response_submitted (st_of (wk_rs s))"
  proof (rule ccontr)
    assume "\<not> response_submitted (st_of (wk_rs s1))"
    then have "submissions (wk_effs s1) = []" using a(1) by (simp add: wk_ok_def)
    then show False using a(5) [OF that] assms(2) that by (simp add: wk_ok_def)
  qed
  show "streamed s [] (rv, s1)"
    unfolding streamed_def prod.case a(2) a(3) using a(1,6) sb by blast
  show "rv = APR_SUCCESS \<Longrightarrow> response_submitted (st_of (wk_rs s1))" using a(4) by simp
qed

lemma stream_bucket_streamed:
  assumes E: "wenv_ok E" and ok: "wk_ok s" and len: "length (bucket_payload b) < 2 ^ 64" and live: "wenv_live E (length (bucket_payload b))"
  shows "\<exists>rv s1. stream_bucket W E hs rst b s = Done (rv, s1) \<and> streamed s (bucket_payload b) (rv, s1) \<and>
    (rv = APR_SUCCESS \<longrightarrow> response_submitted (st_of (wk_rs s1)))"
proof -
  obtain rv s1 where st: "wk_response_start W E hs rst s = (rv, s1)" by fastforce
  note a = start_streamed [OF E ok st]
  show ?thesis
  proof (cases "rv = APR_SUCCESS")
    case False
    then show ?thesis using st streamed_stop [OF False a(1), of "bucket_payload b"] by (simp add: stream_bucket_def)
  next
    case True
    then have sub: "response_submitted (st_of (wk_rs s1))" and a': "streamed s [] (APR_SUCCESS, s1)" using a by simp_all
    then have ok1: "wk_ok s1" by (simp add: streamed_def)
    show ?thesis
    proof (cases "bucket_payload b = []")
      case pe: True
      obtain brv bd where b: "b = (brv, bd)" by fastforce
      have "stream_bucket W E hs rst b s = Done (brv, s1)"
        using pe True st b by (cases brv; cases bd) (auto simp: stream_bucket_def)
      moreover have "streamed s [] (brv, s1)" using a' by (auto simp: streamed_def)
      ultimately show ?thesis using pe sub by auto
    next
      case False
      then have b: "b = (APR_SUCCESS, Some (bucket_payload b))" by (cases b rule: bucket_payload.cases) auto
      note p = wk_append_ok [OF E ok1 sub len]
      from p(3) [OF live] obtain rv2 s2 where r: "wk_append E (bucket_payload b) s1 = Done (rv2, s2)" by blast
      have "stream_bucket W E hs rst b s = Done (rv2, s2)"
        using True st False r by (subst b) (simp add: stream_bucket_def)
      moreover have "streamed s1 (bucket_payload b) (rv2, s2)" and "response_submitted (st_of (wk_rs s2))"
        using p(2) [OF r] sub by (auto simp: streamed_def worker_part_def)
      ultimately show ?thesis using streamed_trans [OF a'] by fastforce
    qed
  qed
qed

lemma complete_streamed:
  assumes "wenv_ok E" and "wk_ok s"
  shows "streamed s [] (APR_SUCCESS, wk_complete E s)"
  using wk_complete_ok [OF assms] by (simp add: streamed_def worker_part_def)

lemma filter_buckets_streamed:
  assumes E: "wenv_ok E"
  shows "wk_ok s \<Longrightarrow> streaming (wk_ctx s) \<Longrightarrow> Ob_error \<notin> set bb \<Longrightarrow> length (concat (map bucket_data bb)) < 2 ^ 64 \<Longrightarrow>
    wenv_live E (length (concat (map bucket_data bb))) \<Longrightarrow>
    \<exists>rv s'. filter_buckets W E hs rst bb s = Done (rv, s') \<and> streamed s (concat (map bucket_data bb)) (rv, s') \<and>
      (rv = APR_SUCCESS \<and> set bb - {Ob_metadata} \<noteq> {} \<longrightarrow> response_submitted (st_of (wk_rs s')))"
proof (induction bb arbitrary: s)
  case Nil
  then show ?case by (simp add: streamed_def)
next
  case (Cons b bb)
  have go: "\<exists>rv s'. filter_buckets W E hs rst bb s1 = Done (rv, s') \<and> streamed s (bucket_data b @ concat (map bucket_data bb)) (rv, s') \<and>
      (rv = APR_SUCCESS \<and> (set bb - {Ob_metadata} \<noteq> {} \<or> response_submitted (st_of (wk_rs s1))) \<longrightarrow>
        response_submitted (st_of (wk_rs s')))"
    if s1: "streamed s (bucket_data b) (APR_SUCCESS, s1)" for s1
  proof -
    have "wk_ok s1" "streaming (wk_ctx s1)" using s1 Cons.prems(2) by (simp_all add: streamed_def)
    moreover have "wenv_live E (length (concat (map bucket_data bb)))" by (rule wenv_live_mono [OF Cons.prems(5)]) simp
    ultimately obtain rv s' where "filter_buckets W E hs rst bb s1 = Done (rv, s')" "streamed s1 (concat (map bucket_data bb)) (rv, s')"
        "rv = APR_SUCCESS \<and> set bb - {Ob_metadata} \<noteq> {} \<longrightarrow> response_submitted (st_of (wk_rs s'))"
      using Cons.IH [of s1] Cons.prems(3,4) by auto
    then show ?thesis using streamed_trans [OF s1, of "concat (map bucket_data bb)" "(rv, s')"] by (auto simp: streamed_def)
  qed
  have start: "\<exists>rv s1. wk_response_start W E hs rst t = (rv, s1) \<and> streamed t [] (rv, s1) \<and>
      (rv = APR_SUCCESS \<longrightarrow> response_submitted (st_of (wk_rs s1)))" if "wk_ok t" for t
    using start_streamed [OF E that] by (metis surj_pair)
  show ?case
  proof (cases b)
    case Ob_error
    then show ?thesis using Cons.prems(3) by simp
  next
    case (Ob_response resp)
    define t where "t = s\<lparr>wk_ctx := (wk_ctx s)\<lparr>cx_resp := Some resp\<rparr>\<rparr>"
    have "wk_ok t" "streaming (wk_ctx t)" using Cons.prems(1,2) by (simp_all add: t_def wk_ok_def)
    then obtain rv s1 where r: "wk_response_start W E hs rst t = (rv, s1)" "streamed s [] (rv, s1)"
        "rv = APR_SUCCESS \<longrightarrow> response_submitted (st_of (wk_rs s1))"
      using start [of t] by (auto simp: t_def streamed_resp_upd)
    show ?thesis
    proof (cases "rv = APR_SUCCESS")
      case True
      with go [of s1] r Ob_response \<open>streaming (wk_ctx t)\<close> show ?thesis by (auto simp: t_def Let_def)
    next
      case False
      with streamed_stop [OF False r(2)] r(1) Ob_response \<open>streaming (wk_ctx t)\<close> show ?thesis by (auto simp: t_def Let_def)
    qed
  next
    case (Ob_data x)
    have len: "length (bucket_payload x) < 2 ^ 64" using Cons.prems(4) Ob_data by simp
    have live: "wenv_live E (length (bucket_payload x))" by (rule wenv_live_mono [OF Cons.prems(5)]) (simp add: Ob_data)
    from stream_bucket_streamed [OF E Cons.prems(1) len live] obtain rv s1 where
      r: "stream_bucket W E hs rst x s = Done (rv, s1)" "streamed s (bucket_payload x) (rv, s1)"
        "rv = APR_SUCCESS \<longrightarrow> response_submitted (st_of (wk_rs s1))" by blast
    show ?thesis
    proof (cases "rv = APR_SUCCESS")
      case True
      with go [of s1] r Ob_data Cons.prems(2) show ?thesis by auto
    next
      case False
      with streamed_stop [OF False r(2)] r(1) Ob_data Cons.prems(2) show ?thesis by auto
    qed
  next
    case Ob_metadata
    have "streamed s [] (APR_SUCCESS, s)" using Cons.prems(1) by (simp add: streamed_def)
    with go [of s] Ob_metadata show ?thesis by auto
  next
    case Ob_flush
    from start [OF Cons.prems(1)] obtain rv s1 where r: "wk_response_start W E hs rst s = (rv, s1)" "streamed s [] (rv, s1)"
        "rv = APR_SUCCESS \<longrightarrow> response_submitted (st_of (wk_rs s1))" by blast
    show ?thesis
    proof (cases "rv = APR_SUCCESS")
      case True
      with go [of s1] r Ob_flush Cons.prems(2) show ?thesis by auto
    next
      case False
      with streamed_stop [OF False r(2)] r(1) Ob_flush Cons.prems(2) show ?thesis by auto
    qed
  next
    case Ob_eos
    from start [OF Cons.prems(1)] obtain rv s1 where r: "wk_response_start W E hs rst s = (rv, s1)" "streamed s [] (rv, s1)"
        "rv = APR_SUCCESS \<longrightarrow> response_submitted (st_of (wk_rs s1))" by blast
    show ?thesis
    proof (cases "rv = APR_SUCCESS")
      case True
      have ok1: "wk_ok s1" using r(2) by (simp add: streamed_def)
      note c = wk_complete_ok [OF E ok1]
      have "streamed s [] (APR_SUCCESS, wk_complete E s1)"
        using streamed_trans [OF r(2) [unfolded True] complete_streamed [OF E ok1]] by simp
      moreover have "response_submitted (st_of (wk_rs (wk_complete E s1)))" using c(4) r(3) True by (simp add: worker_part_def)
      ultimately show ?thesis using go [of "wk_complete E s1"] r True Ob_eos Cons.prems(2) by auto
    next
      case False
      with streamed_stop [OF False r(2)] r(1) Ob_eos Cons.prems(2) show ?thesis by auto
    qed
  qed
qed


section \<open>The whole request\<close>

text \<open>The state of a body being collected, against the bytes handed over so far.\<close>

definition cap_inv :: "size_t \<Rightarrow> h3_conn_ctx_t \<Rightarrow> byte list \<Rightarrow> bool" where
  "cap_inv limit ctx log \<longleftrightarrow> ctx_wf ctx \<and> dataheaplen ctx \<le> limit \<and>
     (if response_too_large ctx then unat limit < length log
      else captured ctx = log \<and> unat (dataheaplen ctx) = length log)"

definition conf_limit :: "h3_server_conf option \<Rightarrow> size_t" where
  "conf_limit conf = (case conf of None \<Rightarrow> H3_MAX_RESPONSE_BODY_SIZE_DEFAULT | Some c \<Rightarrow> h3_max_response_body_size c)"

lemma capture_bucket_inv:
  assumes law: "palloc_law (wl_palloc W)" and lim: "unat (conf_limit (wl_conf W)) \<le> 2 ^ 62"
    and inv: "cap_inv (conf_limit (wl_conf W)) (wk_ctx s) log" and d: "length (bucket_payload b) < 2 ^ 63"
  shows "\<exists>ctx. capture_bucket W b s = Done (APR_SUCCESS, s\<lparr>wk_ctx := ctx\<rparr>) \<and> streaming ctx = streaming (wk_ctx s) \<and>
    cap_inv (conf_limit (wl_conf W)) ctx (log @ bucket_payload b)"
proof (cases "response_too_large (wk_ctx s)")
  case True
  then show ?thesis using inv by (intro exI [of _ "wk_ctx s"]) (simp add: capture_bucket_def capture_body_bucket_def cap_inv_def)
next
  case False
  let ?l = "conf_limit (wl_conf W)"
  have i: "ctx_wf (wk_ctx s)" "unat (dataheaplen (wk_ctx s)) \<le> unat ?l" "captured (wk_ctx s) = log"
      "unat (dataheaplen (wk_ctx s)) = length log"
    using inv False by (simp_all add: cap_inv_def word_le_nat_alt)
  from capture_step [OF i(1) law lim i(2) conf_limit_def d False] obtain ctx where
    c: "capture_body_bucket (wl_palloc W) (wl_conf W) b (wk_ctx s) = Some (APR_SUCCESS, ctx)" "ctx_wf ctx"
      "unat (dataheaplen ctx) \<le> unat ?l" "streaming ctx = streaming (wk_ctx s)"
      "if unat (dataheaplen (wk_ctx s)) + length (bucket_payload b) \<le> unat ?l
       then captured ctx = captured (wk_ctx s) @ bucket_payload b \<and> \<not> response_too_large ctx \<and>
         unat (dataheaplen ctx) = unat (dataheaplen (wk_ctx s)) + length (bucket_payload b)
       else response_too_large ctx" by blast
  then have "cap_inv ?l ctx (log @ bucket_payload b)" using i by (auto simp: cap_inv_def word_le_nat_alt split: if_splits)
  then show ?thesis using c(1,4) by (intro exI [of _ ctx]) (simp add: capture_bucket_def)
qed

lemma filter_buckets_buffered:
  assumes law: "palloc_law (wl_palloc W)" and lim: "unat (conf_limit (wl_conf W)) \<le> 2 ^ 62"
  shows "cap_inv (conf_limit (wl_conf W)) (wk_ctx s) log \<Longrightarrow> \<not> streaming (wk_ctx s) \<Longrightarrow> Ob_error \<notin> set bb \<Longrightarrow>
    length (concat (map bucket_data bb)) < 2 ^ 63 \<Longrightarrow>
    \<exists>ctx. filter_buckets W E hs rst bb s = Done (APR_SUCCESS, s\<lparr>wk_ctx := ctx\<rparr>) \<and> \<not> streaming ctx \<and>
      cap_inv (conf_limit (wl_conf W)) ctx (log @ concat (map bucket_data bb))"
proof (induction bb arbitrary: s log)
  case Nil
  then show ?case by (intro exI [of _ "wk_ctx s"]) simp
next
  case (Cons b bb)
  have len: "length (concat (map bucket_data bb)) < 2 ^ 63" using Cons.prems(4) by simp
  show ?case
  proof (cases b)
    case (Ob_response resp)
    let ?c = "(wk_ctx s)\<lparr>cx_resp := Some resp\<rparr>"
    have "captured ?c = captured (wk_ctx s)" by (simp add: captured_def)
    then have "cap_inv (conf_limit (wl_conf W)) ?c log" using Cons.prems(1) by (simp add: cap_inv_def ctx_wf_def)
    then show ?thesis using Cons.IH [of "s\<lparr>wk_ctx := ?c\<rparr>" log] Cons.prems(2,3) len Ob_response by (simp add: Let_def)
  next
    case (Ob_data x)
    then have "length (bucket_payload x) < 2 ^ 63" using Cons.prems(4) by simp
    from capture_bucket_inv [OF law lim Cons.prems(1) this] obtain ctx where
      c: "capture_bucket W x s = Done (APR_SUCCESS, s\<lparr>wk_ctx := ctx\<rparr>)" "streaming ctx = streaming (wk_ctx s)"
        "cap_inv (conf_limit (wl_conf W)) ctx (log @ bucket_payload x)" by blast
    then show ?thesis using Cons.IH [of "s\<lparr>wk_ctx := ctx\<rparr>" "log @ bucket_payload x"] Cons.prems(2,3) len Ob_data by simp
  qed (use Cons.IH [of s log] Cons.prems(1-3) len in simp_all)
qed

text \<open>The input filter on a brigade that already holds buckets.\<close>

lemma serve_prefix:
  "serve_request_body st bb mode n =
   map_option (\<lambda>(rv, st', bb'). (rv, st', bb @ bb')) (serve_request_body st [] mode n)"
  by (simp add: serve_request_body_def Let_def)

lemma serve_part:
  "serve_request_body st bb mode n = Some (rv, st', bb') \<Longrightarrow> \<exists>off. st' = st\<lparr>request_body_offset := off\<rparr>"
proof -
  assume a: "serve_request_body st bb mode n = Some (rv, st', bb')"
  then have "st' = st\<lparr>request_body_offset := request_body_offset st'\<rparr>"
    by (auto simp: serve_request_body_def Let_def split: if_splits)
  then show ?thesis by (rule exI)
qed

text \<open>What a run of the worker relies on: its environment, its memory, and a limit it can hold.\<close>

definition worker_env_ok :: "'ng wlib \<Rightarrow> 'ng wenv \<Rightarrow> nat \<Rightarrow> bool" where
  "worker_env_ok W E n \<longleftrightarrow> wenv_ok E \<and> wenv_live E n \<and> length oversized_msg \<le> n \<and> n < 2 ^ 63 \<and> palloc_law (wl_palloc W) \<and>
     (\<not> streaming (fresh_ctx (wl_conf W)) \<longrightarrow> unat (conf_limit (wl_conf W)) \<le> 2 ^ 62 \<and> unat (conf_limit (wl_conf W)) \<le> n)"

text \<open>
  What httpd may do: read in blocks that fit \<^verbatim>\<open>apr_off_t\<close>, send no error bucket and no more than
  \<open>n\<close> bytes at once, and no more data after the filter has reported an error.
\<close>

fun httpd_allowed :: "nat \<Rightarrow> httpd_call \<Rightarrow> 'ng wrun \<Rightarrow> bool" where
  "httpd_allowed n (Out_bb ours hs rst bb) (Done (s, log, acc)) =
    (ours \<longrightarrow> Ob_error \<notin> set bb \<and> length (concat (map bucket_data bb)) \<le> n \<and> (acc \<or> concat (map bucket_data bb) = []))"
| "httpd_allowed n (In_bb bb mode k) r = (k < 2 ^ 63)"
| "httpd_allowed n q r = True"

definition reply_inv :: "'ng wlib \<Rightarrow> 'ng wk \<Rightarrow> byte list \<Rightarrow> bool \<Rightarrow> bool" where
  "reply_inv W s log acc \<longleftrightarrow> wk_ok s \<and> servable (st_of (wk_rs s)) \<and>
     streaming (wk_ctx s) = streaming (fresh_ctx (wl_conf W)) \<and>
     (if streaming (wk_ctx s)
      then \<not> response_too_large (wk_ctx s) \<and> (\<exists>rest. sent_body s @ rest = log \<and> (acc \<longrightarrow> rest = []))
      else wk_effs s = [] \<and> cap_inv (conf_limit (wl_conf W)) (wk_ctx s) log)"

definition wrun_inv :: "'ng wlib \<Rightarrow> 'ng wenv \<Rightarrow> nat \<Rightarrow> 'ng wrun \<Rightarrow> bool" where
  "wrun_inv W E n r \<longleftrightarrow> (worker_env_ok W E n \<longrightarrow> (\<exists>s log acc. r = Done (s, log, acc) \<and> reply_inv W s log acc))"

lemma out_step_inv:
  assumes env: "worker_env_ok W E n" and inv: "reply_inv W s log acc"
    and ok: "Ob_error \<notin> set bb" "length (concat (map bucket_data bb)) \<le> n" "acc \<or> concat (map bucket_data bb) = []"
  shows "\<exists>rv s'. filter_buckets W E hs rst bb s = Done (rv, s') \<and>
    reply_inv W s' (log @ concat (map bucket_data bb)) (acc \<and> rv = APR_SUCCESS)"
proof (cases "streaming (wk_ctx s)")
  case True
  have E: "wenv_ok E" and live: "wenv_live E (length (concat (map bucket_data bb)))" and len: "length (concat (map bucket_data bb)) < 2 ^ 64"
    using env ok(2) wenv_live_mono [of E n] by (simp_all add: worker_env_ok_def)
  have i: "wk_ok s" "servable (st_of (wk_rs s))" "\<not> response_too_large (wk_ctx s)"
      "\<exists>rest. sent_body s @ rest = log \<and> (acc \<longrightarrow> rest = [])" "streaming (fresh_ctx (wl_conf W))"
    using inv True by (auto simp: reply_inv_def)
  from filter_buckets_streamed [OF E i(1) True ok(1) len live, of W hs rst] obtain rv s' where
    r: "filter_buckets W E hs rst bb s = Done (rv, s')" "streamed s (concat (map bucket_data bb)) (rv, s')" by blast
  have k: "wk_ok s'" "streaming (wk_ctx s')" "\<not> response_too_large (wk_ctx s')"
    using r(2) True i(3) by (simp_all add: streamed_def)
  have p: "worker_part (st_of (wk_rs s')\<lparr>response_submitted := True\<rparr>) = worker_part (st_of (wk_rs s)\<lparr>response_submitted := True\<rparr>)"
    using r(2) by (simp add: streamed_def)
  obtain rest where rest: "sent_body s' @ rest = sent_body s @ concat (map bucket_data bb)" "rv = APR_SUCCESS \<longrightarrow> rest = []"
    using r(2) unfolding streamed_def prod.case by (elim conjE exE) (rule that)
  have sv: "servable (st_of (wk_rs s'))" using p i(2) by (simp add: servable_def worker_part_def)
  have "\<exists>rest. sent_body s' @ rest = log @ concat (map bucket_data bb) \<and> (acc \<and> rv = APR_SUCCESS \<longrightarrow> rest = [])"
  proof (cases acc)
    case True
    then show ?thesis using i(4) rest by auto
  next
    case False
    then obtain r2 where r2: "sent_body s @ r2 = log" and e: "concat (map bucket_data bb) = []" using i(4) ok(3) by blast
    have "sent_body s' @ rest @ r2 = log" using rest(1) r2 unfolding e by (metis append.assoc append_Nil2)
    then show ?thesis using False unfolding e by auto
  qed
  then show ?thesis using r(1) k sv i(5) by (auto simp: reply_inv_def)
next
  case False
  have i: "cap_inv (conf_limit (wl_conf W)) (wk_ctx s) log" "palloc_law (wl_palloc W)" "unat (conf_limit (wl_conf W)) \<le> 2 ^ 62"
      "length (concat (map bucket_data bb)) < 2 ^ 63"
    using env inv False ok(2) by (auto simp: reply_inv_def worker_env_ok_def)
  from filter_buckets_buffered [OF i(2,3,1) False ok(1) i(4), of E hs rst] obtain ctx where
    "filter_buckets W E hs rst bb s = Done (APR_SUCCESS, s\<lparr>wk_ctx := ctx\<rparr>)" "\<not> streaming ctx"
    "cap_inv (conf_limit (wl_conf W)) ctx (log @ concat (map bucket_data bb))" by blast
  then show ?thesis using inv False by (auto simp: reply_inv_def wk_ok_def)
qed

lemma in_step_inv:
  assumes inv: "reply_inv W s log acc" and n: "k < 2 ^ 63"
  shows "\<exists>a s'. httpd_step W E (In_bb bb mode k) (Done (s, log, acc)) = (a, Done (s', log, acc)) \<and> reply_inv W s' log acc"
proof -
  obtain h st se where rs: "wk_rs s = (h, st, se)" by (metis prod_cases3)
  have "servable st" using inv rs by (simp add: reply_inv_def)
  from serve_step [OF this n, of mode] obtain st' bb' where
    r: "serve_request_body st [] mode k = Some (APR_SUCCESS, st', bb')" and sv: "servable st'" by metis
  from serve_part [OF r] obtain off where st': "st' = st\<lparr>request_body_offset := off\<rparr>" by blast
  have "resp_ok (h, st', se) = resp_ok (h, st, se)" by (simp add: st' resp_ok_def resp_rep_def)
  then have "reply_inv W (s\<lparr>wk_rs := (h, st', se)\<rparr>) log acc"
    using inv rs sv by (simp add: reply_inv_def wk_ok_def st')
  then show ?thesis using r rs by (simp add: h3_filter_in_proto_def serve_prefix [of st bb])
qed

interpretation wkr: callback_contract "httpd_step W E" "httpd_allowed n" "wrun_inv W E n" for W E n
proof (unfold_locales, goal_cases)
  case (1 r q)
  show ?case
  proof (cases "worker_env_ok W E n")
    case False
    then show ?thesis by (simp add: wrun_inv_def)
  next
    case True
    with 1(1) obtain s log acc where r: "r = Done (s, log, acc)" and i: "reply_inv W s log acc" by (auto simp: wrun_inv_def)
    show ?thesis
    proof (cases q)
      case (In_bb bb mode k)
      with in_step_inv [OF i, of k E bb mode] 1(2) r show ?thesis by (auto simp: wrun_inv_def)
    next
      case (Out_bb ours hs rst bb)
      show ?thesis
      proof (cases ours)
        case False
        then show ?thesis using r i Out_bb by (simp add: wrun_inv_def h3_filter_out_proto_def)
      next
        case o: True
        with out_step_inv [OF True i, of bb hs rst] 1(2) r Out_bb show ?thesis
          by (auto simp: wrun_inv_def h3_filter_out_proto_def)
      qed
    qed
  qed
qed


lemma run_httpd_inv:
  assumes env: "worker_env_ok W E n" and ok: "wk_ok s" and e: "wk_effs s = []" and sv: "servable (st_of (wk_rs s))"
    and b: "behaves (httpd_step W E) (httpd_allowed n)
      (hp_process H (worker_request (wl_apr W) H (st_of (wk_rs s))) (worker_die H (worker_request (wl_apr W) H (st_of (wk_rs s))) (st_of (wk_rs s))))
      (Done (s\<lparr>wk_ctx := fresh_ctx (wl_conf W)\<rparr>, [], True))"
  shows "\<exists>out s1 log acc. run_httpd W E H s = (out, Done (s1, log, acc)) \<and> reply_inv W s1 log acc"
proof -
  have "cap_inv l (fresh_ctx (wl_conf W)) []" for l
    by (simp add: cap_inv_def fresh_ctx_def zero_ctx_def ctx_wf_def captured_def)
  moreover have "\<not> response_too_large (fresh_ctx (wl_conf W))" by (simp add: fresh_ctx_def zero_ctx_def)
  ultimately have "wrun_inv W E n (Done (s\<lparr>wk_ctx := fresh_ctx (wl_conf W)\<rparr>, [], True))"
    using ok e sv by (auto simp: wrun_inv_def reply_inv_def wk_ok_def)
  from wkr.run_inv [OF this b] env show ?thesis
    by (auto simp: wrun_inv_def run_httpd_def Let_def prod_eq_iff)
qed

text \<open>What is sent in the end: the start of the response, then \<open>body\<close>.\<close>

lemma submit_then_append:
  assumes env: "worker_env_ok W E n" and ok: "wk_ok s" and len: "length body \<le> n"
    and st: "wk_submit W E nva s = (rv, s1)"
  shows "\<exists>rv' s2 rest. (if rv = APR_SUCCESS \<and> body \<noteq> [] then wk_append E body s1 else Done (rv, s1)) = Done (rv', s2) \<and> wk_ok s2 \<and>
    sent_body s2 @ rest = sent_body s @ body \<and> (rv' = APR_SUCCESS \<longrightarrow> rest = [] \<and> response_submitted (st_of (wk_rs s2))) \<and>
    (\<not> response_submitted (st_of (wk_rs s)) \<and> rv' = APR_SUCCESS \<longrightarrow> submissions (wk_effs s2) = submissions (wk_effs s) @ [nva])"
proof -
  have E: "wenv_ok E" and l: "wenv_live E (length body)" "length body < 2 ^ 64"
    using env len wenv_live_mono [of E n] by (simp_all add: worker_env_ok_def)
  note a = wk_submit_ok [OF E ok st]
  show ?thesis
  proof (cases "rv = APR_SUCCESS \<and> body \<noteq> []")
    case False
    then show ?thesis using a(1,2,4,7) by (auto intro!: exI [of _ "if rv = APR_SUCCESS then [] else body"])
  next
    case True
    then have sub: "response_submitted (st_of (wk_rs s1))" using a(4) by simp
    note p = wk_append_ok [OF E a(1) sub l(2)]
    from p(3) [OF l(1)] obtain rv' s2 where r: "wk_append E body s1 = Done (rv', s2)" by blast
    then have q: "wk_ok s2" "worker_part (st_of (wk_rs s2)) = worker_part (st_of (wk_rs s1))"
        "submissions (wk_effs s2) = submissions (wk_effs s1)"
        "\<exists>rest. sent_body s2 @ rest = sent_body s @ body \<and> (rv' = APR_SUCCESS \<longrightarrow> rest = [])"
      using p(2) [OF r] a(2) by auto
    have "response_submitted (st_of (wk_rs s2))" using q(2) sub by (simp add: worker_part_def)
    then show ?thesis using True r q(1,3,4) a(7) by auto
  qed
qed

lemma worker_reply_result:
  assumes env: "worker_env_ok W E n" and inv: "reply_inv W s log acc"
  shows "\<exists>rv s2 rest. worker_reply W E hs rst s = Done (rv, s2) \<and> wk_ok s2 \<and>
    sent_body s2 @ rest = (if response_too_large (wk_ctx s) then oversized_msg else log) \<and>
    (rv = APR_SUCCESS \<and> acc \<longrightarrow> rest = []) \<and> (rv = APR_SUCCESS \<longrightarrow> length (submissions (wk_effs s2)) = 1) \<and>
    (rv = APR_SUCCESS \<and> response_too_large (wk_ctx s) \<longrightarrow> submissions (wk_effs s2) = [oversized_nva])"
proof -
  let ?big = "response_too_large (wk_ctx s)"
  let ?nva = "if ?big then oversized_nva else build_response_nva (wl_apr W) 64 (cx_resp (wk_ctx (wk_sync E s))) hs rst"
  let ?body = "if ?big then oversized_msg else if \<not> streaming (wk_ctx s) \<and> dataheaplen (wk_ctx s) > 0 then captured (wk_ctx s) else []"
  have ok: "wk_ok s" using inv by (simp add: reply_inv_def)
  obtain rv s1 where st: "wk_submit W E ?nva s = (rv, s1)" by fastforce
  have unf: "worker_reply W E hs rst s = (if rv = APR_SUCCESS \<and> ?body \<noteq> [] then wk_append E ?body s1 else Done (rv, s1))"
    using st by (cases ?big) (auto simp: worker_reply_def Let_def response_start_submit captured_def)
  have i: "if streaming (wk_ctx s) then \<not> ?big \<and> (\<exists>rest. sent_body s @ rest = log \<and> (acc \<longrightarrow> rest = []))
      else wk_effs s = [] \<and> cap_inv (conf_limit (wl_conf W)) (wk_ctx s) log"
      "streaming (wk_ctx s) = streaming (fresh_ctx (wl_conf W))" using inv by (simp_all add: reply_inv_def)
  have big: "?big \<Longrightarrow> wk_effs s = []" using i(1) by (simp split: if_splits)
  have nsub: "\<not> response_submitted (st_of (wk_rs s))" if "wk_effs s = []" using ok that by (auto simp: wk_ok_def split: if_splits)
  have body: "\<exists>rest. sent_body s @ ?body @ rest = (if ?big then oversized_msg else log) \<and> (acc \<longrightarrow> rest = [])"
  proof (cases "streaming (wk_ctx s)")
    case True
    then show ?thesis using i(1) by simp
  next
    case False
    then have "captured (wk_ctx s) = log \<and> unat (dataheaplen (wk_ctx s)) = length log" if "\<not> ?big"
      using i(1) that by (simp add: cap_inv_def)
    moreover have "dataheaplen (wk_ctx s) > 0 \<longleftrightarrow> unat (dataheaplen (wk_ctx s)) \<noteq> 0" by (simp add: word_gt_0 unat_eq_0)
    ultimately show ?thesis using False i(1) by (auto split: if_splits)
  qed
  have "length ?body \<le> n"
  proof (cases "streaming (wk_ctx s) \<or> ?big")
    case True
    then show ?thesis using env by (auto simp: worker_env_ok_def)
  next
    case False
    then have "dataheaplen (wk_ctx s) \<le> conf_limit (wl_conf W)" "unat (conf_limit (wl_conf W)) \<le> n"
      using i env by (simp_all add: cap_inv_def worker_env_ok_def)
    then show ?thesis using False by (auto simp: captured_def word_le_nat_alt min_def)
  qed
  from submit_then_append [OF env ok this st] obtain rv' s2 rest where
    r: "(if rv = APR_SUCCESS \<and> ?body \<noteq> [] then wk_append E ?body s1 else Done (rv, s1)) = Done (rv', s2)" "wk_ok s2"
      "sent_body s2 @ rest = sent_body s @ ?body" "rv' = APR_SUCCESS \<longrightarrow> rest = [] \<and> response_submitted (st_of (wk_rs s2))"
      "\<not> response_submitted (st_of (wk_rs s)) \<and> rv' = APR_SUCCESS \<longrightarrow> submissions (wk_effs s2) = submissions (wk_effs s) @ [?nva]"
    by blast
  from body obtain r2 where r2: "sent_body s @ ?body @ r2 = (if ?big then oversized_msg else log)" "acc \<longrightarrow> r2 = []" by blast
  have "sent_body s2 @ rest @ r2 = (if ?big then oversized_msg else log)" using r(3) r2(1) by (metis append.assoc)
  moreover have "rv' = APR_SUCCESS \<longrightarrow> length (submissions (wk_effs s2)) = 1" using r(2,4) by (simp add: wk_ok_def)
  moreover have "rv' = APR_SUCCESS \<and> ?big \<longrightarrow> submissions (wk_effs s2) = [oversized_nva]" using r(5) big nsub by auto
  ultimately show ?thesis using unf r(1,2,4) r2(2) by (intro exI [of _ rv'] exI [of _ s2] exI [of _ "rest @ r2"]) simp
qed

lemma finish_ok:
  assumes E: "wenv_ok E" and ok: "wk_ok s"
  defines "s' \<equiv> task_left (set_worker_done E (wk_complete E s))"
  shows "wk_ok s'" and "submissions (wk_effs s') = submissions (wk_effs s)" and "sent_body s' = sent_body s"
    and "response_complete (st_of (wk_rs s'))" and "worker_done (st_of (wk_rs s'))"
proof -
  note c = wk_complete_ok [OF E ok]
  note y = wk_sync_ok [OF E c(1)]
  obtain h st se where rs: "wk_rs (wk_sync E (wk_complete E s)) = (h, st, se)" by (metis prod_cases3)
  obtain ng' rs' where sy: "we_sync E (wk_ops (wk_complete E s)) (wk_ng (wk_complete E s), wk_rs (wk_complete E s)) = (ng', rs')" by (metis surj_pair)
  have "resp_ok (wk_rs (wk_complete E s))" using c(1) by (simp add: wk_ok_def)
  then have "response_complete (st_of (wk_rs (wk_complete E s))) \<longrightarrow> response_complete (st_of rs')"
    using E sy unfolding wenv_ok_def by blast
  then have rc: "response_complete st" using c(5) rs sy by (simp add: wk_sync_def)
  have ro: "resp_ok (h, st\<lparr>worker_done := True\<rparr>, se\<lparr>active_tasks := t\<rparr>) = resp_ok (h, st, se)" for t
    by (simp add: resp_ok_def resp_rep_def)
  have s': "s' = (wk_sync E (wk_complete E s))\<lparr>wk_rs := (h, st\<lparr>worker_done := True\<rparr>, se\<lparr>active_tasks := active_tasks se - 1\<rparr>)\<rparr>"
    using rs by (simp add: s'_def task_left_def set_worker_done_def Let_def)
  show "wk_ok s'" using y(1) rs ro by (simp add: s' wk_ok_def)
  show "submissions (wk_effs s') = submissions (wk_effs s)" "sent_body s' = sent_body s" using y(2) c(3,6) by (simp_all add: s')
  show "response_complete (st_of (wk_rs s'))" "worker_done (st_of (wk_rs s'))" using rc by (simp_all add: s')
qed

lemma reply_inv_big:
  "reply_inv W s log acc \<Longrightarrow> response_too_large (wk_ctx s) \<longleftrightarrow>
     \<not> streaming (fresh_ctx (wl_conf W)) \<and> unat (conf_limit (wl_conf W)) < length log"
  by (auto simp: reply_inv_def cap_inv_def word_le_nat_alt split: if_splits)


text \<open>An event thread that cancels the stream when the worker would have to wait.\<close>

definition wit_room :: "nat \<Rightarrow> resp_state \<Rightarrow> resp_state" where
  "wit_room k s = (case s of (h, st, se) \<Rightarrow> if response_must_wait se st then (h, fst (h3_stream_response_cancel_locked st), se) else s)"

definition wit_wenv :: "unit wenv" where
  "wit_wenv = \<lparr>we_sync = (\<lambda>_ s. s), we_env = (\<lambda>_. wit_room), we_wait = (\<lambda>_ _. APR_TIMEUP), we_mal = (\<lambda>_ _. True), we_fuel = (\<lambda>_. 50)\<rparr>"

definition wit_wlib :: "h3_server_conf option \<Rightarrow> unit wlib" where
  "wit_wlib conf = \<lparr>wl_apr = wit_apr, wl_submit = (\<lambda>ng sid nva. (ng, 0)), wl_palloc = (\<lambda>n. replicate (unat n) 0),
     wl_conf = conf, wl_send_error = (\<lambda>s. s)\<rparr>"

definition wit_wk :: "unit wk" where
  "wit_wk = \<lparr>wk_ng = (), wk_rs = ([], wit_stream, wit_session), wk_ctx = fresh_ctx None, wk_effs = [], wk_ops = 0\<rparr>"

lemma wit_wenv_ok: "wenv_ok wit_wenv"
proof -
  have "env_ok wit_room" unfolding env_ok_def wit_room_def resp_ok_def by (auto intro: resp_rep_cancel [THEN iffD2])
  moreover have "worker_part (st_of (wit_room j s)) = worker_part (st_of s)" for j s
    by (cases s) (simp add: wit_room_def worker_part_def h3_stream_response_cancel_locked_def)
  ultimately show ?thesis by (simp add: wenv_ok_def wit_wenv_def)
qed

lemma wit_wenv_live: "n < 50 \<Longrightarrow> wenv_live wit_wenv n"
  by (auto simp: wenv_live_def wit_wenv_def makes_room_def wit_room_def response_must_wait_def h3_stream_response_cancel_locked_def
      intro!: exI [of _ 0])

lemma wit_wk_ok: "wk_ok wit_wk"
  using wit_resp_ok by (simp add: wk_ok_def wit_wk_def wit_stream_def zero_stream_def)


definition wit_httpd :: httpd_ops where
  "wit_httpd = \<lparr>hp_method_is_get = (\<lambda>m. m = ''GET''), hp_unparsed_uri = (\<lambda>p. p), hp_vhost_status = (\<lambda>_. HTTP_OK),
     hp_process = (\<lambda>r err. Vis (In_bb [] AP_MODE_READBYTES 10)
       (\<lambda>_. Vis (Out_bb True None 200 [Ob_data (APR_SUCCESS, Some [1, 2]), Ob_eos]) (\<lambda>_. Ret (None, 200))))\<rparr>"


end
