(* ===== verification/H3_Hooks.thy ===== *)
theory H3_Hooks
  imports H3_Reply
begin

text \<open>
  The hooks of \<^verbatim>\<open>src/h3_hooks.c\<close>: what httpd asks the module about a request, and what the
  module adds to it. A request is a record of the fields the hooks read and write. APR's
  tables are the functions of \<open>apr_ops\<close>; what is relied on of them is \<open>table_law\<close>.
\<close>

section \<open>Operations\<close>

datatype h3_filter = H3_NET_IN | H3_NET_OUT | H3_NET_IN_PROTO | H3_NET_OUT_PROTO

text \<open>
  \<open>rq_initial\<close> is the answer of \<^verbatim>\<open>ap_is_initial_req\<close>; \<open>rq_stream\<close> is the stream of the module's
  request context, if there is one. The filter chains of the connection and of the request
  list the handles added, the latest first.
\<close>

record request_rec =
  rq_notes :: table
  rq_main :: bool
  rq_initial :: bool
  rq_conf :: "h3_server_conf option"
  rq_stream :: "h3_stream option"
  rq_env :: table
  rq_headers_out :: table
  rq_protocol :: string
  rq_proto_num :: int
  rq_handler :: string
  rq_is_get :: bool
  rq_in_filters :: "h3_filter list"
  rq_conn_in_filters :: "h3_filter list"
  rq_conn_out_filters :: "h3_filter list"
  rq_out_filters :: "h3_filter list"
  rq_proto_out_filters :: "h3_filter list"

definition IS_H3_CONN :: "apr_ops \<Rightarrow> table \<Rightarrow> bool" where
  "IS_H3_CONN A notes \<longleftrightarrow> apr_table_get A notes ''IS_mod_http3'' \<noteq> None"

definition IS_H3_REQUEST :: "apr_ops \<Rightarrow> request_rec \<Rightarrow> bool" where
  "IS_H3_REQUEST A r \<longleftrightarrow> IS_H3_CONN A (rq_notes r)"

definition h3_hook_http_scheme :: "apr_ops \<Rightarrow> request_rec \<Rightarrow> string option" where
  "h3_hook_http_scheme A r = (if IS_H3_REQUEST A r then Some ''https'' else None)"

definition APR_URI_HTTPS_DEFAULT_PORT :: apr_port_t where "APR_URI_HTTPS_DEFAULT_PORT = 443"

definition h3_hook_default_port :: "apr_ops \<Rightarrow> request_rec \<Rightarrow> apr_port_t" where
  "h3_hook_default_port A r = (if IS_H3_REQUEST A r then APR_URI_HTTPS_DEFAULT_PORT else 0)"

definition h3_hook_ssl_conn_is_ssl :: "apr_ops \<Rightarrow> table \<Rightarrow> int" where
  "h3_hook_ssl_conn_is_ssl A notes = (if IS_H3_CONN A notes then OK else DECLINED)"

definition alt_svc_value :: "h3_server_conf \<Rightarrow> string" where
  "alt_svc_value conf = ''h3=\":'' @ print_dec (unat (h3_port conf)) @ ''\"; ma='' @
     print_dec (unat (h3_alt_svc_max_age conf)) @ ''; persist=1''"

definition h3_hook_fixups :: "apr_ops \<Rightarrow> request_rec \<Rightarrow> int \<times> request_rec" where
  "h3_hook_fixups A r =
    (if \<not> rq_initial r then (DECLINED, r)
     else (let r1 = (if IS_H3_REQUEST A r then r\<lparr>rq_env := apr_table_setn A (rq_env r) ''HTTPS'' ''on''\<rparr> else r) in
       case rq_conf r1 of
         None \<Rightarrow> (DECLINED, r1)
       | Some conf \<Rightarrow>
         if h3_cert_path conf = None \<or> h3_key_path conf = None \<or> h3_port conf = 0 then (DECLINED, r1)
         else if h3_alt_svc conf = H3_FLAG_OFF then (DECLINED, r1)
         else if apr_table_get A (rq_headers_out r1) ''Alt-Svc'' \<noteq> None then (DECLINED, r1)
         else (OK, r1\<lparr>rq_headers_out := apr_table_setn A (rq_headers_out r1) ''Alt-Svc'' (alt_svc_value conf)\<rparr>)))"

text \<open>\<^verbatim>\<open>HTTP_VERSION(3, 0)\<close> is 3000.\<close>

definition h3_hook_post_read_request :: "apr_ops \<Rightarrow> request_rec \<Rightarrow> int \<times> request_rec" where
  "h3_hook_post_read_request A r =
    (if \<not> IS_H3_REQUEST A r then (DECLINED, r)
     else (OK, r\<lparr>rq_protocol := ''HTTP/3.0'', rq_proto_num := 3 * 1000 + 0\<rparr>))"

definition h3_hook_pre_read_request :: "request_rec \<Rightarrow> request_rec" where
  "h3_hook_pre_read_request r = r"

definition h3_hook_access_checker :: "apr_ops \<Rightarrow> request_rec \<Rightarrow> int" where
  "h3_hook_access_checker A r =
    (if \<not> IS_H3_REQUEST A r then DECLINED
     else (case rq_stream r of
             None \<Rightarrow> OK
           | Some st \<Rightarrow>
             if request_body_overflow st then HTTP_REQUEST_ENTITY_TOO_LARGE
             else if body_truncated st then HTTP_BAD_REQUEST
             else OK))"

definition h3_hook_http_create_request :: "apr_ops \<Rightarrow> request_rec \<Rightarrow> int \<times> request_rec" where
  "h3_hook_http_create_request A r =
    (if \<not> IS_H3_REQUEST A r \<or> rq_main r then (DECLINED, r)
     else (let r1 = r\<lparr>rq_in_filters := H3_NET_IN_PROTO # rq_in_filters r,
                      rq_conn_in_filters := H3_NET_IN # rq_conn_in_filters r,
                      rq_conn_out_filters := H3_NET_OUT # rq_conn_out_filters r\<rparr>
           in (OK, r1\<lparr>rq_out_filters := rq_conn_out_filters r1, rq_proto_out_filters := rq_conn_out_filters r1\<rparr>)))"

text \<open>The counters of the child, as they are read by the status page.\<close>

record h3_counters =
  ct_live :: uint32_t
  ct_connections :: uint32_t
  ct_streams :: uint32_t
  ct_bytes_in :: uint64_t
  ct_bytes_out :: uint64_t

definition json_field :: "string \<Rightarrow> string \<Rightarrow> string" where
  "json_field name value = ''  \"'' @ name @ ''\": '' @ value"

definition status_text :: "h3_counters option \<Rightarrow> string" where
  "status_text c = (case c of
     None \<Rightarrow> ''{\"error\": \"HTTP/3 not enabled or initialized on this child process\"}\<newline>''
   | Some c \<Rightarrow> ''{\<newline>'' @
       json_field ''live_workers'' (print_dec (unat (ct_live c))) @ '',\<newline>'' @
       json_field ''total_connections'' (print_dec (unat (ct_connections c))) @ '',\<newline>'' @
       json_field ''total_streams'' (print_dec (unat (ct_streams c))) @ '',\<newline>'' @
       json_field ''total_bytes_read'' (print_dec (unat (ct_bytes_in c))) @ '',\<newline>'' @
       json_field ''total_bytes_written'' (print_dec (unat (ct_bytes_out c))) @ ''\<newline>}\<newline>'')"

text \<open>The content type and the body the handler writes, when it does not decline.\<close>

definition h3_status_handler :: "h3_counters option \<Rightarrow> request_rec \<Rightarrow> int \<times> (string \<times> string) option" where
  "h3_status_handler c r =
    (if rq_handler r \<noteq> ''http3-status'' then (DECLINED, None)
     else if \<not> rq_is_get r then (DECLINED, None)
     else (OK, Some (''application/json'', status_text c)))"

section \<open>Correctness\<close>

text \<open>What is relied on of APR's tables: a key that was set is read back, others are not changed.\<close>

definition table_law :: "apr_ops \<Rightarrow> bool" where
  "table_law A \<longleftrightarrow> (\<forall>k. ap_cstr_caseeq A k k) \<and>
     (\<forall>t k v k'. apr_table_get A (apr_table_setn A t k v) k' = (if ap_cstr_caseeq A k k' then Some v else apr_table_get A t k'))"

lemma wit_apr_table_law: "table_law wit_apr"
proof -
  have "map_of (filter (\<lambda>e. fst e \<noteq> k) t) k' = map_of t k'" if "k \<noteq> k'" for t :: table and k k'
    using that by (induction t) auto
  then show ?thesis by (auto simp: table_law_def wit_apr_def)
qed

text \<open>Reading a decimal number up to the first other character.\<close>

definition is_dec :: "char \<Rightarrow> bool" where
  "is_dec c \<longleftrightarrow> (48 :: nat) \<le> of_char c \<and> of_char c \<le> (57 :: nat)"

definition scan_dec :: "string \<Rightarrow> nat \<times> string" where
  "scan_dec s = (read_dec 0 (takeWhile is_dec s), dropWhile is_dec s)"

lemma is_dec_digit: "d < 10 \<Longrightarrow> is_dec (digit_char d)"
  by (simp add: is_dec_def of_char_digit)

lemma print_dec_digits: "list_all is_dec (print_dec n)"
proof (induction n rule: print_dec.induct)
  case (1 n)
  then show ?case by (subst print_dec.simps) (simp add: is_dec_digit)
qed

lemma scan_print_dec:
  assumes "s = [] \<or> \<not> is_dec (hd s)"
  shows "scan_dec (print_dec n @ s) = (n, s)"
proof -
  have all: "\<forall>x \<in> set (print_dec n). is_dec x" using print_dec_digits [of n] by (simp add: list_all_iff)
  have "takeWhile is_dec s = []" "dropWhile is_dec s = s" using assms by (cases s; simp)+
  then show ?thesis using all by (simp add: scan_dec_def takeWhile_append2 dropWhile_append2 read_print_dec)
qed

text \<open>What a client reads from an \<^verbatim>\<open>Alt-Svc\<close> value: the port and the maximal age.\<close>

definition read_alt_svc :: "string \<Rightarrow> nat \<times> nat" where
  "read_alt_svc v =
    (case scan_dec (drop 5 v) of (port, rest) \<Rightarrow> (port, fst (scan_dec (drop 6 rest))))"

lemma alt_svc_read: "read_alt_svc (alt_svc_value conf) = (unat (h3_port conf), unat (h3_alt_svc_max_age conf))"
proof -
  have "\<not> is_dec (CHR 0x22)" "\<not> is_dec (CHR '';'')" by (simp_all add: is_dec_def)
  then show ?thesis by (simp add: read_alt_svc_def alt_svc_value_def scan_print_dec)
qed


definition wit_request :: request_rec where
  "wit_request = \<lparr>rq_notes = [(''IS_mod_http3'', ''1'')], rq_main = False, rq_initial = True,
     rq_conf = Some (wit_conf\<lparr>h3_cert_path := Some ''c'', h3_key_path := Some ''k'', h3_port := 443, h3_alt_svc := H3_FLAG_ON,
       h3_alt_svc_max_age := 60\<rparr>),
     rq_stream = None, rq_env = [], rq_headers_out = [(''Server'', ''x'')], rq_protocol = [], rq_proto_num = 0, rq_handler = [],
     rq_is_get = True, rq_in_filters = [], rq_conn_in_filters = [], rq_conn_out_filters = [], rq_out_filters = [],
     rq_proto_out_filters = []\<rparr>"


end
