(* ===== verification/H3_Socket.thy ===== *)
theory H3_Socket
  imports H3_Prelude
begin

text \<open>
  The sockets of \<^verbatim>\<open>src/h3_socket.c\<close> and \<^verbatim>\<open>src/h3_socket_os.c\<close>: opening the UDP listen socket
  and the loopback pair that wakes the event thread. The outcome of every APR call is a field
  of a record. The sockets that are open, and the descriptors that were closed behind APR's
  back, are explicit. The code for POSIX systems is modelled.
\<close>

section \<open>The listen socket\<close>

text \<open>The status of each call in turn, the socket created and its descriptor.\<close>

record open_env =
  ne_sock :: nat
  ne_create :: apr_status
  ne_info_get :: apr_status
  ne_bind :: apr_status
  ne_timeout_set :: apr_status
  ne_os_sock_get :: apr_status
  ne_fd :: int

record net =
  open_socks :: "nat list"
  closed_socks :: "nat list"
  dual_stack :: "nat list"
  nonblocking :: "nat list"

definition h3_socket_os_is_eaddrinuse :: "apr_status \<Rightarrow> bool" where
  "h3_socket_os_is_eaddrinuse rv \<longleftrightarrow> rv = APR_EADDRINUSE"

definition apr_socket_close :: "nat \<Rightarrow> net \<Rightarrow> net" where
  "apr_socket_close s n = n\<lparr>open_socks := remove1 s (open_socks n), closed_socks := closed_socks n @ [s]\<rparr>"

definition h3_socket_open :: "open_env \<Rightarrow> net \<Rightarrow> (apr_status \<times> int option) \<times> net" where
  "h3_socket_open N n =
    (if ne_create N \<noteq> APR_SUCCESS then ((ne_create N, None), n)
     else (let sock = ne_sock N;
               n1 = n\<lparr>open_socks := sock # open_socks n\<rparr>;
               n2 = n1\<lparr>dual_stack := sock # dual_stack n1\<rparr>
       in if ne_info_get N \<noteq> APR_SUCCESS then ((ne_info_get N, None), apr_socket_close sock n2)
          else if ne_bind N \<noteq> APR_SUCCESS
          then (if h3_socket_os_is_eaddrinuse (ne_bind N)
                then ((APR_EAGAIN, None), apr_socket_close sock n2)
                else ((ne_bind N, None), apr_socket_close sock n2))
          else if ne_timeout_set N \<noteq> APR_SUCCESS then ((ne_timeout_set N, None), apr_socket_close sock n2)
          else (let n3 = n2\<lparr>nonblocking := sock # nonblocking n2\<rparr> in
            if ne_os_sock_get N \<noteq> APR_SUCCESS then ((ne_os_sock_get N, None), apr_socket_close sock n3)
            else ((APR_SUCCESS, Some (ne_fd N)), n3))))"

text \<open>The descriptors closed through \<^verbatim>\<open>close\<close>, in order.\<close>

definition h3_socket_os_close :: "int \<Rightarrow> int list \<Rightarrow> int list" where
  "h3_socket_os_close fd closes = closes @ [fd]"

definition h3_socket_close :: "int \<Rightarrow> int list \<Rightarrow> int list" where
  "h3_socket_close fd closes = (if fd \<ge> 0 then h3_socket_os_close fd closes else closes)"

section \<open>The wakeup pair\<close>

record h3_wakeup =
  reader :: "nat option"
  writer :: "nat option"
  reader_fd :: int

definition no_wakeup :: h3_wakeup where
  "no_wakeup = \<lparr>reader = None, writer = None, reader_fd = -1\<rparr>"

text \<open>The steps of the creation, each with its outcome, in the order of the code.\<close>

datatype wakeup_step = Wk_loopback | Wk_reader nat | Wk_bind_reader | Wk_bound | Wk_writer nat | Wk_writer_addr
  | Wk_bind_writer | Wk_connect_writer | Wk_local_writer | Wk_connect_reader | Wk_nonblock_reader | Wk_nonblock_writer
  | Wk_os_sock int

definition wakeup_plan :: "nat \<Rightarrow> nat \<Rightarrow> int \<Rightarrow> wakeup_step list" where
  "wakeup_plan r w fd = [Wk_loopback, Wk_reader r, Wk_bind_reader, Wk_bound, Wk_writer w, Wk_writer_addr, Wk_bind_writer,
     Wk_connect_writer, Wk_local_writer, Wk_connect_reader, Wk_nonblock_reader, Wk_nonblock_writer, Wk_os_sock fd]"

fun wakeup_effect :: "wakeup_step \<Rightarrow> h3_wakeup \<Rightarrow> h3_wakeup" where
  "wakeup_effect (Wk_reader r) w = w\<lparr>reader := Some r\<rparr>"
| "wakeup_effect (Wk_writer r) w = w\<lparr>writer := Some r\<rparr>"
| "wakeup_effect (Wk_os_sock fd) w = w\<lparr>reader_fd := fd\<rparr>"
| "wakeup_effect _ w = w"

text \<open>A failing step jumps to the label \<^verbatim>\<open>fail\<close>, which restores the uncreated state.\<close>

fun wakeup_steps :: "(wakeup_step \<Rightarrow> apr_status) \<Rightarrow> wakeup_step list \<Rightarrow> h3_wakeup \<Rightarrow> apr_status \<times> h3_wakeup" where
  "wakeup_steps apr [] w = (APR_SUCCESS, w)"
| "wakeup_steps apr (x # xs) w =
    (if apr x \<noteq> APR_SUCCESS then (apr x, no_wakeup) else wakeup_steps apr xs (wakeup_effect x w))"

definition h3_wakeup_create :: "(wakeup_step \<Rightarrow> apr_status) \<Rightarrow> nat \<Rightarrow> nat \<Rightarrow> int \<Rightarrow> apr_status \<times> h3_wakeup" where
  "h3_wakeup_create apr r w fd = wakeup_steps apr (wakeup_plan r w fd) no_wakeup"

text \<open>
  The loopback queue between the two sockets: the datagrams waiting at the reader, and how
  many its buffer holds. A send to a full buffer is dropped; a receive takes one datagram.
  The payload is one byte, so a receive never yields an empty one.
\<close>

definition h3_wakeup_signal :: "nat \<Rightarrow> h3_wakeup option \<Rightarrow> nat \<Rightarrow> nat" where
  "h3_wakeup_signal room w queued =
    (case w of
       None \<Rightarrow> queued
     | Some w \<Rightarrow> if writer w = None then queued else if queued < room then Suc queued else queued)"

fun drain_loop :: "nat \<Rightarrow> nat \<Rightarrow> nat" where
  "drain_loop 0 queued = queued"
| "drain_loop (Suc i) queued = (if queued = 0 then queued else drain_loop i (queued - 1))"

definition h3_wakeup_drain :: "h3_wakeup option \<Rightarrow> nat \<Rightarrow> nat" where
  "h3_wakeup_drain w queued =
    (case w of
       None \<Rightarrow> queued
     | Some w \<Rightarrow> if reader w = None then queued else drain_loop 64 queued)"

section \<open>Correctness\<close>


definition wit_open_env :: open_env where
  "wit_open_env = \<lparr>ne_sock = 7, ne_create = APR_SUCCESS, ne_info_get = APR_SUCCESS, ne_bind = APR_EADDRINUSE,
     ne_timeout_set = APR_SUCCESS, ne_os_sock_get = APR_SUCCESS, ne_fd = 12\<rparr>"


text \<open>A creation runs all its steps or ends uncreated.\<close>

lemma wakeup_steps_result:
  "wakeup_steps apr xs w =
    (case List.find (\<lambda>x. apr x \<noteq> APR_SUCCESS) xs of
       None \<Rightarrow> (APR_SUCCESS, fold wakeup_effect xs w) | Some x \<Rightarrow> (apr x, no_wakeup))"
  by (induction xs arbitrary: w) (auto split: option.splits)

lemma drain_loop_sub: "drain_loop k q = q - k"
  by (induction k q rule: drain_loop.induct) auto

fun signals :: "nat \<Rightarrow> nat \<Rightarrow> h3_wakeup \<Rightarrow> nat \<Rightarrow> nat" where
  "signals room 0 w q = q"
| "signals room (Suc k) w q = signals room k w (h3_wakeup_signal room (Some w) q)"

lemma signals_min:
  "writer w \<noteq> None \<Longrightarrow> q \<le> room \<Longrightarrow> signals room k w q = min room (q + k)"
  by (induction k arbitrary: q) (auto simp: h3_wakeup_signal_def)



end
