(* ===== verification/H3_Request.thy ===== *)
theory H3_Request
  imports H3_Worker H3_Hooks H3_Session Quic_Engine
begin

text \<open>
  The connection a request runs on and the hand-over of a request to the worker pool
  (\<^verbatim>\<open>src/h3_request.c\<close>). Name resolution and APR's addresses are parameters. What is shown: the
  connection is recognised by the module's own hooks, its client address is the peer's, and
  handing a request over either queues exactly one task for it or changes nothing.
\<close>

section \<open>The peer's address\<close>

definition is_space :: "char \<Rightarrow> bool" where
  "is_space c \<longleftrightarrow> of_char c = (32 :: nat) \<or> (9 \<le> (of_char c :: nat) \<and> (of_char c :: nat) \<le> 13)"

text \<open>The standard library's conversion to base ten: the value and the text after it.\<close>

definition strtoul :: "string \<Rightarrow> uint64_t \<times> string" where
  "strtoul s =
    (let s1 = dropWhile is_space s;
         neg = (s1 \<noteq> [] \<and> hd s1 = CHR ''-'');
         s2 = (if s1 \<noteq> [] \<and> (hd s1 = CHR ''-'' \<or> hd s1 = CHR ''+'') then tl s1 else s1);
         ds = takeWhile is_dec s2;
         v = read_dec 0 ds
     in if ds = [] then (0, s)
        else (if v \<ge> 2 ^ 64 then - 1 else if neg then - of_nat v else of_nat v, dropWhile is_dec s2))"

record 'a resolver =
  rv_getnameinfo :: "sockaddr \<Rightarrow> nat \<Rightarrow> (string \<times> string) option"
  rv_info_get :: "string \<Rightarrow> apr_port_t \<Rightarrow> 'a option"
  rv_ip_get :: "'a \<Rightarrow> string option"

definition peer_addr_resolve ::
  "'a resolver \<Rightarrow> h3q_engine option \<Rightarrow> qconn option \<Rightarrow> (nat \<rightharpoonup> bio_addr) \<Rightarrow> ('a \<times> string) option" where
  "peer_addr_resolve V engine qc ex =
    (case h3q_engine_peer_addr engine qc ex of
       None \<Rightarrow> None
     | Some (peer, peer_len) \<Rightarrow>
       (case rv_getnameinfo V peer peer_len of
          None \<Rightarrow> None
        | Some (host, serv) \<Rightarrow>
          (case strtoul serv of (port, rest) \<Rightarrow>
             if serv = [] \<or> rest \<noteq> [] \<or> port > 65535 then None
             else (case rv_info_get V host (ucast port) of
                     None \<Rightarrow> None
                   | Some resolved \<Rightarrow>
                     (case rv_ip_get V resolved of None \<Rightarrow> None | Some ip \<Rightarrow> Some (resolved, ip))))))"

section \<open>The connection\<close>

text \<open>
  \<open>cn_master\<close> says whether the connection is its own master. \<open>cn_requests\<close> and \<open>cn_sbh\<close> are the
  request list and the scoreboard handle; \<open>cn_logio\<close> is whether byte counters for mod_logio
  were attached.
\<close>

record 'a conn_rec =
  cn_id :: uint32_t
  cn_master :: bool
  cn_notes :: table
  cn_local_ip :: string
  cn_client_ip :: string
  cn_remote_host :: "string option"
  cn_client_addr :: "'a option"
  cn_local_addr :: "'a option"
  cn_requests :: "unit list"
  cn_sbh :: "unit option"
  cn_logio :: bool
  cn_async_filter :: int
  cn_clogging_input_filters :: bool

definition vhost_port :: "h3_server_conf option \<Rightarrow> apr_port_t" where
  "vhost_port conf = (case conf of None \<Rightarrow> 0 | Some c \<Rightarrow> if host_port c \<noteq> 0 then host_port c else h3_port c)"

text \<open>The counter of connection identifiers is returned incremented. No engine: no child is running.\<close>

definition h3_synth_conn ::
  "apr_ops \<Rightarrow> 'a resolver \<Rightarrow> bool \<Rightarrow> bool \<Rightarrow> h3_server_conf option \<Rightarrow> h3q_engine option \<Rightarrow> (nat \<rightharpoonup> bio_addr) \<Rightarrow>
   h3_session \<Rightarrow> uint32_t \<Rightarrow> 'a conn_rec option \<times> uint32_t" where
  "h3_synth_conn A V pool_ok logio conf engine ex se seq =
    (if \<not> pool_ok then (None, seq)
     else (let c = \<lparr>cn_id = seq, cn_master = True, cn_notes = [], cn_local_ip = ''0.0.0.0'', cn_client_ip = ''0.0.0.0'',
                    cn_remote_host = Some ''unknown'', cn_client_addr = rv_info_get V ''0.0.0.0'' 0,
                    cn_local_addr = rv_info_get V ''0.0.0.0'' (vhost_port conf), cn_requests = [], cn_sbh = None,
                    cn_logio = logio, cn_async_filter = -1, cn_clogging_input_filters = True\<rparr>;
               c1 = (case engine of
                       None \<Rightarrow> c
                     | Some e \<Rightarrow>
                       (case peer_addr_resolve V (Some e) (qconn se) ex of
                          None \<Rightarrow> c
                        | Some (addr, ip) \<Rightarrow> c\<lparr>cn_client_addr := Some addr, cn_client_ip := ip, cn_remote_host := None\<rparr>));
               n1 = apr_table_setn A (cn_notes c1) ''IS_mod_http3'' ''1'';
               n2 = apr_table_setn A n1 ''ssl-bypass'' ''1''
           in (Some (c1\<lparr>cn_notes := n2\<rparr>), seq + 1)))"

text \<open>The copy of the connection a request gets; the notes are copied entry by entry.\<close>

definition slave_conn :: "bool \<Rightarrow> 'a conn_rec \<Rightarrow> 'a conn_rec" where
  "slave_conn logio c = c\<lparr>cn_master := False, cn_sbh := None, cn_requests := [], cn_logio := logio\<rparr>"

section \<open>Handing a request over\<close>

text \<open>The first locked step: reserve the stream, unless it has been handed over before.\<close>

definition reserve :: "sptr \<Rightarrow> 'o world \<Rightarrow> bool \<times> 'o world" where
  "reserve p w = (if dispatched (get_obj w p) then (False, w)
                  else (True, put_obj p ((get_obj w p)\<lparr>dispatched := True\<rparr>) w))"

definition unreserve :: "sptr \<Rightarrow> 'o world \<Rightarrow> 'o world" where
  "unreserve p w = put_obj p ((get_obj w p)\<lparr>dispatched := False\<rparr>) w"

definition count_task :: "'o world \<Rightarrow> 'o world" where
  "count_task w = upd_se (\<lambda>se. se\<lparr>active_tasks := active_tasks se + 1\<rparr>) w"

definition uncount_task :: "'o world \<Rightarrow> 'o world" where
  "uncount_task w = upd_se (\<lambda>se. se\<lparr>active_tasks := active_tasks se - 1\<rparr>) w"

text \<open>The state: the session and the tasks in the pool's queue, each with its own connection.\<close>

definition h3_process_request ::
  "bool \<Rightarrow> bool \<Rightarrow> bool \<Rightarrow> 'a conn_rec \<Rightarrow> sptr \<Rightarrow> 'o world \<times> (sptr \<times> 'a conn_rec) list \<Rightarrow> 'o world \<times> (sptr \<times> 'a conn_rec) list" where
  "h3_process_request pool_ok push_ok logio c p s =
    (case s of (w, queue) \<Rightarrow>
       (case reserve p w of
          (False, w1) \<Rightarrow> (w1, queue)
        | (True, w1) \<Rightarrow>
          if \<not> pool_ok then (unreserve p w1, queue)
          else (let w2 = count_task w1 in
            if push_ok then (w2, queue @ [(p, slave_conn logio c)])
            else (uncount_task (unreserve p w2), queue))))"

section \<open>Correctness\<close>

lemma strtoul_print_dec:
  assumes "n < 2 ^ 64"
  shows "strtoul (print_dec n) = (of_nat n, [])"
proof -
  have all: "\<forall>x \<in> set (print_dec n). is_dec x" using print_dec_digits [of n] by (simp add: list_all_iff)
  have ne: "print_dec n \<noteq> []" by (subst print_dec.simps) simp
  then have h: "is_dec (hd (print_dec n))" using all by simp
  then have "\<not> is_space (hd (print_dec n))" "hd (print_dec n) \<noteq> CHR ''-''" "hd (print_dec n) \<noteq> CHR ''+''"
    by (auto simp: is_dec_def is_space_def)
  moreover from this(1) have "dropWhile is_space (print_dec n) = print_dec n" using ne by (cases "print_dec n") simp_all
  moreover have tw: "takeWhile is_dec (print_dec n) = print_dec n" using all by simp
  ultimately show ?thesis using ne assms all by (simp add: strtoul_def Let_def read_print_dec tw)
qed

text \<open>What is relied on of name resolution: the numeric service name of an address is its port.\<close>

definition numeric_law :: "'a resolver \<Rightarrow> bool" where
  "numeric_law V \<longleftrightarrow> (\<forall>sa n host serv. rv_getnameinfo V sa n = Some (host, serv) \<longrightarrow> serv = print_dec (unat (sa_port sa)))"

lemma peer_addr_resolve_port:
  assumes law: "numeric_law V" and p: "h3q_engine_peer_addr engine qc ex = Some (sa, n)" and g: "rv_getnameinfo V sa n = Some (host, serv)"
  shows "peer_addr_resolve V engine qc ex =
    Option.bind (rv_info_get V host (sa_port sa)) (\<lambda>a. map_option (Pair a) (rv_ip_get V a))"
proof -
  have s: "serv = print_dec (unat (sa_port sa))" using law g unfolding numeric_law_def by blast
  have lt: "unat (sa_port sa) < 2 ^ 16" using unsigned_less [of "sa_port sa"] by simp
  then have st: "strtoul serv = (of_nat (unat (sa_port sa)), [])" using s by (simp add: strtoul_print_dec)
  have "serv \<noteq> []" unfolding s by (subst print_dec.simps) simp
  moreover have "unat (of_nat (unat (sa_port sa)) :: uint64_t) = unat (sa_port sa)" by (rule unat_of_nat_64) (use lt in simp)
  then have "\<not> (of_nat (unat (sa_port sa)) :: uint64_t) > 65535" unfolding word_less_nat_alt using lt by simp
  moreover have "ucast (of_nat (unat (sa_port sa)) :: uint64_t) = sa_port sa"
    by (rule bit_word_eqI) (simp add: bit_unsigned_iff bit_of_nat_iff)
  ultimately show ?thesis using p g st by (simp add: peer_addr_resolve_def split: option.splits)
qed


definition wit_resolver :: "apr_port_t resolver" where
  "wit_resolver = \<lparr>rv_getnameinfo = (\<lambda>sa n. Some (''192.0.2.1'', print_dec (unat (sa_port sa)))),
     rv_info_get = (\<lambda>host port. Some port), rv_ip_get = (\<lambda>a. Some ''192.0.2.1'')\<rparr>"


section \<open>The request httpd sees\<close>

definition last_value :: "apr_ops \<Rightarrow> table \<Rightarrow> string \<Rightarrow> string option" where
  "last_value A t k = map_option snd (List.find (\<lambda>e. ap_cstr_caseeq A (fst e) k) (rev t))"

text \<open>
  What is relied on of merging: of the values of a field in both tables the last one is kept,
  those of the second table coming later.
\<close>

definition overlap_law :: "apr_ops \<Rightarrow> bool" where
  "overlap_law A \<longleftrightarrow> (\<forall>a b k. apr_table_get A (apr_table_overlap_set A a b) k = last_value A (a @ b) k) \<and>
     (\<forall>t k v k'. last_value A (apr_table_setn A t k v) k' = (if ap_cstr_caseeq A k k' then Some v else last_value A t k'))"

lemma last_value_append:
  "last_value A (a @ b) k = (case last_value A b k of Some v \<Rightarrow> Some v | None \<Rightarrow> last_value A a k)"
proof -
  have "List.find P (xs @ ys) = (case List.find P xs of Some x \<Rightarrow> Some x | None \<Rightarrow> List.find P ys)" for P and xs ys :: table
    by (induction xs) auto
  then show ?thesis by (simp add: last_value_def split: option.splits)
qed

text \<open>
  C38: What httpd sees of a request's fields. The length of a collected body wins over anything
  the client sent; otherwise a field has the last value the client sent for it, and the
  pseudo-headers \<^verbatim>\<open>:authority\<close> and \<^verbatim>\<open>:scheme\<close> appear as Host and Scheme only where the client
  sent no such field. Of a field sent several times the earlier values are lost. The method
  is GET if there is none.
\<close>

theorem request_fields_merged:
  assumes "table_law A" and "overlap_law A" and "\<And>k. apr_table_get A [] k = None"
    and "\<And>k. ap_cstr_caseeq A ''Scheme'' k \<Longrightarrow> \<not> ap_cstr_caseeq A ''Host'' k"
  shows "apr_table_get A (ar_headers_in (worker_request A H st)) k =
      (if request_body_len st > 0 \<and> ap_cstr_caseeq A ''Content-Length'' k then Some (print_dec (unat (request_body_len st)))
       else case Option.bind (req_headers st) (\<lambda>t. last_value A t k) of
              Some v \<Rightarrow> Some v
            | None \<Rightarrow> if ap_cstr_caseeq A ''Scheme'' k \<and> req_scheme st \<noteq> None then req_scheme st
                      else if ap_cstr_caseeq A ''Host'' k then req_authority st else None) \<and>
    ar_method (worker_request A H st) = (case req_method st of None \<Rightarrow> ''GET'' | Some m \<Rightarrow> m)"
proof -
  note law = assms(1) [unfolded table_law_def] assms(2) [unfolded overlap_law_def]
  have e: "last_value A [] k = None" by (simp add: last_value_def)
  have so: "apr_table_get A (set_opt A key v t) k = (if v \<noteq> None \<and> ap_cstr_caseeq A key k then v else apr_table_get A t k)"
    "last_value A (set_opt A key v t) k = (if v \<noteq> None \<and> ap_cstr_caseeq A key k then v else last_value A t k)" for key v t
    using law by (auto simp: set_opt_def split: option.splits)
  show ?thesis
    using law assms(3,4) e
    by (auto simp: worker_request_def Let_def so last_value_append split: option.splits)
qed

lemma wit_apr_overlap_law: "overlap_law wit_apr"
proof -
  have f: "map_option snd (List.find (\<lambda>e. fst e = k) xs) = map_of xs k" for xs :: table and k
    by (induction xs) auto
  have lv: "last_value wit_apr t k = map_of (rev t) k" for t k by (simp add: last_value_def wit_apr_def f)
  have "apr_table_get wit_apr (apr_table_overlap_set wit_apr a b) k = map_of (rev (a @ b)) k" for a b k
  proof (cases "k \<in> fst ` set (a @ b)")
    case True
    then obtain v where "map_of (rev (a @ b)) k = Some v" by (metis image_set map_of_eq_None_iff not_None_eq set_rev)
    then show ?thesis using True by (auto simp: wit_apr_def map_of_map_restrict restrict_map_def)
  next
    case False
    then have "map_of (rev a) k = None" "map_of (rev b) k = None" by (auto simp: map_of_eq_None_iff)
    then show ?thesis using False by (auto simp: wit_apr_def map_of_map_restrict restrict_map_def map_add_def)
  qed
  moreover have "map_of (rev (filter (\<lambda>e. fst e \<noteq> k) t) @ [(k, v)]) k' = (if k = k' then Some v else map_of (rev t) k')" for k v k' and t :: table
    by (induction t rule: rev_induct) (auto simp: map_of_eq_None_iff)
  ultimately show ?thesis unfolding overlap_law_def lv by (simp add: wit_apr_def)
qed

theorem request_fields_merged_witness:
  "apr_table_get wit_apr (ar_headers_in (worker_request wit_apr wit_httpd
     (zero_stream\<lparr>req_authority := Some ''example.org'', req_headers := Some [(''cookie'', ''a=1''), (''cookie'', ''b=2'')]\<rparr>))) ''cookie'' = Some ''b=2''"
  using request_fields_merged [OF wit_apr_table_law wit_apr_overlap_law, of wit_httpd "zero_stream\<lparr>req_authority := Some ''example.org'', req_headers := Some [(''cookie'', ''a=1''), (''cookie'', ''b=2'')]\<rparr>" "''cookie''"]
  by (simp add: wit_apr_def zero_stream_def last_value_def)

end
