(* ===== verification/H3_Dispatch.thy ===== *)
theory H3_Dispatch
  imports H3_Request
begin

text \<open>
  The event thread and the request workers of a session, interleaved. A step is what one
  thread does in one locked section, or one atomic counter update, of \<^verbatim>\<open>src/h3_io.c\<close> and
  \<^verbatim>\<open>src/h3_request.c\<close>; the state adds to the session which tasks there are and how far each has
  come. What is shown: a stream a worker still uses is never given up, each request has at most
  one worker, the task counter counts, and the session is destroyed only when no worker is
  left.
\<close>

section \<open>The system\<close>

text \<open>
  A task is queued, running, or has signed off its stream and is about to leave. The event
  thread is between two requests, has reserved a stream, has counted the task it is about to
  push, or has to take back the count of a task it could not push.
\<close>

datatype task_phase = Queued_task | Running_task | Leaving_task
datatype event_pc = Ev_idle | Ev_reserved sptr | Ev_counted sptr | Ev_unpushed

record ('o, 'ng) sys =
  sy_ng :: 'ng
  sy_w :: "'o world"
  sy_tasks :: "(sptr \<times> task_phase) list"
  sy_pc :: event_pc
  sy_todo :: "sptr list"
  sy_gone :: bool

text \<open>Accepting a stream: one round of the accept loop.\<close>

definition free_handle :: "('o, 'ng) libs \<Rightarrow> qstream \<Rightarrow> 'o world \<Rightarrow> 'o world" where
  "free_handle L q w = w\<lparr>w_ssl := h3q_stream_free (lib_ssl L) (w_ssl w) (Some q), w_freed := w_freed w @ [q]\<rparr>"

definition accept_stream :: "('o, 'ng) libs \<Rightarrow> bool \<Rightarrow> bool \<Rightarrow> qstream \<Rightarrow> 'o world \<Rightarrow> 'o world option" where
  "accept_stream L pool_ok cond_ok q w =
    (let sid = h3q_stream_id (lib_ssl L) (w_ssl w) (Some q) in
     if sid < 0 then Some (free_handle L q w)
     else (case track_stream pool_ok cond_ok sid q w of
             None \<Rightarrow> None
           | Some (None, w1) \<Rightarrow> Some (free_handle L q w1)
           | Some (Some _, w1) \<Rightarrow> Some w1))"

text \<open>nghttp3's calls that workers make under the lock, and those of a session that is closing down.\<close>

record 'ng worker_ops =
  wo_submit :: "'ng submit_fn"
  wo_resume :: "'ng \<Rightarrow> int \<Rightarrow> 'ng"
  wo_submit_shutdown_notice :: "'ng \<Rightarrow> 'ng"
  wo_shutdown :: "'ng \<Rightarrow> 'ng"
  wo_is_drained :: "'ng \<Rightarrow> bool"

fun resume_effects :: "('ng \<Rightarrow> int \<Rightarrow> 'ng) \<Rightarrow> resp_effect list \<Rightarrow> 'ng \<Rightarrow> 'ng" where
  "resume_effects f [] ng = ng"
| "resume_effects f (Resume_stream sid # es) ng = resume_effects f es (f ng sid)"
| "resume_effects f (_ # es) ng = resume_effects f es ng"

text \<open>One locked section of a worker on its stream.\<close>

inductive worker_op :: "'ng worker_ops \<Rightarrow> sptr \<Rightarrow> 'ng \<times> 'o world \<Rightarrow> 'ng \<times> 'o world \<Rightarrow> bool" for N p where
  op_append: "unat len = length data \<Longrightarrow> off < len \<Longrightarrow>
    append_iteration m (w_se w) data len off (w_heaps w p) (get_obj w p) = Some (res, h, st, es) \<Longrightarrow>
    worker_op N p (ng, w) (resume_effects (wo_resume N) es ng, put_heap p h (put_obj p st w))"
| op_submit: "submit_response_nva (wo_submit N) nva (ng, w_heaps w p, get_obj w p, w_se w) = (rv, (ng', h, st, se), es) \<Longrightarrow>
    worker_op N p (ng, w) (ng', put_heap p h (put_obj p st w))"
| op_complete: "h3_stream_response_complete (w_se w) (get_obj w p) = (st, es) \<Longrightarrow>
    worker_op N p (ng, w) (resume_effects (wo_resume N) es ng, put_obj p st w)"
| op_read: "serve_request_body (get_obj w p) bb mode n = Some (rv, st, bb') \<Longrightarrow>
    worker_op N p (ng, w) (ng, put_obj p st w)"

text \<open>One step of the event thread.\<close>

inductive event_step :: "('o, 'ng) libs \<Rightarrow> 'ng worker_ops \<Rightarrow> ('o, 'ng) sys \<Rightarrow> ('o, 'ng) sys \<Rightarrow> bool" for L N where
  accept: "\<not> sy_gone s \<Longrightarrow> sy_pc s = Ev_idle \<Longrightarrow> q \<notin> held (sy_w s) \<Longrightarrow>
    accept_stream L True cond_ok q (sy_w s) = Some w \<Longrightarrow> event_step L N s (s\<lparr>sy_w := w\<rparr>)"
| drain: "\<not> sy_gone s \<Longrightarrow> sy_pc s = Ev_idle \<Longrightarrow> drain_ready_streams L (sy_ng s, sy_w s) = Some (completed, a) \<Longrightarrow>
    event_step L N s (s\<lparr>sy_ng := pa_ng a, sy_w := pa_w a, sy_todo := completed\<rparr>)"
| flush: "\<not> sy_gone s \<Longrightarrow> sy_pc s = Ev_idle \<Longrightarrow> flush_nghttp3 L fuel (sy_ng s, sy_w s) = Done (ng, w) \<Longrightarrow>
    event_step L N s (s\<lparr>sy_ng := ng, sy_w := w\<rparr>)"
| network: "\<not> sy_gone s \<Longrightarrow> event_step L N s (s\<lparr>sy_w := (sy_w s)\<lparr>w_ssl := x, w_stats := y\<rparr>\<rparr>)"
| notice: "\<not> sy_gone s \<Longrightarrow> sy_pc s = Ev_idle \<Longrightarrow> event_step L N s (s\<lparr>sy_ng := wo_submit_shutdown_notice N (sy_ng s)\<rparr>)"
| deadline: "\<not> sy_gone s \<Longrightarrow> sy_pc s = Ev_idle \<Longrightarrow>
    event_step L N s (s\<lparr>sy_w := upd_se (\<lambda>se. se\<lparr>goaway_deadline := t\<rparr>) (sy_w s)\<rparr>)"
| shutdown: "\<not> sy_gone s \<Longrightarrow> sy_pc s = Ev_idle \<Longrightarrow> event_step L N s (s\<lparr>sy_ng := wo_shutdown N (sy_ng s)\<rparr>)"
| abort: "\<not> sy_gone s \<Longrightarrow> sy_pc s = Ev_idle \<Longrightarrow>
    event_step L N s (s\<lparr>sy_w := upd_se (\<lambda>se. se\<lparr>aborted := True\<rparr>) (sy_w s)\<rparr>)"
| skip: "\<not> sy_gone s \<Longrightarrow> sy_pc s = Ev_idle \<Longrightarrow> sy_todo s = p # ps \<Longrightarrow> reserve p (sy_w s) = (False, w) \<Longrightarrow>
    event_step L N s (s\<lparr>sy_w := w, sy_todo := ps\<rparr>)"
| reserve: "\<not> sy_gone s \<Longrightarrow> sy_pc s = Ev_idle \<Longrightarrow> sy_todo s = p # ps \<Longrightarrow> reserve p (sy_w s) = (True, w) \<Longrightarrow>
    event_step L N s (s\<lparr>sy_w := w, sy_todo := ps, sy_pc := Ev_reserved p\<rparr>)"
| no_pool: "\<not> sy_gone s \<Longrightarrow> sy_pc s = Ev_reserved p \<Longrightarrow>
    event_step L N s (s\<lparr>sy_w := unreserve p (sy_w s), sy_pc := Ev_idle\<rparr>)"
| count: "\<not> sy_gone s \<Longrightarrow> sy_pc s = Ev_reserved p \<Longrightarrow> length (sy_tasks s) + 1 < 2 ^ 32 \<Longrightarrow>
    event_step L N s (s\<lparr>sy_w := count_task (sy_w s), sy_pc := Ev_counted p\<rparr>)"
| push: "\<not> sy_gone s \<Longrightarrow> sy_pc s = Ev_counted p \<Longrightarrow>
    event_step L N s (s\<lparr>sy_tasks := sy_tasks s @ [(p, Queued_task)], sy_pc := Ev_idle\<rparr>)"
| push_fails: "\<not> sy_gone s \<Longrightarrow> sy_pc s = Ev_counted p \<Longrightarrow>
    event_step L N s (s\<lparr>sy_w := unreserve p (sy_w s), sy_pc := Ev_unpushed\<rparr>)"
| uncount: "\<not> sy_gone s \<Longrightarrow> sy_pc s = Ev_unpushed \<Longrightarrow>
    event_step L N s (s\<lparr>sy_w := uncount_task (sy_w s), sy_pc := Ev_idle\<rparr>)"
| destroy: "\<not> sy_gone s \<Longrightarrow> sy_pc s = Ev_idle \<Longrightarrow> active_tasks (w_se (sy_w s)) = 0 \<Longrightarrow>
    h3_session_destroy L (sy_w s) = Some (cs, w) \<Longrightarrow> event_step L N s (s\<lparr>sy_w := w, sy_todo := [], sy_gone := True\<rparr>)"

text \<open>One step of a pool thread.\<close>

inductive worker_step :: "'ng worker_ops \<Rightarrow> ('o, 'ng) sys \<Rightarrow> ('o, 'ng) sys \<Rightarrow> bool" for N where
  start: "sy_tasks s = xs @ (p, Queued_task) # ys \<Longrightarrow>
    worker_step N s (s\<lparr>sy_tasks := xs @ (p, Running_task) # ys\<rparr>)"
| work: "(p, Running_task) \<in> set (sy_tasks s) \<Longrightarrow> worker_op N p (sy_ng s, sy_w s) (ng, w) \<Longrightarrow>
    worker_step N s (s\<lparr>sy_ng := ng, sy_w := w\<rparr>)"
| give_up: "sy_tasks s = xs @ (p, Running_task) # ys \<Longrightarrow>
    worker_step N s (s\<lparr>sy_w := unreserve p (sy_w s), sy_tasks := xs @ (p, Leaving_task) # ys\<rparr>)"
| sign_off: "sy_tasks s = xs @ (p, Running_task) # ys \<Longrightarrow>
    worker_step N s (s\<lparr>sy_w := put_obj p ((get_obj (sy_w s) p)\<lparr>worker_done := True\<rparr>) (sy_w s), sy_tasks := xs @ (p, Leaving_task) # ys\<rparr>)"
| leave: "sy_tasks s = xs @ (p, Leaving_task) # ys \<Longrightarrow>
    worker_step N s (s\<lparr>sy_w := uncount_task (sy_w s), sy_tasks := xs @ ys\<rparr>)"

inductive sys_step :: "('o, 'ng) libs \<Rightarrow> 'ng worker_ops \<Rightarrow> ('o, 'ng) sys \<Rightarrow> ('o, 'ng) sys \<Rightarrow> bool" for L N where
  event: "event_step L N s s' \<Longrightarrow> sys_step L N s s'"
| worker: "worker_step N s s' \<Longrightarrow> sys_step L N s s'"

section \<open>The invariant\<close>

definition pc_owner :: "event_pc \<Rightarrow> sptr list" where
  "pc_owner pc = (case pc of Ev_reserved p \<Rightarrow> [p] | Ev_counted p \<Rightarrow> [p] | _ \<Rightarrow> [])"

definition pc_count :: "event_pc \<Rightarrow> nat" where
  "pc_count pc = (case pc of Ev_counted p \<Rightarrow> 1 | Ev_unpushed \<Rightarrow> 1 | _ \<Rightarrow> 0)"

text \<open>The streams somebody works on: those of the tasks that have not signed off, and the one being handed over.\<close>

definition task_owners :: "(sptr \<times> task_phase) list \<Rightarrow> sptr list" where
  "task_owners ts = map fst (filter (\<lambda>t. snd t \<noteq> Leaving_task) ts)"

definition owners :: "('o, 'ng) sys \<Rightarrow> sptr list" where
  "owners s = task_owners (sy_tasks s) @ pc_owner (sy_pc s)"

definition role_inv :: "'o world \<Rightarrow> sptr list \<Rightarrow> bool" where
  "role_inv w ps \<longleftrightarrow> distinct ps \<and>
     (\<forall>p \<in> set ps. p \<in> ran (streams (w_se w)) \<and> dispatched (get_obj w p) \<and> \<not> worker_done (get_obj w p)) \<and>
     (\<forall>p \<in> ran (streams (w_se w)). worker_done (get_obj w p) \<longrightarrow> dispatched (get_obj w p))"

definition sys_inv :: "('o, 'ng) agree \<Rightarrow> ('o, 'ng) sys \<Rightarrow> bool" where
  "sys_inv R s \<longleftrightarrow>
     (if sy_gone s then sy_tasks s = [] \<and> sy_pc s = Ev_idle
      else evt_ok R (sy_ng s) (sy_w s) \<and> ngh3 (w_se (sy_w s)) \<and> reclaim_inv (sy_w s) \<and> role_inv (sy_w s) (owners s) \<and>
        set (sy_todo s) \<subseteq> ran (streams (w_se (sy_w s))) \<and>
        unat (active_tasks (w_se (sy_w s))) = length (sy_tasks s) + pc_count (sy_pc s))"

text \<open>
  What is relied on of nghttp3 while workers run: its view agrees with a queue that has only
  grown at its end, and with a submitted response or a resumed stream.
\<close>

definition resp_grows :: "chunk_heap \<Rightarrow> h3_stream \<Rightarrow> chunk_heap \<Rightarrow> h3_stream \<Rightarrow> bool" where
  "resp_grows h st h' st' \<longleftrightarrow> (\<exists>us vs new bs. resp_rep h st us vs \<and> resp_rep h' st' us (vs @ new) \<and>
     resp_bytes h' us = resp_bytes h us \<and> resp_bytes h' (vs @ new) = resp_bytes h vs @ bs)"

definition worker_law :: "('o, 'ng) agree \<Rightarrow> 'ng worker_ops \<Rightarrow> bool" where
  "worker_law R N \<longleftrightarrow>
     (\<forall>ng w p h st. R ng None w \<longrightarrow> p < length (objs (w_se w)) \<longrightarrow> resp_grows (w_heaps w p) (get_obj w p) h st \<longrightarrow>
        R ng None (put_heap p h (put_obj p st w))) \<and>
     (\<forall>ng w sid nva. R ng None w \<longrightarrow> R (fst (wo_submit N ng sid nva)) None w) \<and>
     (\<forall>ng w sid. R ng None w \<longrightarrow> R (wo_resume N ng sid) None w) \<and>
     (\<forall>ng w. R ng None w \<longrightarrow> R (wo_submit_shutdown_notice N ng) None w \<and> R (wo_shutdown N ng) None w)"

lemma ran_lt: "world_inv w \<Longrightarrow> p \<in> ran (streams (w_se w)) \<Longrightarrow> p < length (objs (w_se w))"
  using world_invD(3) by (fastforce simp: ran_def)

lemma get_put_obj: "p < length (objs (w_se w)) \<Longrightarrow> get_obj (put_obj p st w) q = (if q = p then st else get_obj w q)"
  by (simp add: get_obj_def)

subsection \<open>Flags\<close>

lemma role_inv_put:
  assumes "role_inv w ps" and "p < length (objs (w_se w))" and "dispatched st = dispatched (get_obj w p)" and "worker_done st = worker_done (get_obj w p)"
  shows "role_inv (put_obj p st w) ps"
  using assms by (auto simp: role_inv_def get_put_obj)

lemma role_inv_take:
  assumes "role_inv w ps" and "p \<in> ran (streams (w_se w))" and "p < length (objs (w_se w))" and "\<not> dispatched (get_obj w p)"
  shows "role_inv (put_obj p ((get_obj w p)\<lparr>dispatched := True\<rparr>) w) (ps @ [p])"
  using assms by (auto simp: role_inv_def get_put_obj)

lemma role_inv_release:
  assumes "role_inv w (xs @ p # ys)" and "p < length (objs (w_se w))"
    and "st = (get_obj w p)\<lparr>dispatched := False\<rparr> \<or> st = (get_obj w p)\<lparr>worker_done := True\<rparr>"
  shows "role_inv (put_obj p st w) (xs @ ys)"
  using assms by (auto simp: role_inv_def get_put_obj)

lemma role_inv_frame:
  assumes "world_inv w" and "evt_frame w w'" and "role_inv w ps"
  shows "role_inv w' ps"
proof -
  have s: "streams (w_se w') = streams (w_se w)" and r: "\<And>p. p < length (objs (w_se w)) \<Longrightarrow> same_role (objs (w_se w) ! p) (objs (w_se w') ! p)"
    using assms(2) by (simp_all add: evt_frame_def Let_def)
  have "dispatched (get_obj w' p) = dispatched (get_obj w p) \<and> worker_done (get_obj w' p) = worker_done (get_obj w p)"
    if "p \<in> ran (streams (w_se w))" for p
    using r [OF ran_lt [OF assms(1) that]] by (simp add: same_role_def get_obj_def)
  then show ?thesis using assms(3) by (simp add: role_inv_def s)
qed

lemma reclaim_inv_same:
  assumes "w_reclaimed w' = w_reclaimed w" and "length (objs (w_se w')) = length (objs (w_se w))" and "streams (w_se w') = streams (w_se w)"
  shows "reclaim_inv w' = reclaim_inv w"
  using assms by (simp add: reclaim_inv_def)

lemma flag_put_ok:
  assumes law: "ng_law L R" and ok: "evt_ok R ng w" and p: "p < length (objs (w_se w))"
    and st: "st = (get_obj w p)\<lparr>dispatched := b\<rparr> \<or> st = (get_obj w p)\<lparr>worker_done := b\<rparr>"
  shows "evt_ok R ng (put_obj p st w)" and "reclaim_inv (put_obj p st w) = reclaim_inv w"
proof -
  have inv: "world_inv w" and r: "R ng None w" using ok by (simp_all add: evt_ok_def)
  have e: "stream_id st = stream_id (get_obj w p)" "qstream st = qstream (get_obj w p)" "write_blocked st = write_blocked (get_obj w p)"
      "resp_same (get_obj w p) st" using st by (auto simp: resp_same_def)
  have "resp_rep (w_heaps w p) st us vs = resp_rep (w_heaps w p) (get_obj w p) us vs" "body_wf l st = body_wf l (get_obj w p)" for us vs l
    using st by (auto simp: body_wf_def resp_rep_def)
  then have so: "stream_ok (h3_max_request_body_size (sess_conf (w_se w))) (w_heaps w p) st"
    using world_invD(7) [OF inv p] by (simp add: stream_ok_def get_obj_def)
  have "blocked_set (w_se (put_obj p st w)) = blocked_set (w_se w)"
    using inv p e by (auto simp: blocked_set_def get_obj_def nth_list_update)
  moreover have "handles (w_se (put_obj p st w)) = handles (w_se w)"
    using p e by (simp add: handles_def map_filter_update_same get_obj_def)
  ultimately have "world_inv (put_obj p st w)"
    using inv p e so by (auto simp: world_inv_def Let_def get_obj_def nth_list_update)
  moreover have "queues_kept w (put_obj p st w)"
    by (rule queues_kept_same) (use p e(4) in \<open>auto simp: get_obj_def nth_list_update\<close>)
  ultimately show "evt_ok R ng (put_obj p st w)" using ng_lawD(7) [OF law r] by (simp add: evt_ok_def)
  show "reclaim_inv (put_obj p st w) = reclaim_inv w" by (rule reclaim_inv_same) simp_all
qed

lemma session_upd_ok:
  assumes law: "ng_law L R" and ok: "evt_ok R ng w"
    and f: "f = (\<lambda>se. se\<lparr>active_tasks := g se\<rparr>) \<or> f = (\<lambda>se. se\<lparr>aborted := True\<rparr>) \<or> f = (\<lambda>se. se\<lparr>goaway_deadline := t\<rparr>)"
  shows "evt_ok R ng (upd_se f w)" and "reclaim_inv (upd_se f w) = reclaim_inv w" and "role_inv (upd_se f w) ps = role_inv w ps"
proof -
  have e: "objs (f (w_se w)) = objs (w_se w)" "streams (f (w_se w)) = streams (w_se w)" "sess_conf (f (w_se w)) = sess_conf (w_se w)"
    "pending_free (f (w_se w)) = pending_free (w_se w)" "pending_h3s (f (w_se w)) = pending_h3s (w_se w)"
    "pending_sid (f (w_se w)) = pending_sid (w_se w)" "blocked_streams (f (w_se w)) = blocked_streams (w_se w)" using f by auto
  have "world_inv (upd_se f w) = world_inv w" by (simp add: world_inv_def Let_def e handles_def blocked_set_def)
  moreover have "queues_kept w (upd_se f w)" by (rule queues_kept_same) (simp_all add: e)
  ultimately show "evt_ok R ng (upd_se f w)" using ok ng_lawD(7) [OF law, of ng None w] by (simp add: evt_ok_def)
  show "reclaim_inv (upd_se f w) = reclaim_inv w" by (rule reclaim_inv_same) (simp_all add: e)
  show "role_inv (upd_se f w) ps = role_inv w ps" by (simp add: role_inv_def get_obj_def e)
qed

subsection \<open>Workers\<close>

lemma resume_effects_agree:
  assumes "worker_law R N"
  shows "R ng None w \<Longrightarrow> R (resume_effects (wo_resume N) es ng) None w"
proof (induction es arbitrary: ng)
  case (Cons e es)
  then show ?case using assms by (cases e) (simp_all add: worker_law_def)
qed simp

definition worker_keeps :: "h3_stream \<Rightarrow> h3_stream \<Rightarrow> bool" where
  "worker_keeps st st' \<longleftrightarrow> quiet_update st st' \<and> qstream st' = qstream st \<and> (\<forall>l. body_wf l st' = body_wf l st)"

lemma append_iteration_keeps:
  assumes "append_iteration m se data len off h st = Some (res, h', st', e)"
  shows "worker_keeps st st'"
  using assms
  by (auto simp: append_iteration_def h3_stream_response_cancel_locked_def chunk_link_def worker_keeps_def quiet_update_def body_wf_def
      Let_def heap_alloc_def split: if_splits option.splits prod.splits)

lemma grows_same: "resp_rep h st us vs \<Longrightarrow> resp_rep h st' us vs \<Longrightarrow> resp_grows h st h st'"
  unfolding resp_grows_def by (intro exI [of _ us] exI [of _ vs] exI [of _ "[]"]) simp

lemma append_iteration_grows:
  assumes rep: "resp_rep h st us vs" and len: "unat len = length data" "off < len"
    and r: "append_iteration m se data len off h st = Some (res, h', st', e)"
  shows "resp_grows h st h' st' \<and> (\<exists>us vs. resp_rep h' st' us vs)"
proof (cases rule: append_iteration_rep [where m = m and se = se, OF rep len, case_names w er q])
  case w
  then show ?thesis using r rep grows_same [OF rep rep] by auto
next
  case (er rv st1 e1)
  then show ?thesis using r grows_same [OF rep er(3)] by auto
next
  case (q n h1 st1 e1)
  then have "h' = h1" "st' = st1" using r by auto
  moreover have "resp_grows h st h1 st1" unfolding resp_grows_def
    by (intro exI [of _ us] exI [of _ vs] exI [of _ "[length h]"] exI [of _ "enqueued e1"]) (use rep q(4,6,7) in simp)
  ultimately show ?thesis using q(4) by blast
qed

lemma worker_put_ok:
  assumes law: "worker_law R N" and ok: "evt_ok R ng w" and p: "p < length (objs (w_se w))"
    and k: "worker_keeps (get_obj w p) st" and g: "resp_grows (w_heaps w p) (get_obj w p) h st" "\<exists>us vs. resp_rep h st us vs"
  shows "evt_ok R ng (put_heap p h (put_obj p st w))"
proof -
  have inv: "world_inv w" and r: "R ng None w" using ok by (simp_all add: evt_ok_def)
  have "stream_ok (h3_max_request_body_size (sess_conf (w_se w))) h st"
    using world_invD(7) [OF inv p] k g(2) by (simp add: stream_ok_def get_obj_def worker_keeps_def)
  then have "world_inv (put_heap p h (put_obj p st w))" using k by (intro world_inv_put [OF inv p]) (simp_all add: worker_keeps_def)
  moreover have "R ng None (put_heap p h (put_obj p st w))" using law r p g(1) unfolding worker_law_def by blast
  ultimately show ?thesis by (simp add: evt_ok_def)
qed

lemma worker_op_ok:
  assumes "worker_op N p (ng, w) (ng', w')" and law: "worker_law R N" and ok: "evt_ok R ng w" and p: "p < length (objs (w_se w))"
  shows "evt_ok R ng' w' \<and> (\<exists>h st. w' = put_heap p h (put_obj p st w) \<and> worker_keeps (get_obj w p) st)"
proof -
  have inv: "world_inv w" using ok by (simp add: evt_ok_def)
  obtain us vs where rep: "resp_rep (w_heaps w p) (get_obj w p) us vs"
    using world_invD(7) [OF inv p] by (auto simp: stream_ok_def get_obj_def)
  have res: "evt_ok R (resume_effects (wo_resume N) es ng1) w1" if "evt_ok R ng1 w1" for es ng1 w1
    using that resume_effects_agree [OF law] by (simp add: evt_ok_def)
  have same: "evt_ok R ng (put_obj p st w)" if k: "worker_keeps (get_obj w p) st" and r: "resp_rep (w_heaps w p) st us vs" for st
    using worker_put_ok [OF law ok p k grows_same [OF rep r]] r by (auto simp: put_heap_same)
  show ?thesis
    using assms(1)
  proof cases
    case (op_append len data off m res' h st es)
    from append_iteration_grows [OF rep op_append(3-5)] append_iteration_keeps [OF op_append(5)]
    have "evt_ok R ng (put_heap p h (put_obj p st w))" by (intro worker_put_ok [OF law ok p]) simp_all
    then show ?thesis using res op_append append_iteration_keeps [OF op_append(5)] by blast
  next
    case (op_submit nva rv h st se es)
    note s = submit_result [OF op_submit(2)]
    have k: "worker_keeps (get_obj w p) st" and ng': "ng' = ng \<or> ng' = fst (wo_submit N ng (stream_id (get_obj w p)) nva)"
      using op_submit(2) by (auto simp: submit_response_nva_def h3_stream_response_cancel_locked_def worker_keeps_def quiet_update_def
          body_wf_def split: if_splits prod.splits)
    have w': "w' = put_obj p st w" using op_submit(1) s(1) by (simp add: put_heap_same)
    have "evt_ok R ng w'" unfolding w' by (rule same [OF k]) (use s(7) rep in simp)
    then have "evt_ok R ng' w'" using ng' law by (auto simp: evt_ok_def worker_law_def)
    then show ?thesis using k op_submit(1) by blast
  next
    case (op_complete st es)
    then have k: "worker_keeps (get_obj w p) st" and r: "resp_rep (w_heaps w p) st us vs"
      using rep by (auto simp: h3_stream_response_complete_def worker_keeps_def quiet_update_def body_wf_def resp_rep_def)
    have "w' = put_heap p (w_heaps w p) (put_obj p st w)" using op_complete by (simp add: put_heap_same)
    moreover have "evt_ok R ng' w'" using res [OF same [OF k r]] op_complete by simp
    ultimately show ?thesis using k by blast
  next
    case (op_read bb mode n rv st bb')
    from serve_part [OF op_read(3)] obtain off where st: "st = (get_obj w p)\<lparr>request_body_offset := off\<rparr>" by blast
    then have k: "worker_keeps (get_obj w p) st" and r: "resp_rep (w_heaps w p) st us vs"
      using rep by (auto simp: worker_keeps_def quiet_update_def body_wf_def resp_rep_def)
    have "w' = put_heap p (w_heaps w p) (put_obj p st w)" using op_read by (simp add: put_heap_same)
    moreover have "evt_ok R ng' w'" using same [OF k r] op_read by simp
    ultimately show ?thesis using k by blast
  qed
qed

subsection \<open>The event thread\<close>

lemma free_handle_ok:
  assumes law: "ng_law L R" and ok: "evt_ok R ng w" and q: "q \<notin> held w"
  shows "evt_ok R ng (free_handle L q w)"
proof -
  have inv: "world_inv w" using ok by (simp add: evt_ok_def)
  have "distinct (handles (w_se w) @ pending_free (w_se w) @ w_freed w @ [q])"
    using world_invD(6) [OF inv] q by (auto simp: held_def)
  then have "world_inv (free_handle L q w)" using inv by (simp add: world_inv_def free_handle_def Let_def)
  moreover have "queues_kept w (free_handle L q w)" by (rule queues_kept_same) (simp_all add: free_handle_def)
  ultimately show ?thesis using ok ng_lawD(7) [OF law] by (auto simp: evt_ok_def)
qed

lemma free_handle_simps [simp]:
  "w_se (free_handle L q w) = w_se w" "get_obj (free_handle L q w) p = get_obj w p" "w_reclaimed (free_handle L q w) = w_reclaimed w"
  "reclaim_inv (free_handle L q w) = reclaim_inv w" "role_inv (free_handle L q w) ps = role_inv w ps"
  by (simp_all add: free_handle_def get_obj_def reclaim_inv_def role_inv_def)

lemma accept_stream_ok:
  assumes law: "ng_law L R" and ok: "evt_ok R ng w" and q: "q \<notin> held w" and ri: "reclaim_inv w" and ro: "role_inv w ps"
    and a: "accept_stream L True cond_ok q w = Some w'"
  shows "evt_ok R ng w' \<and> reclaim_inv w' \<and> role_inv w' ps \<and> ran (streams (w_se w)) \<subseteq> ran (streams (w_se w')) \<and>
    active_tasks (w_se w') = active_tasks (w_se w) \<and> ngh3 (w_se w') = ngh3 (w_se w)"
proof -
  let ?sid = "h3q_stream_id (lib_ssl L) (w_ssl w) (Some q)"
  have inv: "world_inv w" using ok by (simp add: evt_ok_def)
  consider (f) "w' = free_handle L q w" | (t) p where "track_stream True True ?sid q w = Some (Some p, w')"
    using a by (auto simp: accept_stream_def Let_def track_stream_def h3_stream_find_def split: if_splits option.splits)
  then show ?thesis
  proof cases
    case f
    then show ?thesis using free_handle_ok [OF law ok q] ri ro by simp
  next
    case (t p)
    have fq: "q \<notin> set (handles (w_se w) @ pending_free (w_se w) @ w_freed w)" using q by (simp add: held_def)
    have k: "world_inv w'" "queues_kept w w'" using track_stream_ok [OF inv fq t] by simp_all
    then have ok': "evt_ok R ng w'" using ok ng_lawD(7) [OF law] by (auto simp: evt_ok_def)
    show ?thesis
    proof (cases "streams (w_se w) ?sid")
      case (Some p')
      then have w': "w' = put_obj p' ((get_obj w p')\<lparr>qstream := Some q\<rparr>) w" using t by (auto simp: track_stream_def h3_stream_find_def)
      have "p' < length (objs (w_se w))" using world_invD(3) [OF inv Some] by simp
      then show ?thesis using ok' ri ro role_inv_put [OF ro] reclaim_inv_same [of w' w] by (simp add: w')
    next
      case None
      let ?n = "length (objs (w_se w))" and ?st = "new_stream (sess_conf (w_se w)) ?sid q"
      have w': "w' = upd_se (\<lambda>se. se\<lparr>objs := objs se @ [?st], streams := (streams se)(?sid \<mapsto> ?n)\<rparr>) w"
        using t None by (auto simp: track_stream_def h3_stream_find_def Let_def)
      have g: "get_obj w' p = (if p < ?n then get_obj w p else ?st)" if "p \<le> ?n" for p using that by (simp add: w' get_obj_def nth_append)
      have rn: "ran (streams (w_se w')) = insert ?n (ran (streams (w_se w)))" using None by (simp add: w')
      have lt: "p < ?n" if "p \<in> ran (streams (w_se w))" for p by (rule ran_lt [OF inv that])
      have fl: "\<not> worker_done ?st" by (simp add: new_stream_def zero_stream_def)
      have "role_inv w' ps" using ro fl lt by (auto simp: role_inv_def rn g less_imp_le)
      moreover have "reclaim_inv w'" using ri by (auto simp: reclaim_inv_def rn) (auto simp: w')
      ultimately show ?thesis using ok' rn by (auto simp: w')
    qed
  qed
qed

lemma drain_ok:
  assumes law: "libs_law L R sent" and ok: "evt_ok R ng w" and ri: "reclaim_inv w" and ro: "role_inv w ps"
    and d: "drain_ready_streams L (ng, w) = Some (completed, a)"
  shows "evt_ok R (pa_ng a) (pa_w a) \<and> reclaim_inv (pa_w a) \<and> role_inv (pa_w a) ps \<and>
    set completed \<subseteq> ran (streams (w_se (pa_w a))) \<and> active_tasks (w_se (pa_w a)) = active_tasks (w_se w) \<and>
    ngh3 (w_se (pa_w a)) = ngh3 (w_se w)"
proof -
  have inv: "world_inv w" "R ng None w" using ok by (simp_all add: evt_ok_def)
  obtain completed' a' b where r: "drain_ready_streams L (ng, w) = Some (completed', a')"
    "world_inv (pa_w a')" "R (pa_ng a') None (pa_w a')" "reclaim_inv (pa_w a')"
    "\<forall>p \<in> set completed'. p \<in> ran (streams (w_se (pa_w a'))) \<and> request_ready (get_obj (pa_w a') p)"
    "pass_ok R w (w_stats w) b" "reclaim_frame (pa_w b) (pa_w a')"
    "ran (streams (w_se (pa_w a'))) = {p \<in> ran (streams (w_se w)). \<not> reclaimable (get_obj (pa_w b) p)}"
    "\<forall>p \<in> ran (streams (w_se (pa_w a'))). get_obj (pa_w a') p = get_obj (pa_w b) p"
    by (rule drain_pass_ok [OF law inv ri])
  have e: "completed' = completed" "a' = a" using d r(1) by simp_all
  have fr: "evt_frame w (pa_w b)" using r(6) by (simp add: pass_ok_def evt_keeps_def)
  have sb: "streams (w_se (pa_w b)) = streams (w_se w)" using fr by (simp add: evt_frame_def Let_def)
  have rb: "role_inv (pa_w b) ps" by (rule role_inv_frame [OF inv(1) fr ro])
  have own: "p \<in> ran (streams (w_se (pa_w a)))" if "p \<in> set ps" for p
    using rb that r(8) sb by (auto simp: role_inv_def reclaimable_def e)
  have "role_inv (pa_w a) ps"
    unfolding role_inv_def
  proof (intro conjI ballI impI)
    fix p assume p: "p \<in> ran (streams (w_se (pa_w a)))" and "worker_done (get_obj (pa_w a) p)"
    then show "dispatched (get_obj (pa_w a) p)" using rb r(8,9) sb by (auto simp: role_inv_def e)
  qed (use rb own r(9) in \<open>auto simp: role_inv_def e\<close>)
  then show ?thesis using r(2-5,7) fr by (auto simp: evt_ok_def e reclaim_frame_def evt_frame_def Let_def)
qed

lemma flush_ok:
  assumes law: "libs_law L R sent" and ok: "evt_ok R ng w" and f: "flush_nghttp3 L fuel (ng, w) = Done (ng', w')"
  shows "evt_ok R ng' w' \<and> evt_frame w w'"
proof (cases "ngh3_dead (w_se w)")
  case True
  then show ?thesis using f ok by (simp add: flush_nghttp3_def)
next
  case False
  then have "ngh3 (w_se w)" using f by (auto simp: flush_nghttp3_def split: if_splits)
  from flush_keeps(2) [OF law ok this f] show ?thesis by (simp add: evt_keeps_def)
qed

subsection \<open>Every step keeps the invariant\<close>

lemma task_owners_simps [simp]:
  "task_owners [] = []" "task_owners (xs @ ys) = task_owners xs @ task_owners ys"
  "task_owners ((p, ph) # ts) = (if ph = Leaving_task then task_owners ts else p # task_owners ts)"
  by (simp_all add: task_owners_def)

lemma pc_simps [simp]:
  "pc_owner Ev_idle = []" "pc_owner (Ev_reserved p) = [p]" "pc_owner (Ev_counted p) = [p]" "pc_owner Ev_unpushed = []"
  "pc_count Ev_idle = 0" "pc_count (Ev_reserved p) = 0" "pc_count (Ev_counted p) = 1" "pc_count Ev_unpushed = 1"
  by (simp_all add: pc_owner_def pc_count_def)

lemma sys_invD:
  assumes "sys_inv R s" and "\<not> sy_gone s"
  shows "evt_ok R (sy_ng s) (sy_w s)" and "reclaim_inv (sy_w s)" and "role_inv (sy_w s) (owners s)"
    and "set (sy_todo s) \<subseteq> ran (streams (w_se (sy_w s)))"
    and "unat (active_tasks (w_se (sy_w s))) = length (sy_tasks s) + pc_count (sy_pc s)" and "world_inv (sy_w s)"
    and "p \<in> set (owners s) \<Longrightarrow> p < length (objs (w_se (sy_w s)))" and "ngh3 (w_se (sy_w s))"
  using assms ran_lt by (auto simp: sys_inv_def evt_ok_def role_inv_def)

lemma sys_invI:
  assumes "\<not> sy_gone s" and "evt_ok R (sy_ng s) (sy_w s)" and "ngh3 (w_se (sy_w s))" and "reclaim_inv (sy_w s)" and "role_inv (sy_w s) (owners s)"
    and "set (sy_todo s) \<subseteq> ran (streams (w_se (sy_w s)))"
    and "unat (active_tasks (w_se (sy_w s))) = length (sy_tasks s) + pc_count (sy_pc s)"
  shows "sys_inv R s"
  using assms by (simp add: sys_inv_def)

lemma gone_no_task: "sys_inv R s \<Longrightarrow> sy_tasks s \<noteq> [] \<Longrightarrow> \<not> sy_gone s"
  by (auto simp: sys_inv_def)

text \<open>Giving a stream back, by whoever owns it.\<close>

lemma release_ok:
  assumes law: "ng_law L R" and inv: "sys_inv R s" and g: "\<not> sy_gone s" and o: "owners s = xs @ p # ys"
    and st: "st = (get_obj (sy_w s) p)\<lparr>dispatched := False\<rparr> \<or> st = (get_obj (sy_w s) p)\<lparr>worker_done := True\<rparr>"
  shows "evt_ok R (sy_ng s) (put_obj p st (sy_w s))" and "reclaim_inv (put_obj p st (sy_w s))"
    and "role_inv (put_obj p st (sy_w s)) (xs @ ys)"
proof -
  note d = sys_invD [OF inv g]
  have p: "p < length (objs (w_se (sy_w s)))" using d(7) [of p] o by simp
  show "evt_ok R (sy_ng s) (put_obj p st (sy_w s))" "reclaim_inv (put_obj p st (sy_w s))"
    using flag_put_ok [OF law d(1) p, of st] st d(2) by blast+
  show "role_inv (put_obj p st (sy_w s)) (xs @ ys)" using role_inv_release [OF _ p st] d(3) o by simp
qed

lemma unat_inc32: "unat (a :: 32 word) + 1 < 2 ^ 32 \<Longrightarrow> unat (a + 1) = unat a + 1"
  by (simp add: unat_word_ariths)

lemma unat_dec32: "unat (a :: 32 word) = Suc n \<Longrightarrow> unat (a - 1) = n"
  by (metis add_diff_cancel_left' plus_1_eq_Suc unat_minus_one unat_eq_zero nat.distinct(1))

lemma event_step_inv:
  assumes law: "libs_law L R sent" and inv: "sys_inv R s"
  shows "\<not> sy_gone s \<Longrightarrow> sy_pc s = Ev_idle \<Longrightarrow> q \<notin> held (sy_w s) \<Longrightarrow> accept_stream L True cond_ok q (sy_w s) = Some w \<Longrightarrow>
      sys_inv R (s\<lparr>sy_w := w\<rparr>)"
    and "\<not> sy_gone s \<Longrightarrow> drain_ready_streams L (sy_ng s, sy_w s) = Some (completed, a) \<Longrightarrow>
      sys_inv R (s\<lparr>sy_ng := pa_ng a, sy_w := pa_w a, sy_todo := completed\<rparr>)"
    and "\<not> sy_gone s \<Longrightarrow> flush_nghttp3 L fuel (sy_ng s, sy_w s) = Done (ng, w) \<Longrightarrow> sys_inv R (s\<lparr>sy_ng := ng, sy_w := w\<rparr>)"
    and "\<not> sy_gone s \<Longrightarrow> sys_inv R (s\<lparr>sy_w := upd_se (\<lambda>se. se\<lparr>aborted := True\<rparr>) (sy_w s)\<rparr>)"
    and "\<not> sy_gone s \<Longrightarrow> sys_inv R (s\<lparr>sy_w := upd_se (\<lambda>se. se\<lparr>goaway_deadline := t\<rparr>) (sy_w s)\<rparr>)"
    and "\<not> sy_gone s \<Longrightarrow> sys_inv R (s\<lparr>sy_w := (sy_w s)\<lparr>w_ssl := x, w_stats := y\<rparr>\<rparr>)"
proof -
  note N = libs_lawD(1) [OF law]
  assume g: "\<not> sy_gone s"
  note d = sys_invD [OF inv g]
  show "sys_inv R (s\<lparr>sy_w := w\<rparr>)" if "q \<notin> held (sy_w s)" "accept_stream L True cond_ok q (sy_w s) = Some w"
    using accept_stream_ok [OF N d(1) that(1) d(2,3) that(2)] d(4,5,8) g by (intro sys_invI) (auto simp: owners_def)
  show "sys_inv R (s\<lparr>sy_ng := pa_ng a, sy_w := pa_w a, sy_todo := completed\<rparr>)"
    if "drain_ready_streams L (sy_ng s, sy_w s) = Some (completed, a)"
    using drain_ok [OF law d(1-3) that] d(5,8) g by (intro sys_invI) (auto simp: owners_def)
  show "sys_inv R (s\<lparr>sy_ng := ng, sy_w := w\<rparr>)" if f: "flush_nghttp3 L fuel (sy_ng s, sy_w s) = Done (ng, w)"
  proof -
    from flush_ok [OF law d(1) f] have e: "evt_ok R ng w" "evt_frame (sy_w s) w" by simp_all
    then have s: "streams (w_se w) = streams (w_se (sy_w s))" "w_reclaimed w = w_reclaimed (sy_w s)"
      "length (objs (w_se w)) = length (objs (w_se (sy_w s)))" "active_tasks (w_se w) = active_tasks (w_se (sy_w s))"
      "ngh3 (w_se w) = ngh3 (w_se (sy_w s))"
      by (simp_all add: evt_frame_def Let_def)
    show ?thesis using e(1) role_inv_frame [OF d(6) e(2) d(3)] reclaim_inv_same [OF s(2,3,1)] d(2,4,5,8) g s
      by (intro sys_invI) (auto simp: owners_def)
  qed
  show "sys_inv R (s\<lparr>sy_w := upd_se (\<lambda>se. se\<lparr>aborted := True\<rparr>) (sy_w s)\<rparr>)"
    using session_upd_ok [OF N d(1), of "\<lambda>se. se\<lparr>aborted := True\<rparr>"] d(2-5,8) g by (intro sys_invI) (auto simp: owners_def)
  show "sys_inv R (s\<lparr>sy_w := upd_se (\<lambda>se. se\<lparr>goaway_deadline := t\<rparr>) (sy_w s)\<rparr>)"
    using session_upd_ok [where f = "\<lambda>se. se\<lparr>goaway_deadline := t\<rparr>" and t = t, OF N d(1)] d(2-5,8) g by (intro sys_invI) (auto simp: owners_def)
  have "queues_kept (sy_w s) ((sy_w s)\<lparr>w_ssl := x, w_stats := y\<rparr>)" by (rule queues_kept_same) simp_all
  then have "evt_ok R (sy_ng s) ((sy_w s)\<lparr>w_ssl := x, w_stats := y\<rparr>)" using d(1) ng_lawD(7) [OF N] by (auto simp: evt_ok_def)
  then show "sys_inv R (s\<lparr>sy_w := (sy_w s)\<lparr>w_ssl := x, w_stats := y\<rparr>\<rparr>)"
    using d(2-5,8) g by (intro sys_invI) (auto simp: owners_def reclaim_inv_def role_inv_def get_obj_def)
qed

lemma closing_step_inv:
  assumes "worker_law R N" and "sys_inv R s" and "\<not> sy_gone s"
  shows "sys_inv R (s\<lparr>sy_ng := wo_submit_shutdown_notice N (sy_ng s)\<rparr>)" and "sys_inv R (s\<lparr>sy_ng := wo_shutdown N (sy_ng s)\<rparr>)"
  using assms by (simp_all add: sys_inv_def worker_law_def evt_ok_def owners_def)

lemma handover_step_inv:
  assumes law: "ng_law L R" and inv: "sys_inv R s" and g: "\<not> sy_gone s"
  shows "sy_pc s = Ev_idle \<Longrightarrow> sy_todo s = p # ps \<Longrightarrow> reserve p (sy_w s) = (False, w) \<Longrightarrow> sys_inv R (s\<lparr>sy_w := w, sy_todo := ps\<rparr>)"
    and "sy_pc s = Ev_idle \<Longrightarrow> sy_todo s = p # ps \<Longrightarrow> reserve p (sy_w s) = (True, w) \<Longrightarrow>
      sys_inv R (s\<lparr>sy_w := w, sy_todo := ps, sy_pc := Ev_reserved p\<rparr>)"
    and "sy_pc s = Ev_reserved p \<Longrightarrow> sys_inv R (s\<lparr>sy_w := unreserve p (sy_w s), sy_pc := Ev_idle\<rparr>)"
    and "sy_pc s = Ev_reserved p \<Longrightarrow> length (sy_tasks s) + 1 < 2 ^ 32 \<Longrightarrow> sys_inv R (s\<lparr>sy_w := count_task (sy_w s), sy_pc := Ev_counted p\<rparr>)"
    and "sy_pc s = Ev_counted p \<Longrightarrow> sys_inv R (s\<lparr>sy_tasks := sy_tasks s @ [(p, Queued_task)], sy_pc := Ev_idle\<rparr>)"
    and "sy_pc s = Ev_counted p \<Longrightarrow> sys_inv R (s\<lparr>sy_w := unreserve p (sy_w s), sy_pc := Ev_unpushed\<rparr>)"
    and "sy_pc s = Ev_unpushed \<Longrightarrow> sys_inv R (s\<lparr>sy_w := uncount_task (sy_w s), sy_pc := Ev_idle\<rparr>)"
proof -
  note d = sys_invD [OF inv g]
  have cnt: "evt_ok R (sy_ng s) (upd_se (\<lambda>se. se\<lparr>active_tasks := f se\<rparr>) (sy_w s))"
      "reclaim_inv (upd_se (\<lambda>se. se\<lparr>active_tasks := f se\<rparr>) (sy_w s))"
      "role_inv (upd_se (\<lambda>se. se\<lparr>active_tasks := f se\<rparr>) (sy_w s)) qs = role_inv (sy_w s) qs" for f qs
    using session_upd_ok [OF law d(1), of "\<lambda>se. se\<lparr>active_tasks := f se\<rparr>" f] d(2) by simp_all
  have rel: "evt_ok R (sy_ng s) (unreserve p (sy_w s))" "reclaim_inv (unreserve p (sy_w s))"
      "role_inv (unreserve p (sy_w s)) (task_owners (sy_tasks s))" if "sy_pc s = Ev_reserved p \<or> sy_pc s = Ev_counted p"
    using release_ok [OF law inv g, of "task_owners (sy_tasks s)" p "[]"] that unfolding unreserve_def by (auto simp: owners_def)
  show "sys_inv R (s\<lparr>sy_w := w, sy_todo := ps\<rparr>)" if "sy_pc s = Ev_idle" "sy_todo s = p # ps" "reserve p (sy_w s) = (False, w)"
    using that d g by (intro sys_invI) (auto simp: owners_def reserve_def split: if_splits)
  show "sys_inv R (s\<lparr>sy_w := w, sy_todo := ps, sy_pc := Ev_reserved p\<rparr>)"
    if "sy_pc s = Ev_idle" "sy_todo s = p # ps" "reserve p (sy_w s) = (True, w)"
  proof -
    have w: "w = put_obj p ((get_obj (sy_w s) p)\<lparr>dispatched := True\<rparr>) (sy_w s)" "\<not> dispatched (get_obj (sy_w s) p)"
      using that(3) by (auto simp: reserve_def split: if_splits)
    have p: "p \<in> ran (streams (w_se (sy_w s)))" using d(4) that(2) by simp
    note pl = ran_lt [OF d(6) p]
    have "role_inv w (owners s @ [p])" using role_inv_take [OF d(3) p pl w(2)] w(1) by simp
    then show ?thesis using flag_put_ok [OF law d(1) pl, of _ True] w(1) d(2,4,5,8) that g
      by (intro sys_invI) (auto simp: owners_def)
  qed
  show "sys_inv R (s\<lparr>sy_w := unreserve p (sy_w s), sy_pc := Ev_idle\<rparr>)" if "sy_pc s = Ev_reserved p"
    using rel that d(4,5,8) g by (intro sys_invI) (auto simp: owners_def unreserve_def)
  show "sys_inv R (s\<lparr>sy_w := unreserve p (sy_w s), sy_pc := Ev_unpushed\<rparr>)" if "sy_pc s = Ev_counted p"
    using rel that d(4,5,8) g by (intro sys_invI) (auto simp: owners_def unreserve_def)
  show "sys_inv R (s\<lparr>sy_w := count_task (sy_w s), sy_pc := Ev_counted p\<rparr>)"
    if "sy_pc s = Ev_reserved p" "length (sy_tasks s) + 1 < 2 ^ 32"
    using cnt(1,2) [of "\<lambda>se. active_tasks se + 1"] cnt(3) [of "\<lambda>se. active_tasks se + 1" "owners s"] that d(3-5,8) g unat_inc32 [of "active_tasks (w_se (sy_w s))"] by (intro sys_invI) (auto simp: owners_def count_task_def)
  show "sys_inv R (s\<lparr>sy_tasks := sy_tasks s @ [(p, Queued_task)], sy_pc := Ev_idle\<rparr>)" if "sy_pc s = Ev_counted p"
    using that d g by (intro sys_invI) (auto simp: owners_def)
  show "sys_inv R (s\<lparr>sy_w := uncount_task (sy_w s), sy_pc := Ev_idle\<rparr>)" if "sy_pc s = Ev_unpushed"
    using cnt(1,2) [of "\<lambda>se. active_tasks se - 1"] cnt(3) [of "\<lambda>se. active_tasks se - 1" "owners s"] that d(3-5,8) g unat_dec32 [of "active_tasks (w_se (sy_w s))" "length (sy_tasks s)"]
    by (intro sys_invI) (auto simp: owners_def uncount_task_def)
qed

lemma worker_step_inv:
  assumes law: "ng_law L R" "worker_law R N" and inv: "sys_inv R s"
  shows "sy_tasks s = xs @ (p, Queued_task) # ys \<Longrightarrow> sys_inv R (s\<lparr>sy_tasks := xs @ (p, Running_task) # ys\<rparr>)"
    and "(p, Running_task) \<in> set (sy_tasks s) \<Longrightarrow> worker_op N p (sy_ng s, sy_w s) (ng, w) \<Longrightarrow> sys_inv R (s\<lparr>sy_ng := ng, sy_w := w\<rparr>)"
    and "sy_tasks s = xs @ (p, Running_task) # ys \<Longrightarrow>
      sys_inv R (s\<lparr>sy_w := unreserve p (sy_w s), sy_tasks := xs @ (p, Leaving_task) # ys\<rparr>)"
    and "sy_tasks s = xs @ (p, Running_task) # ys \<Longrightarrow>
      sys_inv R (s\<lparr>sy_w := put_obj p ((get_obj (sy_w s) p)\<lparr>worker_done := True\<rparr>) (sy_w s), sy_tasks := xs @ (p, Leaving_task) # ys\<rparr>)"
    and "sy_tasks s = xs @ (p, Leaving_task) # ys \<Longrightarrow> sys_inv R (s\<lparr>sy_w := uncount_task (sy_w s), sy_tasks := xs @ ys\<rparr>)"
proof -
  note gone = gone_no_task [OF inv]
  show "sys_inv R (s\<lparr>sy_tasks := xs @ (p, Running_task) # ys\<rparr>)" if t: "sy_tasks s = xs @ (p, Queued_task) # ys"
  proof -
    have g: "\<not> sy_gone s" using gone t by simp
    show ?thesis using sys_invD [OF inv g] t g by (intro sys_invI) (auto simp: owners_def)
  qed
  show "sys_inv R (s\<lparr>sy_ng := ng, sy_w := w\<rparr>)" if t: "(p, Running_task) \<in> set (sy_tasks s)" "worker_op N p (sy_ng s, sy_w s) (ng, w)"
  proof -
    have g: "\<not> sy_gone s" using gone t by (cases "sy_tasks s") simp_all
    note d = sys_invD [OF inv g]
    have "p \<in> set (owners s)" using t(1) by (force simp: owners_def task_owners_def)
    then have p: "p < length (objs (w_se (sy_w s)))" by (rule d(7))
    from worker_op_ok [OF t(2) law(2) d(1) p] obtain h st where
      k: "evt_ok R ng w" "w = put_heap p h (put_obj p st (sy_w s))" "worker_keeps (get_obj (sy_w s) p) st" by blast
    have "role_inv (put_obj p st (sy_w s)) (owners s)"
      by (rule role_inv_put [OF d(3) p]) (use k(3) in \<open>simp_all add: worker_keeps_def quiet_update_def\<close>)
    then have "role_inv w (owners s)" by (simp add: k(2) role_inv_def get_obj_def)
    moreover have "reclaim_inv w" using d(2) reclaim_inv_same [of w "sy_w s"] by (simp add: k(2))
    ultimately show ?thesis using k(1,2) d(4,5,8) g by (intro sys_invI) (auto simp: owners_def)
  qed
  have rel: "sys_inv R (s\<lparr>sy_w := put_obj p st (sy_w s), sy_tasks := xs @ (p, Leaving_task) # ys\<rparr>)"
    if t: "sy_tasks s = xs @ (p, Running_task) # ys"
      and st: "st = (get_obj (sy_w s) p)\<lparr>dispatched := False\<rparr> \<or> st = (get_obj (sy_w s) p)\<lparr>worker_done := True\<rparr>" for st
  proof -
    have g: "\<not> sy_gone s" using gone t by simp
    have o: "owners s = task_owners xs @ p # (task_owners ys @ pc_owner (sy_pc s))" using t by (simp add: owners_def)
    show ?thesis using release_ok [OF law(1) inv g o st] sys_invD(4,5,8) [OF inv g] t g by (intro sys_invI) (auto simp: owners_def)
  qed
  show "sys_inv R (s\<lparr>sy_w := unreserve p (sy_w s), sy_tasks := xs @ (p, Leaving_task) # ys\<rparr>)"
    "sys_inv R (s\<lparr>sy_w := put_obj p ((get_obj (sy_w s) p)\<lparr>worker_done := True\<rparr>) (sy_w s), sy_tasks := xs @ (p, Leaving_task) # ys\<rparr>)"
    if "sy_tasks s = xs @ (p, Running_task) # ys"
    unfolding unreserve_def by (rule rel [OF that], simp)+
  show "sys_inv R (s\<lparr>sy_w := uncount_task (sy_w s), sy_tasks := xs @ ys\<rparr>)" if t: "sy_tasks s = xs @ (p, Leaving_task) # ys"
  proof -
    have g: "\<not> sy_gone s" using gone t by simp
    note d = sys_invD [OF inv g]
    have "unat (active_tasks (w_se (sy_w s))) = Suc (length (xs @ ys) + pc_count (sy_pc s))" using d(5) t by simp
    from unat_dec32 [OF this] session_upd_ok [OF law(1) d(1), of "\<lambda>se. se\<lparr>active_tasks := active_tasks se - 1\<rparr>" "\<lambda>se. active_tasks se - 1"] d(2-4,8) t g
    show ?thesis by (intro sys_invI) (auto simp: owners_def uncount_task_def)
  qed
qed

lemma sys_step_inv:
  assumes law: "libs_law L R sent" "worker_law R N" and step: "sys_step L N s s'" and inv: "sys_inv R s"
  shows "sys_inv R s'"
  using step
proof cases
  case event
  then show ?thesis
  proof cases
    case (destroy cs w)
    then have "sy_tasks s = []" using sys_invD(5) [OF inv destroy(2)] by simp
    then show ?thesis using destroy by (simp add: sys_inv_def)
  qed (use event_step_inv [OF law(1) inv] handover_step_inv [OF libs_lawD(1) [OF law(1)] inv] closing_step_inv [OF law(2) inv] in \<open>simp_all\<close>)
next
  case worker
  then show ?thesis by cases (use worker_step_inv [OF libs_lawD(1) [OF law(1)] law(2) inv] in \<open>simp_all\<close>)
qed

lemma sys_reachable_inv:
  assumes "libs_law L R sent" and "worker_law R N" and "(sys_step L N)\<^sup>*\<^sup>* s0 s" and "sys_inv R s0"
  shows "sys_inv R s"
  using assms(3,4) by (induction rule: rtranclp_induct) (auto intro: sys_step_inv [OF assms(1,2)])

section \<open>Correctness\<close>

text \<open>A session before its first request.\<close>

definition sys_start :: "('o, 'ng) agree \<Rightarrow> ('o, 'ng) sys \<Rightarrow> bool" where
  "sys_start R s \<longleftrightarrow> \<not> sy_gone s \<and> sy_tasks s = [] \<and> sy_pc s = Ev_idle \<and> evt_ok R (sy_ng s) (sy_w s) \<and> ngh3 (w_se (sy_w s)) \<and>
     reclaim_inv (sy_w s) \<and> active_tasks (w_se (sy_w s)) = 0 \<and> set (sy_todo s) \<subseteq> ran (streams (w_se (sy_w s))) \<and>
     (\<forall>p \<in> ran (streams (w_se (sy_w s))). \<not> worker_done (get_obj (sy_w s) p))"

lemma sys_start_inv: "sys_start R s \<Longrightarrow> sys_inv R s"
  by (simp add: sys_start_def sys_inv_def role_inv_def owners_def)

text \<open>
  C35: However the event thread and the workers of a session are interleaved, a stream that a
  worker has been given and has not signed off stays tracked, is not given up, stays marked as
  handed over, and has no other worker; the task counter is the number of tasks; and when the
  session has been destroyed there is no task left. So no operation of a worker ever touches
  a stream or a session that was released, and none of the next operations of either side is
  undefined: draining and destroying complete, and a running worker can append.
\<close>

theorem workers_keep_their_streams:
  assumes "libs_law L R sent" and "worker_law R N" and "sys_start R s0" and "(sys_step L N)\<^sup>*\<^sup>* s0 s"
  shows "(sy_gone s \<longrightarrow> sy_tasks s = []) \<and> distinct (task_owners (sy_tasks s)) \<and>
    (\<not> sy_gone s \<and> sy_pc s = Ev_idle \<longrightarrow> unat (active_tasks (w_se (sy_w s))) = length (sy_tasks s)) \<and>
    (\<forall>p \<in> set (task_owners (sy_tasks s)). p \<in> ran (streams (w_se (sy_w s))) \<and> p \<notin> set (w_reclaimed (sy_w s)) \<and>
       dispatched (get_obj (sy_w s) p) \<and> \<not> worker_done (get_obj (sy_w s) p) \<and>
       (\<forall>m data len off. unat len = length data \<longrightarrow> off < len \<longrightarrow>
          append_iteration m (w_se (sy_w s)) data len off (w_heaps (sy_w s) p) (get_obj (sy_w s) p) \<noteq> None)) \<and>
    (\<not> sy_gone s \<longrightarrow> drain_ready_streams L (sy_ng s, sy_w s) \<noteq> None \<and> h3_session_destroy L (sy_w s) \<noteq> None)"
proof -
  have inv: "sys_inv R s" by (rule sys_reachable_inv [OF assms(1,2,4) sys_start_inv [OF assms(3)]])
  show ?thesis
  proof (cases "sy_gone s")
    case True
    then show ?thesis using inv by (simp add: sys_inv_def)
  next
    case False
    note d = sys_invD [OF inv False]
    have ok: "world_inv (sy_w s)" "R (sy_ng s) None (sy_w s)" using d(1) by (simp_all add: evt_ok_def)
    have "drain_ready_streams L (sy_ng s, sy_w s) \<noteq> None" by (rule drain_pass_ok [OF assms(1) ok d(2)]) simp
    moreover have "h3_session_destroy L (sy_w s) \<noteq> None" using session_destroy_ok [OF assms(1) ok(1)] by auto
    moreover have "append_iteration m (w_se (sy_w s)) data len off (w_heaps (sy_w s) p) (get_obj (sy_w s) p) \<noteq> None"
      if "p \<in> set (task_owners (sy_tasks s))" "unat len = length data" "off < len" for p m data len off
    proof -
      have "p < length (objs (w_se (sy_w s)))" using d(7) [of p] that(1) by (simp add: owners_def)
      from world_invD(7) [OF ok(1) this] obtain us vs where "resp_rep (w_heaps (sy_w s) p) (get_obj (sy_w s) p) us vs"
        by (auto simp: stream_ok_def get_obj_def)
      then show ?thesis
        by (rule append_iteration_rep [where m = m and se = "w_se (sy_w s)", OF _ that(2,3)]) simp_all
    qed
    ultimately show ?thesis using False d(2,3,5) by (auto simp: role_inv_def owners_def reclaim_inv_def)
  qed
qed

text \<open>
  Handing a request over is a run of these steps, whether the stream had been handed over
  before, memory or the pool's queue gives out, or the task is queued.
\<close>

lemma process_request_run:
  assumes "\<not> sy_gone s" and "sy_pc s = Ev_idle" and "sy_todo s = p # ps" and "length (sy_tasks s) + 1 < 2 ^ 32"
    and "h3_process_request pool_ok push_ok logio c p (sy_w s, queue) = (w', queue')"
  shows "\<exists>new. queue' = queue @ new \<and>
    (sys_step L N)\<^sup>*\<^sup>* s (s\<lparr>sy_w := w', sy_todo := ps, sy_tasks := sy_tasks s @ map (\<lambda>t. (fst t, Queued_task)) new\<rparr>)"
proof -
  obtain b w1 where r: "reserve p (sy_w s) = (b, w1)" by fastforce
  show ?thesis
  proof (cases b)
    case False
    have "sys_step L N s (s\<lparr>sy_w := w1, sy_todo := ps\<rparr>)"
      by (intro sys_step.event event_step.skip) (use assms(1-3) r False in simp_all)
    moreover have "w' = w1" "queue' = queue" using assms(5) r False by (simp_all add: h3_process_request_def)
    ultimately show ?thesis by (intro exI [of _ "[]"]) auto
  next
    case True
    let ?s1 = "s\<lparr>sy_w := w1, sy_todo := ps, sy_pc := Ev_reserved p\<rparr>" and ?s2 = "s\<lparr>sy_todo := ps, sy_w := count_task w1, sy_pc := Ev_counted p\<rparr>"
    have s1: "sys_step L N s ?s1" by (intro sys_step.event event_step.reserve) (use assms(1-3) r True in simp_all)
    have s2: "sys_step L N ?s1 ?s2" using sys_step.event [OF event_step.count [of ?s1 p L N]] assms(1,4) by simp
    have idle: "s\<lparr>sy_todo := ps, sy_w := x, sy_pc := Ev_idle\<rparr> = s\<lparr>sy_w := x, sy_todo := ps\<rparr>"
        "s\<lparr>sy_todo := ps, sy_w := x, sy_tasks := ts, sy_pc := Ev_idle\<rparr> = s\<lparr>sy_w := x, sy_todo := ps, sy_tasks := ts\<rparr>" for x ts
      using assms(2) by (cases s, simp)+
    consider (np) "\<not> pool_ok" | (ok) "pool_ok" "push_ok" | (fl) "pool_ok" "\<not> push_ok" by blast
    then show ?thesis
    proof cases
      case np
      have "sys_step L N ?s1 (s\<lparr>sy_todo := ps, sy_w := unreserve p w1, sy_pc := Ev_idle\<rparr>)"
        using sys_step.event [OF event_step.no_pool [of ?s1 p L N]] assms(1) by simp
      with s1 have "(sys_step L N)\<^sup>*\<^sup>* s (s\<lparr>sy_w := unreserve p w1, sy_todo := ps\<rparr>)" unfolding idle by auto
      moreover have "w' = unreserve p w1" "queue' = queue" using assms(5) r True np by (simp_all add: h3_process_request_def)
      ultimately show ?thesis by (intro exI [of _ "[]"]) simp
    next
      case ok
      have "sys_step L N ?s2 (s\<lparr>sy_todo := ps, sy_w := count_task w1, sy_tasks := sy_tasks s @ [(p, Queued_task)], sy_pc := Ev_idle\<rparr>)"
        using sys_step.event [OF event_step.push [of ?s2 p L N]] assms(1) by simp
      with s1 s2 have "(sys_step L N)\<^sup>*\<^sup>* s (s\<lparr>sy_w := count_task w1, sy_todo := ps, sy_tasks := sy_tasks s @ [(p, Queued_task)]\<rparr>)"
        unfolding idle by (meson rtranclp.rtrancl_into_rtrancl r_into_rtranclp)
      moreover have "w' = count_task w1" "queue' = queue @ [(p, slave_conn logio c)]"
        using assms(5) r True ok by (simp_all add: h3_process_request_def Let_def)
      ultimately show ?thesis by (intro exI [of _ "[(p, slave_conn logio c)]"]) simp
    next
      case fl
      let ?s3 = "s\<lparr>sy_todo := ps, sy_w := unreserve p (count_task w1), sy_pc := Ev_unpushed\<rparr>"
      have s3: "sys_step L N ?s2 ?s3" using sys_step.event [OF event_step.push_fails [of ?s2 p L N]] assms(1) by simp
      have "sys_step L N ?s3 (s\<lparr>sy_todo := ps, sy_w := uncount_task (unreserve p (count_task w1)), sy_pc := Ev_idle\<rparr>)"
        using sys_step.event [OF event_step.uncount [of ?s3 L N]] assms(1) by simp
      with s1 s2 s3 have "(sys_step L N)\<^sup>*\<^sup>* s (s\<lparr>sy_w := uncount_task (unreserve p (count_task w1)), sy_todo := ps\<rparr>)"
        unfolding idle by (meson rtranclp.rtrancl_into_rtrancl r_into_rtranclp)
      moreover have "w' = uncount_task (unreserve p (count_task w1))" "queue' = queue"
        using assms(5) r True fl by (simp_all add: h3_process_request_def Let_def)
      ultimately show ?thesis by (intro exI [of _ "[]"]) simp
    qed
  qed
qed

definition wit_worker_ops :: "(byte list \<times> int set) worker_ops" where
  "wit_worker_ops = \<lparr>wo_submit = (\<lambda>ng sid nva. (ng, 0)), wo_resume = (\<lambda>ng sid. ng), wo_submit_shutdown_notice = id,
     wo_shutdown = id, wo_is_drained = (\<lambda>_. True)\<rparr>"

lemma wit_worker_law: "worker_law wit_agree wit_worker_ops"
  by (simp add: worker_law_def wit_agree_def wit_worker_ops_def)

definition wit_sys :: "(byte list, byte list \<times> int set) sys" where
  "wit_sys = \<lparr>sy_ng = ([], {}), sy_w = wit_world [], sy_tasks = [], sy_pc = Ev_idle, sy_todo = [0], sy_gone = False\<rparr>"

lemma wit_sys_start: "sys_start wit_agree wit_sys"
proof -
  have "ran (streams (w_se (wit_world []))) = {0}" by (simp add: wit_world_def)
  then show ?thesis using wit_world_inv [of "[] :: byte list"]
    by (simp add: sys_start_def wit_sys_def evt_ok_def reclaim_inv_def wit_agree_def)
      (simp add: wit_world_def zero_session_def get_obj_def one_stream_def zero_stream_def)
qed

theorem workers_keep_their_streams_witness:
  "\<exists>s. (sys_step wit_libs wit_worker_ops)\<^sup>*\<^sup>* wit_sys s \<and> sy_tasks s = [(0, Queued_task)] \<and>
    0 \<in> ran (streams (w_se (sy_w s))) \<and> dispatched (get_obj (sy_w s) 0)"
proof -
  let ?w = "snd (reserve 0 (sy_w wit_sys))"
  let ?s1 = "wit_sys\<lparr>sy_w := ?w, sy_todo := [], sy_pc := Ev_reserved 0\<rparr>" and ?s2 = "wit_sys\<lparr>sy_todo := [], sy_w := count_task ?w, sy_pc := Ev_counted 0\<rparr>"
  let ?s3 = "wit_sys\<lparr>sy_todo := [], sy_w := count_task ?w, sy_tasks := [(0, Queued_task)], sy_pc := Ev_idle\<rparr>"
  have "fst (reserve 0 (sy_w wit_sys))" by (simp add: reserve_def wit_sys_def wit_world_def get_obj_def one_stream_def zero_stream_def)
  then have "reserve 0 (sy_w wit_sys) = (True, ?w)" by (metis (full_types) prod.collapse)
  then have s1: "sys_step wit_libs wit_worker_ops wit_sys ?s1" by (intro sys_step.event event_step.reserve) (simp_all add: wit_sys_def)
  have s2: "sys_step wit_libs wit_worker_ops ?s1 ?s2" using sys_step.event [OF event_step.count [of ?s1 0]] by (simp add: wit_sys_def)
  have s3: "sys_step wit_libs wit_worker_ops ?s2 ?s3" using sys_step.event [OF event_step.push [of ?s2 0]] by (simp add: wit_sys_def)
  have r: "(sys_step wit_libs wit_worker_ops)\<^sup>*\<^sup>* wit_sys ?s3"
    using s1 s2 s3 by (meson rtranclp.rtrancl_into_rtrancl r_into_rtranclp)
  have t: "sy_tasks ?s3 = [(0, Queued_task)]" by simp
  then have "0 \<in> ran (streams (w_se (sy_w ?s3))) \<and> dispatched (get_obj (sy_w ?s3) 0)"
    using workers_keep_their_streams [OF wit_libs_law wit_worker_law wit_sys_start r]
    by (metis (no_types, lifting) list.set_intros(1) task_owners_simps(1,3) task_phase.distinct(3))
  then show ?thesis using r t by blast
qed

end
