(* ===== verification/H3_Quiet.thy ===== *)
theory H3_Quiet
  imports H3_Dispatch
begin

text \<open>
  What reading and sending leave alone, whatever the state they start from: no operation of
  the event thread but the send loop marks a stream as blocked, and OpenSSL never takes back a
  stream handle it has handed out. These facts let the passes of the event thread be chained.
\<close>

section \<open>Handles and blocked streams\<close>

text \<open>\<open>issued\<close> is the set of stream handles OpenSSL has handed out; it only grows.\<close>

definition issue_law :: "'o openssl \<Rightarrow> ('o \<Rightarrow> qstream set) \<Rightarrow> bool" where
  "issue_law ssl issued \<longleftrightarrow>
     (\<forall>s q v. issued s \<subseteq> issued (fst (SSL_write_ex ssl s q v))) \<and> (\<forall>s q. issued s \<subseteq> issued (SSL_stream_conclude ssl s q)) \<and>
     (\<forall>s q n. issued s \<subseteq> issued (fst (SSL_read_ex ssl s q n))) \<and> (\<forall>s q e. issued s \<subseteq> issued (SSL_stream_reset ssl s q e)) \<and>
     (\<forall>s q. issued s \<subseteq> issued (SSL_free_stream ssl s q))"

definition blk :: "'o world \<Rightarrow> sptr set" where
  "blk w = {p. p < length (objs (w_se w)) \<and> write_blocked (get_obj w p)}"

definition calm :: "('o \<Rightarrow> qstream set) \<Rightarrow> 'o world \<Rightarrow> 'o world \<Rightarrow> bool" where
  "calm issued w w' \<longleftrightarrow> issued (w_ssl w) \<subseteq> issued (w_ssl w') \<and>
     (\<forall>sid p. streams (w_se w') sid = Some p \<longrightarrow> p \<in> blk w' \<longrightarrow> streams (w_se w) sid = Some p \<and> p \<in> blk w)"

lemma calm_refl [simp]: "calm issued w w"
  by (simp add: calm_def)

lemma calm_trans: "calm issued a b \<Longrightarrow> calm issued b c \<Longrightarrow> calm issued a c"
  unfolding calm_def by blast

lemma blk_put: "(write_blocked st \<longrightarrow> write_blocked (get_obj w p)) \<Longrightarrow> blk (put_obj p st w) \<subseteq> blk w"
  by (cases "p < length (objs (w_se w))") (auto simp: blk_def get_obj_def nth_list_update split: if_splits)

lemma blk_same: "objs (w_se w') = objs (w_se w) \<Longrightarrow> blk w' = blk w"
  by (simp add: blk_def get_obj_def)

text \<open>The two kinds of change: of one stream, and of anything but the streams.\<close>

lemma calm_put:
  assumes "calm issued w0 w" and "write_blocked st \<longrightarrow> write_blocked (get_obj w p)"
  shows "calm issued w0 (put_obj p st w)"
  using assms(1) blk_put [OF assms(2)] by (auto simp: calm_def)

lemma calm_other:
  assumes "calm issued w0 w" and "objs (w_se w') = objs (w_se w)" and "streams (w_se w') \<subseteq>\<^sub>m streams (w_se w)"
    and "issued (w_ssl w) \<subseteq> issued (w_ssl w')"
  shows "calm issued w0 w'"
proof -
  have "streams (w_se w) sid = Some p" if "streams (w_se w') sid = Some p" for sid p
    using assms(3) that by (force simp: map_le_def dom_def)
  then show ?thesis using assms(1,4) unfolding calm_def blk_same [OF assms(2)] by blast
qed

lemma calm_eq: "objs (w_se w') = objs (w_se w) \<Longrightarrow> streams (w_se w') = streams (w_se w) \<Longrightarrow> w_ssl w' = w_ssl w \<Longrightarrow>
    calm issued w0 w' = calm issued w0 w"
  using blk_same [of w' w] by (simp only: calm_def)

lemma calm_frames [simp]:
  "calm issued w0 (w\<lparr>w_user := u\<rparr>) = calm issued w0 w" "calm issued w0 (put_heap p h w) = calm issued w0 w"
  "calm issued w0 (w\<lparr>w_reclaimed := r\<rparr>) = calm issued w0 w" "calm issued w0 (w\<lparr>w_stats := t\<rparr>) = calm issued w0 w"
  "calm issued w0 (upd_se (\<lambda>se. se\<lparr>blocked_streams := b\<rparr>) w) = calm issued w0 w"
  by (rule calm_eq; simp add: put_heap_def)+

lemma calm_blocked_agree:
  assumes "calm issued w w'" and "world_inv w'" and "blocked_agree ngb ng w" and "ngb ng \<subseteq> ngb ng'"
  shows "blocked_agree ngb ng' w'"
  unfolding blocked_agree_def
proof (intro allI impI)
  fix sid p assume p: "streams (w_se w') sid = Some p" "write_blocked (get_obj w' p)"
  then have "p < length (objs (w_se w'))" using world_invD(3) [OF assms(2)] by blast
  with p assms(1) have "streams (w_se w) sid = Some p" "p \<in> blk w" by (auto simp: calm_def blk_def)
  then show "sid \<in> ngb ng'" using assms(3,4) by (auto simp: blocked_agree_def blk_def)
qed

section \<open>Callbacks\<close>

lemma ack_loop_blocked:
  "ack_loop h st n r = Some (h', st', r') \<Longrightarrow> write_blocked st' = write_blocked st"
proof (induction h st n r rule: ack_loop.induct)
  case (1 h st n r)
  have u: "write_blocked st2 = write_blocked st1" if "chunk_unlink_head (h1, st1) = Some (h2, st2)" for h1 st1 h2 st2
    using that by (auto simp: chunk_unlink_head_def Let_def split: option.splits if_splits)
  show ?case
  proof (cases "n = 0 \<or> response_head st = None")
    case True
    then show ?thesis using 1(3) by (subst (asm) ack_loop.simps) (auto split: if_splits)
  next
    case False
    then obtain a where a: "n \<noteq> 0" "response_head st = Some a" by auto
    obtain c where c: "deref h a = Some c" using 1(3) a by (subst (asm) ack_loop.simps) (auto split: option.splits)
    define k c1 h1 st1 where "k = (if n < chunk_len c - chunk_acked c then n else chunk_len c - chunk_acked c)"
      and "c1 = c\<lparr>chunk_acked := chunk_acked c + k\<rparr>" and "h1 = heap_set h a c1"
      and "st1 = st\<lparr>response_buffered := response_buffered st - k\<rparr>"
    note d = k_def c1_def h1_def st1_def
    have run: "(if chunk_acked c1 = chunk_len c1 then case chunk_unlink_head (h1, st1) of None \<Rightarrow> None
         | Some (h2, st2) \<Rightarrow> ack_loop h2 st2 (n - k) True else ack_loop h1 st1 (n - k) True) = Some (h', st', r')"
      using 1(3) a c unfolding d by (subst (asm) ack_loop.simps) (simp only: Let_def if_False option.case)
    have b1: "write_blocked st1 = write_blocked st" by (simp add: st1_def)
    show ?thesis
    proof (cases "chunk_acked c1 = chunk_len c1")
      case True
      with run obtain h2 st2 where r: "chunk_unlink_head (h1, st1) = Some (h2, st2)" "ack_loop h2 st2 (n - k) True = Some (h', st', r')"
        by (cases "chunk_unlink_head (h1, st1)") (simp_all only: if_True option.case, auto split: prod.splits simp del: ack_loop.simps)
      show ?thesis
        using 1(1) [OF a c refl k_def c1_def h1_def st1_def True r(1) refl r(2)] u [OF r(1)] b1 by simp
    next
      case False
      then show ?thesis using 1(2) [OF a c refl k_def c1_def h1_def st1_def False] run b1 by (simp only: if_False)
    qed
  qed
qed

lemma read_loop_blocked: "read_loop h k st = Some (vs, st') \<Longrightarrow> write_blocked st' = write_blocked st"
  by (induction h k st arbitrary: vs rule: read_loop.induct) (fastforce split: option.splits)+

lemma read_data_blocked:
  "h3_session_read_data h (Some st) k = Some (r, eof, vs, Some st') \<Longrightarrow> write_blocked st' = write_blocked st"
  by (auto simp: h3_session_read_data_def read_loop_blocked split: if_splits option.splits)

lemma recv_data_blocked: "stream_recv_data palloc l d st = Some st' \<Longrightarrow> write_blocked st' = write_blocked st"
  by (auto simp: stream_recv_data_def body_grow_def Let_def split: option.splits if_splits)

lemma set_pseudo_blocked: "set_pseudo st t v = (rc, st') \<Longrightarrow> write_blocked st' = write_blocked st"
  by (auto simp: set_pseudo_def Let_def split: if_splits qpack_token.splits)

lemma queue_handle_calm: "calm issued w0 w \<Longrightarrow> calm issued w0 (queue_stream_handle p w)"
  unfolding queue_stream_handle_def h3_session_queue_free_def
  by (auto intro!: calm_put elim!: calm_other simp: get_obj_def split: option.split)

lemma ng_handle_calm:
  assumes "issue_law ssl issued" and "ng_handle ssl palloc c w = Some (a, w')"
  shows "calm issued w w'"
proof (cases c)
  case (Begin_headers sid)
  then show ?thesis using assms(2)
    by (auto simp: on_begin_headers_def Let_def split: option.splits if_splits intro!: calm_put)
next
  case (Recv_header sid t n v)
  then show ?thesis using assms(2)
    by (auto simp: on_recv_header_def Let_def set_pseudo_blocked split: option.splits if_splits prod.splits intro!: calm_put)
next
  case (End_headers sid fin)
  then show ?thesis using assms(2) by (auto simp: on_end_headers_def Let_def split: option.splits if_splits intro!: calm_put)
next
  case (Recv_data sid d)
  then show ?thesis using assms(2) by (auto simp: on_recv_data_def recv_data_blocked split: option.splits intro!: calm_put)
next
  case (Acked_stream_data sid n)
  then show ?thesis using assms(2)
    by (auto simp: on_acked_stream_data_def h3_stream_response_ack_locked_def ack_loop_blocked split: option.splits intro!: calm_put)
next
  case (Stop_sending sid e)
  then show ?thesis using assms(2)
    by (auto simp: on_stop_sending_def Let_def h3_stream_response_cancel_locked_def split: option.splits
        intro!: calm_put queue_handle_calm)
next
  case (Reset_stream sid e)
  have i: "issued (w_ssl w) \<subseteq> issued (h3q_stream_reset ssl (w_ssl w) q e)" for q
    using assms(1) by (auto simp: h3q_stream_reset_def issue_law_def split: option.split)
  have "calm issued w ((put_obj p (fst (h3_stream_response_cancel_locked (get_obj w p))) w)\<lparr>w_ssl := h3q_stream_reset ssl (w_ssl w) q e\<rparr>)" for p q
    by (rule calm_other [OF calm_put [OF calm_refl]]) (use i in \<open>simp_all add: h3_stream_response_cancel_locked_def\<close>)
  then show ?thesis using Reset_stream assms(2)
    by (auto simp: on_reset_stream_def Let_def get_obj_def split: option.splits intro!: calm_put)
next
  case (Stream_close sid e)
  then show ?thesis using assms(2)
    by (auto simp: on_stream_close_def Let_def h3_stream_response_cancel_locked_def split: option.splits intro!: calm_put queue_handle_calm)
next
  case (Read_data sid k)
  then show ?thesis using assms(2)
    by (auto simp: on_read_data_def read_data_blocked split: option.splits intro!: calm_put)
qed

lemma ng_run_calm:
  assumes law: "issue_law (lib_ssl L) issued" and "ng_run L t w = Some (a, w')"
  shows "calm issued w w'"
proof -
  have "calm issued w w'" if "run_itree (ng_step (lib_ssl L) (lib_palloc L)) t (Some w) = (a, Some w')" for a w'
    using that
  proof (induction t arbitrary: w)
    case (Vis q k)
    show ?case
    proof (cases "ng_handle (lib_ssl L) (lib_palloc L) q w")
      case None
      have "snd (run_itree (ng_step (lib_ssl L) (lib_palloc L)) t None) = None" for t :: "(ng_call, ng_ans, 'd) itree"
        by (induction t) (simp_all add: ng_step_def)
      from this [of "k (Ans_code NGHTTP3_ERR_CALLBACK_FAILURE)"] show ?thesis using Vis(2) None by (simp add: ng_step_def [of _ _ q])
    next
      case (Some r)
      then obtain r1 w1 where r: "ng_handle (lib_ssl L) (lib_palloc L) q w = Some (r1, w1)" by (cases r) simp
      have "calm issued w1 w'" by (rule Vis(1)) (use Vis(2) r in \<open>simp_all add: ng_step_def\<close>)
      then show ?thesis using ng_handle_calm [OF law r] calm_trans by blast
    qed
  qed simp
  then show ?thesis using assms(2) by (auto simp: ng_run_def split: prod.splits option.splits)
qed

section \<open>Reading\<close>

text \<open>
  What is relied on of nghttp3 here: the streams it takes as blocked are forgotten only when
  it is told to unblock them.
\<close>

definition block_law :: "('o, 'ng) libs \<Rightarrow> 'ng worker_ops \<Rightarrow> ('ng \<Rightarrow> int set) \<Rightarrow> bool" where
  "block_law L N ngb \<longleftrightarrow>
     (\<forall>ng sid bs fin w ng' c w'. ng_run L (ng_read_stream (lib_ng L) ng sid bs fin) w = Some ((ng', c), w') \<longrightarrow> ngb ng \<subseteq> ngb ng') \<and>
     (\<forall>ng sid w ng' w'. ng_run L (ng_close_stream (lib_ng L) ng sid) w = Some (ng', w') \<longrightarrow> ngb ng \<subseteq> ngb ng') \<and>
     (\<forall>ng sid nva. ngb ng \<subseteq> ngb (fst (wo_submit N ng sid nva))) \<and> (\<forall>ng sid. ngb ng \<subseteq> ngb (wo_resume N ng sid)) \<and>
     (\<forall>ng. ngb ng \<subseteq> ngb (wo_submit_shutdown_notice N ng)) \<and> (\<forall>ng. ngb ng \<subseteq> ngb (wo_shutdown N ng))"

lemma block_lawD:
  assumes "block_law L N ngb"
  shows "ng_run L (ng_read_stream (lib_ng L) ng sid bs fin) w = Some ((ng', c), w') \<Longrightarrow> ngb ng \<subseteq> ngb ng'"
    and "ng_run L (ng_close_stream (lib_ng L) ng sid) w = Some (ng', w') \<Longrightarrow> ngb ng \<subseteq> ngb ng'"
    and "ngb ng \<subseteq> ngb (fst (wo_submit N ng sid nva))" and "ngb ng \<subseteq> ngb (wo_resume N ng sid)"
    and "ngb ng \<subseteq> ngb (wo_submit_shutdown_notice N ng)" and "ngb ng \<subseteq> ngb (wo_shutdown N ng)"
proof -
  note d = assms [unfolded block_law_def]
  show "ngb ng \<subseteq> ngb ng'" if "ng_run L (ng_read_stream (lib_ng L) ng sid bs fin) w = Some ((ng', c), w')"
    using conjunct1 [OF d] that by blast
  show "ngb ng \<subseteq> ngb ng'" if "ng_run L (ng_close_stream (lib_ng L) ng sid) w = Some (ng', w')"
    using conjunct1 [OF conjunct2 [OF d]] that by blast
qed (use assms in \<open>simp_all add: block_law_def\<close>)

definition calm2 :: "('ng \<Rightarrow> int set) \<Rightarrow> ('o \<Rightarrow> qstream set) \<Rightarrow> 'ng \<times> 'o world \<Rightarrow> 'ng \<times> 'o world \<Rightarrow> bool" where
  "calm2 ngb issued s s' \<longleftrightarrow> ngb (fst s) \<subseteq> ngb (fst s') \<and> calm issued (snd s) (snd s')"

lemma calm2_refl [simp]: "calm2 ngb issued s s"
  by (simp add: calm2_def)

lemma calm2_trans: "calm2 ngb issued a b \<Longrightarrow> calm2 ngb issued b c \<Longrightarrow> calm2 ngb issued a c"
  unfolding calm2_def using calm_trans by blast

lemma calm_dead: "calm issued w0 w \<Longrightarrow> calm issued w0 (mark_ngh3_dead L e w)"
  by (erule calm_other) (simp_all add: mark_ngh3_dead_def)

lemma feed_fin_calm:
  assumes iss: "issue_law (lib_ssl L) issued" and blo: "block_law L N ngb" and run: "feed_stream_fin L p s = Some s'"
  shows "calm2 ngb issued s s'"
proof -
  from run obtain ng1 c w1 where
    r: "ng_run L (ng_read_stream (lib_ng L) (fst s) (stream_id (get_obj (snd s) p)) [] True) (snd s) = Some ((ng1, c), w1)"
    by (auto simp: feed_stream_fin_def split: option.splits)
  have "calm issued (snd s) (snd s')" "fst s' = ng1" using run r ng_run_calm [OF iss r]
    by (auto simp: feed_stream_fin_def Let_def split: if_splits intro!: calm_put calm_dead)
  then show ?thesis using block_lawD(1) [OF blo r] by (simp add: calm2_def)
qed

lemma read_issued:
  assumes "issue_law ssl issued" and "h3q_stream_read ssl s q n = (s', r)"
  shows "issued s \<subseteq> issued s'"
proof -
  have "s' = fst (SSL_read_ex ssl s q n)" using assms(2) by (auto simp: h3q_stream_read_def split: prod.splits if_splits)
  then show ?thesis using assms(1) by (simp add: issue_law_def)
qed

abbreviation pa_st :: "('o, 'ng) pass \<Rightarrow> 'ng \<times> 'o world" where
  "pa_st a \<equiv> (pa_ng a, pa_w a)"

lemma drain_round_calm:
  assumes iss: "issue_law (lib_ssl L) issued" and blo: "block_law L N ngb" and run: "drain_round L p a = Some (go, a')"
  shows "calm2 ngb issued (pa_st a) (pa_st a')"
proof (cases "qstream (get_obj (pa_w a) p)")
  case None
  then show ?thesis using run by (auto simp: drain_round_def set_done_def calm2_def Let_def intro!: calm_put)
next
  case (Some q)
  obtain s' ok bs fin where rd: "h3q_stream_read (lib_ssl L) (w_ssl (pa_w a)) q
      (if h3_stream_buffer_size (sess_conf (w_se (pa_w a))) < bytes_remaining a then h3_stream_buffer_size (sess_conf (w_se (pa_w a)))
       else bytes_remaining a) = (s', ok, bs, fin)" by (metis surj_pair)
  note i = read_issued [OF iss rd]
  have c0: "calm issued (pa_w a) ((pa_w a)\<lparr>w_ssl := s'\<rparr>)" by (rule calm_other [OF calm_refl]) (use i in simp_all)
  show ?thesis
  proof (cases ok)
    case True
    define w2 where "w2 = upd_se (\<lambda>se. se\<lparr>pending_sid := stream_id (get_obj (pa_w a) p), pending_h3s := Some p\<rparr>)
      (count_read (of_nat (length bs)) ((pa_w a)\<lparr>w_ssl := s'\<rparr>))"
    have c2: "calm issued (pa_w a) w2" by (rule calm_other [OF c0]) (simp_all add: w2_def count_read_def)
    from run Some rd True obtain ng3 cs w3 where
      r: "ng_run L (ng_read_stream (lib_ng L) (pa_ng a) (stream_id (get_obj (pa_w a) p)) bs False) w2 = Some ((ng3, cs), w3)"
      by (auto simp: drain_round_def Let_def w2_def split: option.splits)
    define w4 where "w4 = upd_se (\<lambda>se. se\<lparr>pending_sid := -1, pending_h3s := None\<rparr>) w3"
    have c4: "calm issued (pa_w a) w4"
      by (rule calm_other [OF calm_trans [OF c2 ng_run_calm [OF iss r]]]) (simp_all add: w4_def)
    have "pa_ng a' = ng3 \<and> (pa_w a' = w4 \<or> (\<exists>w5. calm issued w4 w5 \<and> pa_w a' = w5))"
      using run Some rd True r
      by (auto simp: drain_round_def Let_def w2_def [symmetric] w4_def [symmetric] set_done_def split: if_splits
          intro!: calm_put calm_dead)
    then show ?thesis using c4 block_lawD(1) [OF blo r] calm_trans by (auto simp: calm2_def)
  next
    case False
    then show ?thesis using run Some rd c0 feed_fin_calm [OF iss blo, of p "(pa_ng a, (pa_w a)\<lparr>w_ssl := s'\<rparr>)"]
      by (auto simp: drain_round_def Let_def calm2_def split: if_splits elim: calm_trans)
  qed
qed

lemma drain_rounds_calm:
  assumes iss: "issue_law (lib_ssl L) issued" and blo: "block_law L N ngb"
  shows "drain_rounds L p k a = Some a' \<Longrightarrow> calm2 ngb issued (pa_st a) (pa_st a')"
proof (induction k arbitrary: a)
  case (Suc k)
  then show ?case using drain_round_calm [OF iss blo, of p a] calm2_trans
    by (fastforce split: if_splits option.splits bool.splits)
qed simp

lemma drain_one_calm:
  assumes iss: "issue_law (lib_ssl L) issued" and blo: "block_law L N ngb" and run: "drain_one_stream L p a = Some (ready, a')"
  shows "calm2 ngb issued (pa_st a) (pa_st a')"
proof -
  let ?w = "ensure_read_buf (pa_w a)"
  have c0: "calm issued (pa_w a) ?w" by (rule calm_other [OF calm_refl]) (simp_all add: ensure_read_buf_def Let_def)
  obtain rf wf where f: "(case qstream (get_obj ?w p) of None \<Rightarrow> (False, False)
      | Some q \<Rightarrow> h3q_stream_is_read_finished (lib_ssl L) (w_ssl ?w) q) = (rf, wf)" by fastforce
  show ?thesis
  proof (cases rf)
    case True
    then obtain ng1 w1 ng2 w2 where
      r: "(if \<not> body_complete (get_obj ?w p) then feed_stream_fin L p (pa_ng a, ?w) else Some (pa_ng a, ?w)) = Some (ng1, w1)"
        "(if qstream (get_obj w1 p) \<noteq> None \<and> wf then ng_run L (ng_close_stream (lib_ng L) ng1 (stream_id (get_obj w1 p))) w1
          else Some (ng1, w1)) = Some (ng2, w2)" "a' = a\<lparr>pa_ng := ng2, pa_w := w2\<rparr>"
      using run f unfolding drain_one_stream_def Let_def by (simp split: option.splits prod.splits)
    have "calm2 ngb issued (pa_ng a, ?w) (ng1, w1)"
      using r(1) feed_fin_calm [OF iss blo] by (auto split: if_splits)
    moreover have "calm2 ngb issued (ng1, w1) (ng2, w2)"
      using r(2) block_lawD(2) [OF blo] ng_run_calm [OF iss] by (auto simp: calm2_def split: if_splits)
    ultimately have "calm2 ngb issued (pa_ng a, ?w) (ng2, w2)" by (rule calm2_trans)
    then show ?thesis using calm_trans [OF c0] r(3) by (simp add: calm2_def)
  next
    case False
    then obtain a1 where r: "drain_rounds L p (reads_remaining a) (a\<lparr>pa_w := ?w\<rparr>) = Some a1" "a' = a1"
      using run f unfolding drain_one_stream_def Let_def by (simp split: option.splits)
    show ?thesis using drain_rounds_calm [OF iss blo r(1)] calm_trans [OF c0] r(2) by (simp add: calm2_def)
  qed
qed

lemma drain_streams_calm:
  assumes iss: "issue_law (lib_ssl L) issued" and blo: "block_law L N ngb"
  shows "drain_streams L snap start offs acc a = Some (done, a') \<Longrightarrow> calm2 ngb issued (pa_st a) (pa_st a')"
proof (induction offs arbitrary: acc a)
  case (Cons off offs)
  let ?i = "(start + off) mod length snap" and ?p = "snap ! ((start + off) mod length snap)"
  let ?st = "get_obj (pa_w a) ?p"
  show ?case
  proof (cases "ngh3_dead (w_se (pa_w a)) \<or> done_flag ?st \<or> qstream ?st = None \<or> H3_SID_IS_SERVER (stream_id ?st)")
    case True
    then show ?thesis using Cons by (auto simp: Let_def split: if_splits)
  next
    case False
    with Cons(2) obtain ready a1 where o: "drain_one_stream L ?p a = Some (ready, a1)" by (auto simp: Let_def split: option.splits)
    note c = drain_one_calm [OF iss blo o]
    show ?thesis
    proof (cases "reads_remaining a1 = 0 \<or> bytes_remaining a1 = 0")
      case True
      then have "a' = a1\<lparr>pa_w := upd_se (\<lambda>se. se\<lparr>stream_drain_cursor := (?i + 1) mod length snap\<rparr>) (pa_w a1)\<rparr>"
        using Cons(2) o False by (auto simp: Let_def)
      then show ?thesis using c by (auto simp: calm2_def elim: calm_other)
    next
      case no: False
      then have "\<exists>acc'. drain_streams L snap start offs acc' a1 = Some (done, a')"
        using Cons(2) o False by (auto simp: Let_def)
      then show ?thesis using Cons(1) c calm2_trans by blast
    qed
  qed
qed simp

lemma reclaim_one_calm:
  assumes "reclaim_one p w = Some w'"
  shows "calm issued w w'"
proof -
  have cl: "write_blocked st' = write_blocked st" if "h3_stream_response_cleanup_locked h st = Some (h', st')" for h st h' st'
    using that by (auto simp: h3_stream_response_cleanup_locked_def)
  have c1: "calm issued w (upd_se (\<lambda>se. se\<lparr>streams := (streams se)(sid := None)\<rparr>) w)" for w :: "'a world" and sid
    by (rule calm_other [OF calm_refl]) (auto simp: map_le_def)
  have c2: "calm issued w (upd_se (\<lambda>se. se\<lparr>blocked_streams := b\<rparr>) (put_obj p ((get_obj w p)\<lparr>write_blocked := False\<rparr>) w))" for b
    by (rule calm_other [OF calm_put [OF calm_refl]]) simp_all
  define w1 where "w1 = (if write_blocked (get_obj w p)
      then upd_se (\<lambda>se. se\<lparr>blocked_streams := blocked_streams se - 1\<rparr>) (put_obj p ((get_obj w p)\<lparr>write_blocked := False\<rparr>) w) else w)"
  have "calm issued w w1" using c2 by (simp add: w1_def)
  then have c3: "calm issued w (upd_se (\<lambda>se. se\<lparr>streams := (streams se)(stream_id (get_obj w p) := None)\<rparr>) w1)"
    using c1 calm_trans by blast
  show ?thesis
  proof (cases "w' = w")
    case False
    then show ?thesis using assms
      by (auto simp: reclaim_one_def Let_def w1_def [symmetric] cl split: if_splits intro!: calm_put [OF c3])
  qed simp
qed

lemma reclaim_all_calm: "reclaim_all ps w = Some w' \<Longrightarrow> calm issued w w'"
proof (induction ps arbitrary: w)
  case (Cons p ps)
  then show ?case using reclaim_one_calm calm_trans by (fastforce simp: bind_eq_Some_conv)
qed simp

lemma drain_calm:
  assumes iss: "issue_law (lib_ssl L) issued" and blo: "block_law L N ngb" and run: "drain_ready_streams L s = Some (done, a)"
  shows "calm2 ngb issued s (pa_st a)"
proof -
  obtain snap w where t: "take_snapshot L (snd s) = (snap, w)" by fastforce
  have "calm issued (snd s) w" using t
    by (auto simp: take_snapshot_def Let_def split: if_splits intro!: calm_other [OF calm_refl])
  moreover from run t obtain b where b: "calm2 ngb issued (fst s, w) (pa_st b)" "reclaim_all snap (pa_w b) = Some (pa_w a)" "pa_ng a = pa_ng b"
    by (auto simp: drain_ready_streams_def Let_def split: option.splits dest!: drain_streams_calm [OF iss blo])
  moreover note reclaim_all_calm [OF b(2)]
  ultimately show ?thesis using calm_trans unfolding calm2_def by (metis fst_conv snd_conv)
qed

section \<open>Sending\<close>

text \<open>The send loop marks streams as blocked, but hands out and takes back no handle.\<close>

lemma write_vecs_issued:
  assumes "issue_law ssl issued"
  shows "write_vecs ssl s q vs res = (s', res') \<Longrightarrow> issued s \<subseteq> issued s'"
proof (induction vs arbitrary: s res)
  case (Cons v vs)
  obtain s1 rv n where w: "SSL_write_ex ssl s q v = (s1, rv, n)" by (metis surj_pair)
  have "issued s \<subseteq> issued (fst (SSL_write_ex ssl s q v))" using assms by (simp add: issue_law_def)
  then show ?case using Cons(2) Cons(1) [of s1] by (auto simp: w Let_def split: if_splits)
qed simp

lemma stream_write_issued:
  assumes "issue_law ssl issued" and "h3q_stream_write ssl s q vs fin = (s', res)"
  shows "issued s \<subseteq> issued s'"
proof -
  obtain s1 where w: "write_vecs ssl s q vs \<lparr>accepted = 0, blocked = False, broken = False\<rparr> = (s1, res)"
    and s': "s' = s1 \<or> s' = SSL_stream_conclude ssl s1 q"
    using assms(2) by (auto simp: h3q_stream_write_def split: prod.splits if_splits)
  have "issued s1 \<subseteq> issued (SSL_stream_conclude ssl s1 q)" using assms(1) by (simp add: issue_law_def)
  then show ?thesis using write_vecs_issued [OF assms(1) w] s' by auto
qed

lemma calm_issued: "calm issued w w' \<Longrightarrow> issued (w_ssl w) \<subseteq> issued (w_ssl w')"
  by (simp add: calm_def)

lemma flush_round_issued:
  assumes iss: "issue_law (lib_ssl L) issued" and run: "flush_round L s = Some (go, s')"
  shows "issued (w_ssl (snd s)) \<subseteq> issued (w_ssl (snd s'))"
proof -
  from run obtain ng1 ret w1 where r: "ng_run L (ng_writev_stream (lib_ng L) (fst s)) (snd s) = Some ((ng1, ret), w1)"
    by (auto simp: flush_round_def split: option.splits)
  note c = calm_issued [OF ng_run_calm [OF iss r]]
  have adv: "issued (w_ssl (snd x)) \<subseteq> issued (w_ssl (snd y))" if "advance_offsets L sid n x = Some y" for sid n x y
    using that unfolding advance_offsets_def by (intro calm_issued [OF ng_run_calm [OF iss, of _ _ "fst y"]]) simp
  have b: "w_ssl (snd (block_stream L p sid x)) = w_ssl (snd x)" for p sid x by (auto simp: block_stream_def split: prod.split)
  show ?thesis
  proof (cases ret)
    case (Writev_error e)
    then show ?thesis using run r c by (auto simp: flush_round_def mark_ngh3_dead_def)
  next
    case (Writev sid fin vecs)
    define found where "found = (case h3_stream_find (w_se w1) sid of None \<Rightarrow> None
      | Some p \<Rightarrow> map_option (Pair p) (qstream (get_obj w1 p)))"
    show ?thesis
    proof (cases "vecs = [] \<and> sid < 0 \<or> found = None")
      case True
      then show ?thesis using run r c Writev
        by (fastforce simp: flush_round_def Let_def found_def [symmetric] split: if_splits dest!: adv)
    next
      case False
      then obtain p q where f: "found = Some (p, q)" by auto
      obtain x res where w: "h3q_stream_write (lib_ssl L) (w_ssl w1) q vecs fin = (x, res)" by fastforce
      note i = stream_write_issued [OF iss w]
      define w2 where "w2 = count_written (accepted res) (w1\<lparr>w_ssl := x\<rparr>)"
      have "w_ssl w2 = x" by (simp add: w2_def count_written_def)
      moreover obtain n s3 where "advance_offsets L sid n (ng1, w2) = Some s3" "w_ssl (snd s') = w_ssl (snd s3)"
        using run False unfolding flush_round_def Let_def r Writev option.case prod.case writev_ret.case found_def [symmetric] f w
          option.case prod.case w2_def [symmetric]
        by (auto simp: b split: if_splits option.splits)
      ultimately have "issued x \<subseteq> issued (w_ssl (snd s'))" using adv by (metis snd_conv)
      then show ?thesis using c i by blast
    qed
  qed
qed

lemma flush_loop_issued:
  assumes iss: "issue_law (lib_ssl L) issued"
  shows "flush_loop L k s = Done s' \<Longrightarrow> issued (w_ssl (snd s)) \<subseteq> issued (w_ssl (snd s'))"
proof (induction k arbitrary: s)
  case (Suc k)
  then show ?case using flush_round_issued [OF iss, of s]
    by (fastforce split: option.splits bool.splits)
qed simp

lemma flush_issued:
  assumes iss: "issue_law (lib_ssl L) issued" and run: "flush_nghttp3 L k s = Done s'"
  shows "issued (w_ssl (snd s)) \<subseteq> issued (w_ssl (snd s'))"
proof -
  have o: "w_ssl (snd (unblock_one L p x)) = w_ssl (snd x)" for p x
    by (auto simp: unblock_one_def Let_def split: prod.split)
  have "w_ssl (snd (fold (unblock_one L) ps x)) = w_ssl (snd x)" for ps x
    by (induction ps arbitrary: x) (simp_all add: o)
  then have u: "w_ssl (snd (unblock_writable_streams L s)) = w_ssl (snd s)" by (simp add: unblock_writable_streams_def)
  have f: "issued x \<subseteq> issued (fold (\<lambda>q s. h3q_stream_free (lib_ssl L) s (Some q)) qs x)" for qs x
  proof (induction qs arbitrary: x)
    case (Cons q qs)
    have "issued x \<subseteq> issued (h3q_stream_free (lib_ssl L) x (Some q))" using iss by (simp add: h3q_stream_free_def issue_law_def)
    then show ?case using Cons by fastforce
  qed simp
  show ?thesis
  proof (cases "ngh3_dead (w_se (snd s))")
    case True
    then show ?thesis using run by (simp add: flush_nghttp3_def)
  next
    case False
    with run obtain ng w where l: "flush_loop L k (unblock_writable_streams L s) = Done (ng, w)" "s' = (ng, free_pending L w)"
      by (auto simp: flush_nghttp3_def split: if_splits c_run.splits)
    then show ?thesis using flush_loop_issued [OF iss l(1)] u f by (fastforce simp: free_pending_def Let_def)
  qed
qed

end
