(* ===== verification/H3_Service.thy ===== *)
theory H3_Service
  imports H3_Quiet
begin

text \<open>
  One pass of the event thread over a session: \<^verbatim>\<open>service_session_pass\<close> of \<^verbatim>\<open>src/h3_io.c\<close>. The
  pass is executable; the workers run between its locked sections, as \<open>sv_sync\<close> says. It is
  shown to return, to be defined throughout, and to be a run of the steps of the session and
  its workers, so that everything shown of those runs holds of it.
\<close>

section \<open>The pass\<close>

text \<open>
  What a pass meets: what the workers do before its \<open>k\<close>th locked section, the clock, and which
  allocations succeed. \<open>sv_fuel\<close> bounds the send loop, \<open>sv_accept_fuel\<close> the accept loop.
\<close>

record ('o, 'ng) service_env =
  sv_sync :: "nat \<Rightarrow> ('o, 'ng) sys \<Rightarrow> ('o, 'ng) sys"
  sv_now :: "nat \<Rightarrow> int"
  sv_scratch_ok :: bool
  sv_track_pool :: "nat \<Rightarrow> bool"
  sv_track_cond :: "nat \<Rightarrow> bool"
  sv_task_pool :: "nat \<Rightarrow> bool"
  sv_push :: "nat \<Rightarrow> bool"
  sv_fuel :: "'ng \<Rightarrow> 'o world \<Rightarrow> nat"
  sv_accept_fuel :: nat

definition flush_sys :: "('o, 'ng) libs \<Rightarrow> ('o, 'ng) service_env \<Rightarrow> ('o, 'ng) sys \<Rightarrow> ('o, 'ng) sys c_run" where
  "flush_sys L E s =
     run_then (flush_nghttp3 L (sv_fuel E (sy_ng s) (sy_w s)) (sy_ng s, sy_w s)) (\<lambda>(ng, w). Done (s\<lparr>sy_ng := ng, sy_w := w\<rparr>))"

definition set_aborted :: "('o, 'ng) sys \<Rightarrow> ('o, 'ng) sys" where
  "set_aborted s = s\<lparr>sy_w := upd_se (\<lambda>se. se\<lparr>aborted := True\<rparr>) (sy_w s)\<rparr>"

text \<open>The part of the pass taken once the server is stopping; the flag says whether the pass ends there.\<close>

definition goaway_pass ::
  "('o, 'ng) libs \<Rightarrow> 'ng worker_ops \<Rightarrow> ('o, 'ng) service_env \<Rightarrow> ('o, 'ng) sys \<Rightarrow> (bool \<times> ('o, 'ng) sys) c_run" where
  "goaway_pass L N E s =
    (let s1 = sv_sync E 0 s;
         s2 = (if goaway_deadline (w_se (sy_w s1)) = 0 then s1\<lparr>sy_ng := wo_submit_shutdown_notice N (sy_ng s1)\<rparr> else s1)
     in run_then (flush_sys L E s2) (\<lambda>s3.
       (let drained = wo_is_drained N (sy_ng s3);
            s4 = (if goaway_deadline (w_se (sy_w s3)) = 0
                  then s3\<lparr>sy_w := upd_se (\<lambda>se. se\<lparr>goaway_deadline := sv_now E 0 + H3_GOAWAY_GRACE_SECS * 1000000\<rparr>) (sy_w s3)\<rparr>
                  else s3)
        in if drained \<or> goaway_deadline (w_se (sy_w s4)) \<le> sv_now E 1
           then (let s5 = sv_sync E 1 s4
                 in run_then (flush_sys L E (s5\<lparr>sy_ng := wo_shutdown N (sy_ng s5)\<rparr>)) (\<lambda>s6. Done (True, set_aborted s6)))
           else Done (False, s4))))"

text \<open>The accept loop, with the count of the streams seen.\<close>

fun accept_loop ::
  "('o, 'ng) libs \<Rightarrow> ('o, 'ng) service_env \<Rightarrow> nat \<Rightarrow> nat \<Rightarrow> ('o, 'ng) sys \<times> uint32_t \<Rightarrow> (('o, 'ng) sys \<times> uint32_t) c_run" where
  "accept_loop L E 0 k (s, seen) = Out_of_fuel"
| "accept_loop L E (Suc f) k (s, seen) =
    (case h3q_conn_accept_stream (lib_ssl L) (w_ssl (sy_w s)) (qconn (w_se (sy_w s))) of
       (x, None) \<Rightarrow> Done (s\<lparr>sy_w := (sy_w s)\<lparr>w_ssl := x\<rparr>\<rparr>, seen)
     | (x, Some q) \<Rightarrow>
       (let s1 = sv_sync E (2 + k) (s\<lparr>sy_w := (sy_w s)\<lparr>w_ssl := x\<rparr>\<rparr>)
        in case accept_stream L (sv_track_pool E k) (sv_track_cond E k) q (sy_w s1) of
             None \<Rightarrow> Undefined
           | Some w \<Rightarrow> accept_loop L E f (Suc k) (s1\<lparr>sy_w := w\<rparr>, seen + 1)))"

definition drain_sys :: "('o, 'ng) libs \<Rightarrow> ('o, 'ng) sys \<Rightarrow> (bool \<times> ('o, 'ng) sys) c_run" where
  "drain_sys L s =
    (case drain_ready_streams L (sy_ng s, sy_w s) of
       None \<Rightarrow> Undefined
     | Some (completed, a) \<Rightarrow> Done (data_read a, s\<lparr>sy_ng := pa_ng a, sy_w := pa_w a, sy_todo := completed\<rparr>))"

text \<open>Handing over the completed requests, in order.\<close>

fun dispatch_loop :: "('o, 'ng) service_env \<Rightarrow> bool \<Rightarrow> 'a conn_rec \<Rightarrow> nat \<Rightarrow> sptr list \<Rightarrow> ('o, 'ng) sys \<Rightarrow> ('o, 'ng) sys" where
  "dispatch_loop E logio c k [] s = s"
| "dispatch_loop E logio c k (p # ps) s =
    (let s1 = sv_sync E k s;
         (w, new) = h3_process_request (sv_task_pool E k) (sv_push E k) logio c p (sy_w s1, [])
     in dispatch_loop E logio c (Suc k) ps
          (s1\<lparr>sy_w := w, sy_todo := ps, sy_tasks := sy_tasks s1 @ map (\<lambda>t. (fst t, Queued_task)) new\<rparr>))"

text \<open>Reading, sending and handing over; \<open>k\<close> counts the streams accepted before.\<close>

definition session_work ::
  "('o, 'ng) libs \<Rightarrow> ('o, 'ng) service_env \<Rightarrow> bool \<Rightarrow> 'a conn_rec \<Rightarrow> nat \<Rightarrow> ('o, 'ng) sys \<Rightarrow> (bool \<times> ('o, 'ng) sys) c_run" where
  "session_work L E logio c k s =
     run_then (drain_sys L (sv_sync E k s)) (\<lambda>(read, s1).
     run_then (flush_sys L E s1) (\<lambda>s2.
       if ngh3_dead (w_se (sy_w s2)) then Done (False, set_aborted s2)
       else (let s3 = dispatch_loop E logio c (Suc k) (sy_todo s2) s2
             in run_then (flush_sys L E (sv_sync E (Suc k + length (sy_todo s2)) s3)) (\<lambda>s4. Done (read, s4)))))"

definition service_session_pass ::
  "('o, 'ng) libs \<Rightarrow> 'ng worker_ops \<Rightarrow> ('o, 'ng) service_env \<Rightarrow> bool \<Rightarrow> bool \<Rightarrow> 'a conn_rec \<Rightarrow> ('o, 'ng) sys \<times> uint32_t \<Rightarrow>
   (bool \<times> ('o, 'ng) sys \<times> uint32_t) c_run" where
  "service_session_pass L N E thread_running logio c st =
    (case st of (s, seen) \<Rightarrow>
      if aborted (w_se (sy_w s)) then Done (False, s, seen)
      else run_then (if thread_running then Done (False, s) else goaway_pass L N E s) (\<lambda>(ended, s1).
        if ended then Done (False, s1, seen)
        else if h3q_conn_is_closed (lib_ssl L) (w_ssl (sy_w s1)) (qconn (w_se (sy_w s1))) then Done (False, set_aborted s1, seen)
        else if \<not> sv_scratch_ok E then Done (False, s1, seen)
        else run_then (accept_loop L E (sv_accept_fuel E) 0 (s1, seen)) (\<lambda>(s2, seen').
          run_then (session_work L E logio c (2 + sv_accept_fuel E) s2) (\<lambda>(read, s3). Done (read, s3, seen')))))"

section \<open>What is relied on\<close>

text \<open>
  Before a locked section the workers have made some of their steps. The streams that the peer
  may still open under the connection's stream limit, \<open>pend\<close>, are at most \<open>B\<close>: an accepted
  stream is one less, and carries a handle that is new.
\<close>

definition sync_law :: "'ng worker_ops \<Rightarrow> ('o, 'ng) service_env \<Rightarrow> bool" where
  "sync_law N E \<longleftrightarrow> (\<forall>k s. (worker_step N)\<^sup>*\<^sup>* s (sv_sync E k s))"

definition accept_law :: "'o openssl \<Rightarrow> ('o \<Rightarrow> qstream set) \<Rightarrow> ('o \<Rightarrow> nat) \<Rightarrow> nat \<Rightarrow> bool" where
  "accept_law ssl issued pend B \<longleftrightarrow>
     (\<forall>s. pend s \<le> B) \<and> (\<forall>s q. pend (SSL_free_stream ssl s q) \<le> pend s) \<and>
     (\<forall>s c s' r. SSL_accept_stream ssl s c = (s', r) \<longrightarrow> issued s \<subseteq> issued s' \<and>
        (\<forall>q. r = Some q \<longrightarrow> q \<notin> issued s \<and> q \<in> issued s' \<and> pend s' < pend s))"

definition service_law ::
  "('o, 'ng) libs \<Rightarrow> 'ng worker_ops \<Rightarrow> ('o, 'ng) service_env \<Rightarrow> ('o, 'ng) agree \<Rightarrow> ('ng \<Rightarrow> 'o world \<Rightarrow> nat) \<Rightarrow> ('ng \<Rightarrow> int set) \<Rightarrow>
   ('o \<Rightarrow> qstream set) \<Rightarrow> ('o \<Rightarrow> nat) \<Rightarrow> bool" where
  "service_law L N E R work ngb issued pend \<longleftrightarrow>
     (\<exists>sent. libs_law L R sent) \<and> worker_law R N \<and> ng_progress L R work ngb \<and> block_law L N ngb \<and>
     issue_law (lib_ssl L) issued \<and> sync_law N E \<and> (\<exists>B. accept_law (lib_ssl L) issued pend B \<and> B < sv_accept_fuel E) \<and>
     (\<forall>k. sv_track_pool E k) \<and> (\<forall>ng w. work ng w + card (ran (streams (w_se w))) < sv_fuel E ng w)"

definition service_inv :: "('o, 'ng) agree \<Rightarrow> ('ng \<Rightarrow> int set) \<Rightarrow> ('o \<Rightarrow> qstream set) \<Rightarrow> ('o, 'ng) sys \<Rightarrow> bool" where
  "service_inv R ngb issued s \<longleftrightarrow> sys_inv R s \<and> \<not> sy_gone s \<and> sy_pc s = Ev_idle \<and> blocked_agree ngb (sy_ng s) (sy_w s) \<and>
     held (sy_w s) \<subseteq> issued (w_ssl (sy_w s))"

section \<open>What the workers leave alone\<close>

definition worker_frame :: "('o, 'ng) sys \<Rightarrow> ('o, 'ng) sys \<Rightarrow> bool" where
  "worker_frame s s' \<longleftrightarrow> sy_pc s' = sy_pc s \<and> sy_todo s' = sy_todo s \<and> sy_gone s' = sy_gone s \<and>
     length (sy_tasks s') \<le> length (sy_tasks s) \<and> w_ssl (sy_w s') = w_ssl (sy_w s) \<and> held (sy_w s') = held (sy_w s) \<and>
     (let se = w_se (sy_w s); se' = w_se (sy_w s') in streams se' = streams se \<and> qconn se' = qconn se \<and>
        goaway_deadline se' = goaway_deadline se \<and> aborted se' = aborted se \<and> ngh3_dead se' = ngh3_dead se)"

lemma worker_frame_refl [simp]: "worker_frame s s"
  by (simp add: worker_frame_def Let_def)

lemma worker_frame_trans: "worker_frame a b \<Longrightarrow> worker_frame b c \<Longrightarrow> worker_frame a c"
  by (simp add: worker_frame_def Let_def)

lemma resume_effects_ngb:
  assumes "block_law L N ngb"
  shows "ngb ng \<subseteq> ngb (resume_effects (wo_resume N) es ng)"
proof (induction es arbitrary: ng)
  case (Cons e es)
  show ?case
  proof (cases e)
    case (Resume_stream sid)
    then show ?thesis using Cons [of "wo_resume N ng sid"] block_lawD(4) [OF assms, of ng sid] by auto
  qed (use Cons in simp_all)
qed simp

lemma worker_op_ngb:
  assumes "block_law L N ngb" and "worker_op N p (ng, w) (ng', w')"
  shows "ngb ng \<subseteq> ngb ng'"
  using assms(2)
proof cases
  case (op_submit nva rv h st se es)
  then have "ng' = ng \<or> ng' = fst (wo_submit N ng (stream_id (get_obj w p)) nva)"
    by (auto simp: submit_response_nva_def split: if_splits prod.splits)
  then show ?thesis using block_lawD(3) [OF assms(1)] by auto
qed (use resume_effects_ngb [OF assms(1)] in auto)

text \<open>A worker's step changes one stream, and of it nothing that concerns blocking or the QUIC handle.\<close>

lemma worker_put_frame:
  assumes "p < length (objs (w_se (sy_w s)))" and "write_blocked st = write_blocked (get_obj (sy_w s) p)" and "qstream st = qstream (get_obj (sy_w s) p)"
    and "length ts \<le> length (sy_tasks s)"
  shows "worker_frame s (s\<lparr>sy_ng := ng, sy_w := put_heap p h (put_obj p st (sy_w s)), sy_tasks := ts\<rparr>)"
    and "calm issued (sy_w s) (put_heap p h (put_obj p st (sy_w s)))"
  using assms calm_put [OF calm_refl, of st "sy_w s" p] by (simp_all add: worker_frame_def Let_def held_put)

lemma worker_step_frame:
  assumes law: "worker_law R N" "block_law L N ngb" and inv: "sys_inv R s" and step: "worker_step N s s'"
  shows "worker_frame s s' \<and> calm2 ngb issued (sy_ng s, sy_w s) (sy_ng s', sy_w s')"
proof -
  have tasks: "sy_tasks s \<noteq> []" using step by cases auto
  then have g: "\<not> sy_gone s" by (rule gone_no_task [OF inv])
  note d = sys_invD [OF inv g]
  have put: ?thesis if "p < length (objs (w_se (sy_w s)))" "write_blocked st = write_blocked (get_obj (sy_w s) p)"
      "qstream st = qstream (get_obj (sy_w s) p)" "length ts \<le> length (sy_tasks s)" "ngb (sy_ng s) \<subseteq> ngb ng"
      "s' = s\<lparr>sy_ng := ng, sy_w := put_heap p h (put_obj p st (sy_w s)), sy_tasks := ts\<rparr>" for p st ts h ng
    using worker_put_frame [OF that(1-4)] that(5,6) by (simp add: calm2_def)
  have own: "p < length (objs (w_se (sy_w s)))" if "(p, ph) \<in> set (sy_tasks s)" "ph \<noteq> Leaving_task" for p ph
    using d(7) [of p] that by (force simp: owners_def task_owners_def)
  have same: "put_heap p (w_heaps w p) w = w" for p and w :: "'a world" by (simp add: put_heap_same)
  show ?thesis
    using step
  proof cases
    case (start xs p ys)
    then show ?thesis by (simp add: worker_frame_def Let_def)
  next
    case (work p ng w)
    note p = own [OF work(2)]
    from worker_op_ok [OF work(3) law(1) d(1)] p obtain h st where
      k: "w = put_heap p h (put_obj p st (sy_w s))" "worker_keeps (get_obj (sy_w s) p) st" by auto
    show ?thesis
      by (rule put [of p st "sy_tasks s" ng h])
        (use p k work(1) worker_op_ngb [OF law(2) work(3)] in \<open>simp_all add: worker_keeps_def quiet_update_def\<close>)
  next
    case (give_up xs p ys)
    show ?thesis
      by (rule put [of p "(get_obj (sy_w s) p)\<lparr>dispatched := False\<rparr>" "xs @ (p, Leaving_task) # ys" "sy_ng s" "w_heaps (sy_w s) p"])
        (use give_up own [of p Running_task] in \<open>simp_all add: unreserve_def put_heap_same\<close>)
  next
    case (sign_off xs p ys)
    show ?thesis
      by (rule put [of p "(get_obj (sy_w s) p)\<lparr>worker_done := True\<rparr>" "xs @ (p, Leaving_task) # ys" "sy_ng s" "w_heaps (sy_w s) p"])
        (use sign_off own [of p Running_task] in \<open>simp_all add: put_heap_same\<close>)
  next
    case (leave xs p ys)
    have "calm issued (sy_w s) (uncount_task (sy_w s))" by (rule calm_other [OF calm_refl]) (simp_all add: uncount_task_def)
    then show ?thesis using leave by (simp add: worker_frame_def Let_def uncount_task_def held_def handles_def calm2_def)
  qed
qed

section \<open>The parts of a pass\<close>

lemma service_lawD:
  assumes "service_law L N E R work ngb issued pend"
  obtains sent B where "libs_law L R sent" and "worker_law R N" and "ng_progress L R work ngb" and "block_law L N ngb"
    and "issue_law (lib_ssl L) issued" and "sync_law N E" and "accept_law (lib_ssl L) issued pend B" and "B < sv_accept_fuel E"
    and "\<forall>k. sv_track_pool E k" and "\<forall>ng w. work ng w + card (ran (streams (w_se w))) < sv_fuel E ng w"
  using assms unfolding service_law_def by (elim conjE exE) (rule that; simp)

lemma service_invD:
  assumes "service_inv R ngb issued s"
  shows "sys_inv R s" and "\<not> sy_gone s" and "sy_pc s = Ev_idle" and "blocked_agree ngb (sy_ng s) (sy_w s)"
    and "held (sy_w s) \<subseteq> issued (w_ssl (sy_w s))" and "world_inv (sy_w s)" and "R (sy_ng s) None (sy_w s)" and "ngh3 (w_se (sy_w s))"
    and "reclaim_inv (sy_w s)"
  using assms sys_invD(1,2,6,8) [of R s] by (auto simp: service_inv_def evt_ok_def)

text \<open>A run of steps that leaves the event thread idle and is calm keeps the invariant.\<close>

lemma service_inv_calm:
  assumes law: "service_law L N E R work ngb issued pend" and inv: "service_inv R ngb issued s" and run: "(sys_step L N)\<^sup>*\<^sup>* s s'"
    and "\<not> sy_gone s'" and "sy_pc s' = Ev_idle" and calm: "calm2 ngb issued (sy_ng s, sy_w s) (sy_ng s', sy_w s')"
    and "held (sy_w s') \<subseteq> issued (w_ssl (sy_w s'))"
  shows "service_inv R ngb issued s'"
proof -
  from law obtain sent where l: "libs_law L R sent" "worker_law R N" by (rule service_lawD)
  note i = service_invD [OF inv]
  have inv': "sys_inv R s'" by (rule sys_reachable_inv [OF l run i(1)])
  have "blocked_agree ngb (sy_ng s') (sy_w s')"
    by (rule calm_blocked_agree [where issued = issued, OF _ sys_invD(6) [OF inv' assms(4)] i(4)]) (use calm in \<open>simp_all add: calm2_def\<close>)
  then show ?thesis using inv' assms(4,5,7) by (simp add: service_inv_def)
qed

lemma service_inv_held:
  assumes "service_inv R ngb issued s" and "calm issued (sy_w s) w'" and "held w' \<subseteq> held (sy_w s)"
  shows "held w' \<subseteq> issued (w_ssl w')"
  using service_invD(5) [OF assms(1)] calm_issued [OF assms(2)] assms(3) by blast

lemma sync_ok:
  assumes law: "service_law L N E R work ngb issued pend" and inv: "service_inv R ngb issued s"
  shows "(sys_step L N)\<^sup>*\<^sup>* s (sv_sync E k s)" and "service_inv R ngb issued (sv_sync E k s)" and "worker_frame s (sv_sync E k s)"
proof -
  from law obtain sent where l: "libs_law L R sent" "worker_law R N" "block_law L N ngb" and sy: "sync_law N E"
    by (rule service_lawD)
  have "(worker_step N)\<^sup>*\<^sup>* s (sv_sync E k s)" using sy by (simp add: sync_law_def)
  then have "(sys_step L N)\<^sup>*\<^sup>* s (sv_sync E k s) \<and> worker_frame s (sv_sync E k s) \<and>
      calm2 ngb issued (sy_ng s, sy_w s) (sy_ng (sv_sync E k s), sy_w (sv_sync E k s))"
  proof (induction rule: rtranclp_induct)
    case (step b c)
    have "sys_inv R b" using sys_reachable_inv [OF l(1,2)] step(3) service_invD(1) [OF inv] by blast
    from worker_step_frame [where issued = issued, OF l(2,3) this step(2)] step(3)
    show ?case using worker_frame_trans calm2_trans sys_step.worker [OF step(2)] by (meson rtranclp.rtrancl_into_rtrancl)
  qed simp
  then show r: "(sys_step L N)\<^sup>*\<^sup>* s (sv_sync E k s)" and f: "worker_frame s (sv_sync E k s)" by simp_all
  show "service_inv R ngb issued (sv_sync E k s)"
    by (rule service_inv_calm [OF law inv r])
      (use \<open>_ \<and> _ \<and> _\<close> service_invD [OF inv] in \<open>simp_all add: worker_frame_def\<close>)
qed

lemma flush_sys_ok:
  assumes law: "service_law L N E R work ngb issued pend" and inv: "service_inv R ngb issued s"
  obtains s' where "flush_sys L E s = Done s'" and "(sys_step L N)\<^sup>*\<^sup>* s s'" and "service_inv R ngb issued s'"
    and "evt_frame (sy_w s) (sy_w s')" and "sy_tasks s' = sy_tasks s" and "sy_todo s' = sy_todo s"
proof -
  from law obtain sent where l: "libs_law L R sent" "worker_law R N" "ng_progress L R work ngb" "issue_law (lib_ssl L) issued"
    and fu: "\<forall>ng w. work ng w + card (ran (streams (w_se w))) < sv_fuel E ng w" by (rule service_lawD)
  note i = service_invD [OF inv]
  let ?f = "sv_fuel E (sy_ng s) (sy_w s)"
  have "\<exists>ng w. flush_nghttp3 L ?f (sy_ng s, sy_w s) = Done (ng, w) \<and> blocked_agree ngb ng w"
  proof (cases "ngh3_dead (w_se (sy_w s))")
    case True
    then show ?thesis using i(4) by (simp add: flush_nghttp3_def)
  next
    case False
    from flush_ends [OF l(1,3) i(6-8) False i(4) fu [rule_format]] show ?thesis by blast
  qed
  then obtain ng w where f: "flush_nghttp3 L ?f (sy_ng s, sy_w s) = Done (ng, w)" "blocked_agree ngb ng w" by blast
  let ?s = "s\<lparr>sy_ng := ng, sy_w := w\<rparr>"
  have st: "sys_step L N s ?s" by (intro sys_step.event event_step.flush) (use i f in simp_all)
  have e: "evt_frame (sy_w s) w" using flush_ok [OF l(1) sys_invD(1) [OF i(1,2)] f(1)] by simp
  have "held w = held (sy_w s)" using e by (simp add: evt_frame_def Let_def)
  then have "held w \<subseteq> issued (w_ssl w)" using flush_issued [OF l(4) f(1)] i(5) by auto
  moreover have "sys_inv R ?s" by (rule sys_step_inv [OF l(1,2) st i(1)])
  ultimately show thesis
    using f(2) i(2,3) st e by (intro that [of ?s]) (simp_all add: flush_sys_def run_then_def f(1) service_inv_def)
qed

lemma ran_streams_finite:
  assumes "world_inv w"
  shows "finite (ran (streams (w_se w)))"
proof (rule finite_subset)
  show "ran (streams (w_se w)) \<subseteq> {..<length (objs (w_se w))}" using ran_lt [OF assms] by (intro subsetI) simp
qed simp

lemma drain_sys_ok:
  assumes law: "service_law L N E R work ngb issued pend" and inv: "service_inv R ngb issued s"
  obtains read s' where "drain_sys L s = Done (read, s')" and "(sys_step L N)\<^sup>*\<^sup>* s s'" and "service_inv R ngb issued s'"
    and "sy_tasks s' = sy_tasks s" and "length (sy_todo s') \<le> card (ran (streams (w_se (sy_w s))))"
proof -
  from law obtain sent where l: "libs_law L R sent" "block_law L N ngb" "issue_law (lib_ssl L) issued" by (rule service_lawD)
  note i = service_invD [OF inv]
  obtain completed a b where r: "drain_ready_streams L (sy_ng s, sy_w s) = Some (completed, a)" "distinct completed"
    "\<forall>p \<in> set completed. p \<in> ran (streams (w_se (pa_w a))) \<and> request_ready (get_obj (pa_w a) p)"
    "pass_ok R (sy_w s) (w_stats (sy_w s)) b" "reclaim_frame (pa_w b) (pa_w a)"
    "ran (streams (w_se (pa_w a))) = {p \<in> ran (streams (w_se (sy_w s))). \<not> reclaimable (get_obj (pa_w b) p)}"
    by (rule drain_pass_ok [OF l(1) i(6,7,9)])
  let ?s = "s\<lparr>sy_ng := pa_ng a, sy_w := pa_w a, sy_todo := completed\<rparr>"
  have st: "(sys_step L N)\<^sup>*\<^sup>* s ?s" by (intro r_into_rtranclp sys_step.event event_step.drain) (use i(2,3) r(1) in simp_all)
  note c = drain_calm [OF l(3,2) r(1)]
  have "evt_frame (sy_w s) (pa_w b)" using r(4) by (simp add: pass_ok_def evt_keeps_def)
  then have h: "held (pa_w a) = held (sy_w s)" using r(5) by (simp add: evt_frame_def reclaim_frame_def Let_def)
  have "set completed \<subseteq> ran (streams (w_se (sy_w s)))" using r(3) unfolding r(6) by blast
  then have "card (set completed) \<le> card (ran (streams (w_se (sy_w s))))" by (rule card_mono [OF ran_streams_finite [OF i(6)]])
  then have n: "length completed \<le> card (ran (streams (w_se (sy_w s))))" using distinct_card [OF r(2)] by simp
  have hi: "held (pa_w a) \<subseteq> issued (w_ssl (pa_w a))" by (rule service_inv_held [OF inv]) (use c h in \<open>simp_all add: calm2_def\<close>)
  have "service_inv R ngb issued ?s"
    by (rule service_inv_calm [OF law inv st]) (use i(2,3) c hi in simp_all)
  then show thesis using st n by (intro that [of "data_read a" ?s]) (simp_all add: drain_sys_def r(1))
qed

text \<open>Accepting streams.\<close>

lemma handles_put_subset: "set (handles (w_se (put_obj p st w))) \<subseteq> set (handles (w_se w)) \<union> set_option (qstream st)"
proof -
  have m: "set (List.map_filter f xs) = {y. \<exists>x \<in> set xs. f x = Some y}" for f :: "h3_stream \<Rightarrow> qstream option" and xs
    by (induction xs) (auto simp: List.map_filter_simps split: option.splits)
  show ?thesis
    using set_update_subset_insert [of "objs (w_se w)" p st] by (fastforce simp: handles_def m)
qed

lemma accept_stream_frame:
  assumes iss: "issue_law (lib_ssl L) issued" and acc: "accept_law (lib_ssl L) issued pend B" and inv: "world_inv w"
    and a: "accept_stream L True cond_ok q w = Some w'"
  shows "calm issued w w'" and "held w' \<subseteq> insert q (held w)" and "pend (w_ssl w') \<le> pend (w_ssl w)"
    and "card (ran (streams (w_se w'))) \<le> Suc (card (ran (streams (w_se w))))"
proof -
  let ?sid = "h3q_stream_id (lib_ssl L) (w_ssl w) (Some q)"
  consider (f) "w' = free_handle L q w" | (t) p where "track_stream True True ?sid q w = Some (Some p, w')"
    using a by (auto simp: accept_stream_def Let_def track_stream_def h3_stream_find_def split: if_splits option.splits)
  then have "calm issued w w' \<and> held w' \<subseteq> insert q (held w) \<and> pend (w_ssl w') \<le> pend (w_ssl w) \<and>
      card (ran (streams (w_se w'))) \<le> Suc (card (ran (streams (w_se w))))"
  proof cases
    case f
    have "calm issued w w'"
      by (rule calm_other [OF calm_refl]) (use f iss in \<open>simp_all add: free_handle_def h3q_stream_free_def issue_law_def\<close>)
    moreover have "pend (w_ssl w') \<le> pend (w_ssl w)" using f acc by (simp add: free_handle_def h3q_stream_free_def accept_law_def)
    ultimately show ?thesis using f by (auto simp: held_def free_handle_def)
  next
    case (t p)
    show ?thesis
    proof (cases "streams (w_se w) ?sid")
      case (Some p')
      let ?st = "(get_obj w p')\<lparr>qstream := Some q\<rparr>"
      have w': "w' = put_obj p' ?st w" using t Some by (auto simp: track_stream_def h3_stream_find_def)
      have "calm issued w w'" unfolding w' by (rule calm_put [OF calm_refl]) simp
      moreover have "held w' \<subseteq> insert q (held w)" using handles_put_subset [of p' ?st w] by (auto simp: w' held_def)
      ultimately show ?thesis by (simp add: w')
    next
      case None
      let ?n = "length (objs (w_se w))" and ?st = "new_stream (sess_conf (w_se w)) ?sid q"
      have w': "w' = upd_se (\<lambda>se. se\<lparr>objs := objs se @ [?st], streams := (streams se)(?sid \<mapsto> ?n)\<rparr>) w"
        using t None by (auto simp: track_stream_def h3_stream_find_def Let_def)
      have b: "blk w' \<subseteq> blk w" by (auto simp: blk_def w' get_obj_def nth_append new_stream_def zero_stream_def split: if_splits)
      then have nb: "?n \<notin> blk w'" by (auto simp: blk_def)
      have "calm issued w w'" unfolding calm_def
      proof (intro conjI allI impI)
        fix sid p assume p: "streams (w_se w') sid = Some p" "p \<in> blk w'"
        then have "sid \<noteq> ?sid" using nb by (auto simp: w')
        then show "streams (w_se w) sid = Some p" using p(1) by (simp add: w')
        show "p \<in> blk w" using b p(2) by blast
      qed (simp add: w')
      moreover have "ran (streams (w_se w')) = insert ?n (ran (streams (w_se w)))" using None by (simp add: w')
      ultimately show ?thesis
        by (auto simp: w' held_def handles_def List.map_filter_def new_stream_def card_insert_if [OF ran_streams_finite [OF inv]])
    qed
  qed
  then show "calm issued w w'" "held w' \<subseteq> insert q (held w)" "pend (w_ssl w') \<le> pend (w_ssl w)"
    "card (ran (streams (w_se w'))) \<le> Suc (card (ran (streams (w_se w))))" by simp_all
qed

lemma accept_stream_defined: "\<exists>w'. accept_stream L True cond_ok q w = Some w'"
  by (auto simp: accept_stream_def track_stream_def Let_def split: option.split)

lemma network_ok:
  assumes law: "service_law L N E R work ngb issued pend" and inv: "service_inv R ngb issued s" and "issued (w_ssl (sy_w s)) \<subseteq> issued x"
  shows "(sys_step L N)\<^sup>*\<^sup>* s (s\<lparr>sy_w := (sy_w s)\<lparr>w_ssl := x\<rparr>\<rparr>)" and "service_inv R ngb issued (s\<lparr>sy_w := (sy_w s)\<lparr>w_ssl := x\<rparr>\<rparr>)"
proof -
  note i = service_invD [OF inv]
  have "event_step L N s (s\<lparr>sy_w := (sy_w s)\<lparr>w_ssl := x, w_stats := w_stats (sy_w s)\<rparr>\<rparr>)" by (rule event_step.network [OF i(2)])
  then show st: "(sys_step L N)\<^sup>*\<^sup>* s (s\<lparr>sy_w := (sy_w s)\<lparr>w_ssl := x\<rparr>\<rparr>)" by (auto intro: sys_step.event)
  have "calm issued (sy_w s) ((sy_w s)\<lparr>w_ssl := x\<rparr>)" by (rule calm_other [OF calm_refl]) (use assms(3) in simp_all)
  then show "service_inv R ngb issued (s\<lparr>sy_w := (sy_w s)\<lparr>w_ssl := x\<rparr>\<rparr>)"
    by (intro service_inv_calm [OF law inv st]) (use i(2,3,5) assms(3) in \<open>auto simp: calm2_def held_def\<close>)
qed

lemma accept_round_ok:
  fixes k :: nat
  assumes law: "service_law L N E R work ngb issued pend" and inv: "service_inv R ngb issued s"
    and acc: "h3q_conn_accept_stream (lib_ssl L) (w_ssl (sy_w s)) (qconn (w_se (sy_w s))) = (x, Some q)"
  defines "s1 \<equiv> sv_sync E k (s\<lparr>sy_w := (sy_w s)\<lparr>w_ssl := x\<rparr>\<rparr>)"
  obtains w where "accept_stream L True cond_ok q (sy_w s1) = Some w" and "(sys_step L N)\<^sup>*\<^sup>* s (s1\<lparr>sy_w := w\<rparr>)"
    and "service_inv R ngb issued (s1\<lparr>sy_w := w\<rparr>)" and "length (sy_tasks s1) \<le> length (sy_tasks s)" and "sy_todo s1 = sy_todo s"
    and "pend (w_ssl w) < pend (w_ssl (sy_w s))" and "card (ran (streams (w_se w))) \<le> Suc (card (ran (streams (w_se (sy_w s)))))"
proof -
  from law obtain sent B where l: "libs_law L R sent" "worker_law R N" "issue_law (lib_ssl L) issued" "accept_law (lib_ssl L) issued pend B"
    by (rule service_lawD)
  let ?sx = "s\<lparr>sy_w := (sy_w s)\<lparr>w_ssl := x\<rparr>\<rparr>"
  obtain c where c: "SSL_accept_stream (lib_ssl L) (w_ssl (sy_w s)) c = (x, Some q)"
    using acc by (auto simp: h3q_conn_accept_stream_def split: option.splits)
  have q: "issued (w_ssl (sy_w s)) \<subseteq> issued x" "q \<notin> issued (w_ssl (sy_w s))" "q \<in> issued x" "pend x < pend (w_ssl (sy_w s))"
    using l(4) c unfolding accept_law_def by blast+
  note nx = network_ok [OF law inv q(1)]
  note sx = sync_ok [OF law nx(2), of k, folded s1_def]
  note i = service_invD [OF sx(2)]
  have f: "held (sy_w s1) = held (sy_w s)" "w_ssl (sy_w s1) = x" "streams (w_se (sy_w s1)) = streams (w_se (sy_w s))"
    "length (sy_tasks s1) \<le> length (sy_tasks s)" "sy_todo s1 = sy_todo s"
    using sx(3) by (simp_all add: worker_frame_def Let_def held_def)
  obtain w where a: "accept_stream L True cond_ok q (sy_w s1) = Some w" using accept_stream_defined by blast
  note fr = accept_stream_frame [OF l(3,4) i(6) a]
  have nq: "q \<notin> held (sy_w s1)" using service_invD(5) [OF inv] q(2) f(1) by blast
  have st: "sys_step L N s1 (s1\<lparr>sy_w := w\<rparr>)" by (intro sys_step.event event_step.accept [OF i(2,3) nq a])
  have "service_inv R ngb issued (s1\<lparr>sy_w := w\<rparr>)"
  proof (rule service_inv_calm [OF law sx(2)])
    show "(sys_step L N)\<^sup>*\<^sup>* s1 (s1\<lparr>sy_w := w\<rparr>)" using st by (rule r_into_rtranclp)
  next
    show "held (sy_w (s1\<lparr>sy_w := w\<rparr>)) \<subseteq> issued (w_ssl (sy_w (s1\<lparr>sy_w := w\<rparr>)))"
      using fr(2) i(5) q(3) f(2) calm_issued [OF fr(1)] by auto
  qed (use i(2,3) fr(1) in \<open>simp_all add: calm2_def\<close>)
  moreover have "(sys_step L N)\<^sup>*\<^sup>* s (s1\<lparr>sy_w := w\<rparr>)" using nx(1) sx(1) st by (meson rtranclp.rtrancl_into_rtrancl rtranclp_trans)
  ultimately show thesis using a f fr(3,4) q(4) by (intro that [of w]) simp_all
qed

lemma accept_loop_ok:
  assumes law: "service_law L N E R work ngb issued pend"
  shows "service_inv R ngb issued s \<Longrightarrow> pend (w_ssl (sy_w s)) < f \<Longrightarrow>
    \<exists>s' n'. accept_loop L E f k (s, n) = Done (s', n') \<and> (sys_step L N)\<^sup>*\<^sup>* s s' \<and> service_inv R ngb issued s' \<and>
      length (sy_tasks s') \<le> length (sy_tasks s) \<and> sy_todo s' = sy_todo s \<and>
      card (ran (streams (w_se (sy_w s')))) \<le> card (ran (streams (w_se (sy_w s)))) + pend (w_ssl (sy_w s))"
proof (induction f arbitrary: k s n)
  case (Suc f)
  from law obtain sent B where l: "\<forall>k. sv_track_pool E k" "accept_law (lib_ssl L) issued pend B" by (rule service_lawD)
  obtain x r where acc: "h3q_conn_accept_stream (lib_ssl L) (w_ssl (sy_w s)) (qconn (w_se (sy_w s))) = (x, r)" by fastforce
  show ?case
  proof (cases r)
    case None
    have "issued (w_ssl (sy_w s)) \<subseteq> issued x"
      using acc l(2) unfolding accept_law_def h3q_conn_accept_stream_def by (fastforce split: option.splits)
    from network_ok [OF law Suc(2) this] show ?thesis by (simp add: acc None)
  next
    case (Some q)
    let ?s1 = "sv_sync E (2 + k) (s\<lparr>sy_w := (sy_w s)\<lparr>w_ssl := x\<rparr>\<rparr>)"
    from accept_round_ok [OF law Suc(2) acc [unfolded Some], where k = "2 + k" and cond_ok = "sv_track_cond E k"] obtain w where
      r: "accept_stream L True (sv_track_cond E k) q (sy_w ?s1) = Some w" "(sys_step L N)\<^sup>*\<^sup>* s (?s1\<lparr>sy_w := w\<rparr>)"
        "service_inv R ngb issued (?s1\<lparr>sy_w := w\<rparr>)" "length (sy_tasks ?s1) \<le> length (sy_tasks s)" "sy_todo ?s1 = sy_todo s"
        "pend (w_ssl w) < pend (w_ssl (sy_w s))" "card (ran (streams (w_se w))) \<le> Suc (card (ran (streams (w_se (sy_w s)))))" by blast
    have "pend (w_ssl (sy_w (?s1\<lparr>sy_w := w\<rparr>))) < f" using r(6) Suc(3) by simp
    from Suc(1) [OF r(3) this, of "Suc k" "n + 1"] obtain s' n' where
      ih: "accept_loop L E f (Suc k) (?s1\<lparr>sy_w := w\<rparr>, n + 1) = Done (s', n')" "(sys_step L N)\<^sup>*\<^sup>* (?s1\<lparr>sy_w := w\<rparr>) s'" "service_inv R ngb issued s'"
        "length (sy_tasks s') \<le> length (sy_tasks ?s1)" "sy_todo s' = sy_todo ?s1"
        "card (ran (streams (w_se (sy_w s')))) \<le> card (ran (streams (w_se w))) + pend (w_ssl w)" by auto
    have "accept_loop L E (Suc f) k (s, n) = Done (s', n')" using acc Some l(1) r(1) ih(1) by simp
    moreover have "card (ran (streams (w_se (sy_w s')))) \<le> card (ran (streams (w_se (sy_w s)))) + pend (w_ssl (sy_w s))" using ih(6) r(6,7) by linarith
    ultimately show ?thesis using rtranclp_trans [OF r(2) ih(2)] ih(3-5) r(4,5) by (intro exI [of _ s'] exI [of _ n']) simp
  qed
qed simp

text \<open>Handing over requests.\<close>

lemma process_request_calm:
  assumes p: "p < length (objs (w_se w))" and run: "h3_process_request pool_ok push_ok logio c p (w, []) = (w', new)"
  shows "calm issued w w'" and "held w' = held w" and "w_ssl w' = w_ssl w" and "length new \<le> 1"
proof -
  have d: "calm issued w0 (put_obj p ((get_obj w p)\<lparr>dispatched := b\<rparr>) w) = calm issued w0 (put_obj p ((get_obj w p)\<lparr>dispatched := b\<rparr>) w)"
    "held (put_obj p ((get_obj w p)\<lparr>dispatched := b\<rparr>) w) = held w" if "p < length (objs (w_se w))" for w0 w :: "'a world" and b
    using that by (simp_all add: held_put)
  have c: "calm issued w0 (upd_se (\<lambda>se. se\<lparr>active_tasks := k\<rparr>) w) = calm issued w0 w"
    "held (upd_se (\<lambda>se. se\<lparr>active_tasks := k\<rparr>) w) = held w" for w0 w :: "'a world" and k
    by (rule calm_eq; simp) (simp add: held_def handles_def)
  have "calm issued w w' \<and> held w' = held w \<and> w_ssl w' = w_ssl w \<and> length new \<le> 1"
    using run p
    by (auto simp: h3_process_request_def reserve_def unreserve_def count_task_def uncount_task_def c d(2) Let_def
        split: if_splits intro!: calm_put)
  then show "calm issued w w'" "held w' = held w" "w_ssl w' = w_ssl w" "length new \<le> 1" by simp_all
qed

lemma dispatch_loop_ok:
  assumes law: "service_law L N E R work ngb issued pend"
  shows "service_inv R ngb issued s \<Longrightarrow> sy_todo s = ps \<Longrightarrow> length (sy_tasks s) + length ps < 2 ^ 32 \<Longrightarrow>
    (sys_step L N)\<^sup>*\<^sup>* s (dispatch_loop E logio c k ps s) \<and> service_inv R ngb issued (dispatch_loop E logio c k ps s) \<and>
    sy_todo (dispatch_loop E logio c k ps s) = []"
proof (induction ps arbitrary: k s)
  case (Cons p ps)
  let ?s1 = "sv_sync E k s"
  note y = sync_ok [OF law Cons(2), of k]
  note i = service_invD [OF y(2)]
  have f: "sy_todo ?s1 = p # ps" "length (sy_tasks ?s1) \<le> length (sy_tasks s)" using y(3) Cons(3) by (simp_all add: worker_frame_def)
  obtain w new where h: "h3_process_request (sv_task_pool E k) (sv_push E k) logio c p (sy_w ?s1, []) = (w, new)" by fastforce
  let ?s2 = "?s1\<lparr>sy_w := w, sy_todo := ps, sy_tasks := sy_tasks ?s1 @ map (\<lambda>t. (fst t, Queued_task)) new\<rparr>"
  have "length (sy_tasks ?s1) + 1 < 2 ^ 32" using f(2) Cons(4) by simp
  from process_request_run [OF i(2,3) f(1) this h, of L N] have st: "(sys_step L N)\<^sup>*\<^sup>* ?s1 ?s2" by auto
  have "p < length (objs (w_se (sy_w ?s1)))" using ran_lt [OF i(6)] sys_invD(4) [OF i(1,2)] f(1) by simp
  note pc = process_request_calm [OF this h]
  have hi: "held w \<subseteq> issued (w_ssl w)" using i(5) by (simp add: pc(2,3))
  have inv2: "service_inv R ngb issued ?s2"
    by (rule service_inv_calm [OF law y(2) st]) (use i(2,3) pc(1) hi in \<open>simp_all add: calm2_def\<close>)
  have "length (sy_tasks ?s2) + length ps < 2 ^ 32" using f(2) Cons(4) pc(4) by simp
  from Cons(1) [OF inv2 _ this, of "Suc k"] rtranclp_trans [OF y(1) rtranclp_trans [OF st]]
  show ?case by (simp add: h Let_def)
qed simp

text \<open>Closing down.\<close>

definition pass_frame :: "('o, 'ng) sys \<Rightarrow> ('o, 'ng) sys \<Rightarrow> bool" where
  "pass_frame s s' \<longleftrightarrow> length (sy_tasks s') \<le> length (sy_tasks s) \<and> sy_todo s' = sy_todo s \<and>
     streams (w_se (sy_w s')) = streams (w_se (sy_w s))"

lemma pass_frame_trans: "pass_frame a b \<Longrightarrow> pass_frame b c \<Longrightarrow> pass_frame a c"
  by (simp add: pass_frame_def)

text \<open>From \<open>s\<close> to \<open>s'\<close> there is a run, the invariant holds there, and no task or stream has been added.\<close>

definition leads_to ::
  "('o, 'ng) libs \<Rightarrow> 'ng worker_ops \<Rightarrow> ('o, 'ng) agree \<Rightarrow> ('ng \<Rightarrow> int set) \<Rightarrow> ('o \<Rightarrow> qstream set) \<Rightarrow> ('o, 'ng) sys \<Rightarrow> ('o, 'ng) sys \<Rightarrow> bool" where
  "leads_to L N R ngb issued s s' \<longleftrightarrow> (sys_step L N)\<^sup>*\<^sup>* s s' \<and> service_inv R ngb issued s' \<and> pass_frame s s'"

lemma leads_to_trans:
  "leads_to L N R ngb issued a b \<Longrightarrow> leads_to L N R ngb issued b c \<Longrightarrow> leads_to L N R ngb issued a c"
  unfolding leads_to_def using pass_frame_trans by (auto elim: rtranclp_trans)

lemma leads_to_refl: "service_inv R ngb issued s \<Longrightarrow> leads_to L N R ngb issued s s"
  by (simp add: leads_to_def pass_frame_def)

lemma leads_to_sync:
  assumes "service_law L N E R work ngb issued pend" and "service_inv R ngb issued s"
  shows "leads_to L N R ngb issued s (sv_sync E k s)"
  using sync_ok [OF assms] by (simp add: leads_to_def pass_frame_def worker_frame_def Let_def)

lemma leads_to_flush:
  assumes "service_law L N E R work ngb issued pend" and "service_inv R ngb issued s"
  obtains s' where "flush_sys L E s = Done s'" and "leads_to L N R ngb issued s s'"
    and "goaway_deadline (w_se (sy_w s')) = goaway_deadline (w_se (sy_w s))"
proof -
  obtain s' where f: "flush_sys L E s = Done s'" "(sys_step L N)\<^sup>*\<^sup>* s s'" "service_inv R ngb issued s'"
    "evt_frame (sy_w s) (sy_w s')" "sy_tasks s' = sy_tasks s" "sy_todo s' = sy_todo s" by (rule flush_sys_ok [OF assms])
  have "streams (w_se (sy_w s')) = streams (w_se (sy_w s))" "goaway_deadline (w_se (sy_w s')) = goaway_deadline (w_se (sy_w s))"
    using f(4) by (simp_all add: evt_frame_def Let_def)
  then show thesis using f by (intro that [of s']) (simp_all add: leads_to_def pass_frame_def)
qed

lemma leads_to_event:
  assumes law: "service_law L N E R work ngb issued pend" and inv: "service_inv R ngb issued s"
  shows "leads_to L N R ngb issued s (s\<lparr>sy_ng := wo_submit_shutdown_notice N (sy_ng s)\<rparr>)"
    and "leads_to L N R ngb issued s (s\<lparr>sy_ng := wo_shutdown N (sy_ng s)\<rparr>)"
    and "leads_to L N R ngb issued s (s\<lparr>sy_w := upd_se (\<lambda>se. se\<lparr>goaway_deadline := t\<rparr>) (sy_w s)\<rparr>)"
    and "leads_to L N R ngb issued s (set_aborted s)"
proof -
  note i = service_invD [OF inv]
  from law obtain sent where bl: "block_law L N ngb" by (rule service_lawD)
  have gen: "leads_to L N R ngb issued s s'" if "event_step L N s s'" "sy_pc s' = sy_pc s" "sy_gone s' = sy_gone s"
      "sy_tasks s' = sy_tasks s" "sy_todo s' = sy_todo s" "streams (w_se (sy_w s')) = streams (w_se (sy_w s))"
      "held (sy_w s') = held (sy_w s)" "w_ssl (sy_w s') = w_ssl (sy_w s)"
      "calm2 ngb issued (sy_ng s, sy_w s) (sy_ng s', sy_w s')" for s'
  proof -
    have st: "(sys_step L N)\<^sup>*\<^sup>* s s'" using that(1) by (auto intro: sys_step.event)
    have "service_inv R ngb issued s'" by (rule service_inv_calm [OF law inv st]) (use that i(2,3,5) in simp_all)
    then show ?thesis using st that by (simp add: leads_to_def pass_frame_def)
  qed
  have c: "calm issued (sy_w s) (upd_se f (sy_w s))" if "objs (f (w_se (sy_w s))) = objs (w_se (sy_w s))" "streams (f (w_se (sy_w s))) = streams (w_se (sy_w s))" for f
    by (rule calm_other [OF calm_refl]) (use that in simp_all)
  show "leads_to L N R ngb issued s (s\<lparr>sy_ng := wo_submit_shutdown_notice N (sy_ng s)\<rparr>)"
    by (rule gen [OF event_step.notice [OF i(2,3)]]) (use block_lawD(5) [OF bl] in \<open>simp_all add: calm2_def\<close>)
  show "leads_to L N R ngb issued s (s\<lparr>sy_ng := wo_shutdown N (sy_ng s)\<rparr>)"
    by (rule gen [OF event_step.shutdown [OF i(2,3)]]) (use block_lawD(6) [OF bl] in \<open>simp_all add: calm2_def\<close>)
  show "leads_to L N R ngb issued s (s\<lparr>sy_w := upd_se (\<lambda>se. se\<lparr>goaway_deadline := t\<rparr>) (sy_w s)\<rparr>)"
    by (rule gen [OF event_step.deadline [OF i(2,3)]]) (use c [of "\<lambda>se. se\<lparr>goaway_deadline := t\<rparr>"] in \<open>simp_all add: calm2_def held_def handles_def\<close>)
  show "leads_to L N R ngb issued s (set_aborted s)" unfolding set_aborted_def
    by (rule gen [OF event_step.abort [OF i(2,3)]]) (use c [of "\<lambda>se. se\<lparr>aborted := True\<rparr>"] in \<open>simp_all add: calm2_def held_def handles_def\<close>)
qed

lemma leads_to_inv: "leads_to L N R ngb issued s s' \<Longrightarrow> service_inv R ngb issued s'"
  by (simp add: leads_to_def)

lemma goaway_pass_ok:
  assumes law: "service_law L N E R work ngb issued pend" and inv: "service_inv R ngb issued s"
  obtains ended s' where "goaway_pass L N E s = Done (ended, s')" and "leads_to L N R ngb issued s s'"
    and "ended \<longrightarrow> aborted (w_se (sy_w s'))"
    and "goaway_deadline (w_se (sy_w s)) \<noteq> 0 \<longrightarrow> goaway_deadline (w_se (sy_w s)) \<le> sv_now E 1 \<longrightarrow> ended"
proof -
  note ev = leads_to_event [OF law]
  let ?s1 = "sv_sync E 0 s"
  define s2 where "s2 = (if goaway_deadline (w_se (sy_w ?s1)) = 0 then ?s1\<lparr>sy_ng := wo_submit_shutdown_notice N (sy_ng ?s1)\<rparr> else ?s1)"
  note l1 = leads_to_sync [OF law inv, of 0]
  have l2: "leads_to L N R ngb issued s s2"
    using l1 leads_to_trans [OF l1 ev(1) [OF leads_to_inv [OF l1]]] by (simp add: s2_def)
  obtain s3 where f3: "flush_sys L E s2 = Done s3" and l3: "leads_to L N R ngb issued s2 s3"
    and g3: "goaway_deadline (w_se (sy_w s3)) = goaway_deadline (w_se (sy_w s2))"
    by (rule leads_to_flush [OF law leads_to_inv [OF l2]])
  have g: "goaway_deadline (w_se (sy_w s3)) = goaway_deadline (w_se (sy_w s))"
    using sync_ok(3) [OF law inv, of 0] g3 by (simp add: s2_def worker_frame_def Let_def)
  define s4 where "s4 = (if goaway_deadline (w_se (sy_w s3)) = 0
      then s3\<lparr>sy_w := upd_se (\<lambda>se. se\<lparr>goaway_deadline := sv_now E 0 + H3_GOAWAY_GRACE_SECS * 1000000\<rparr>) (sy_w s3)\<rparr> else s3)"
  have l4: "leads_to L N R ngb issued s s4"
    using leads_to_trans [OF l2 l3] leads_to_trans [OF leads_to_trans [OF l2 l3] ev(3) [OF leads_to_inv [OF l3]]] by (simp add: s4_def)
  let ?s5 = "sv_sync E 1 s4"
  note l5 = leads_to_trans [OF l4 leads_to_sync [OF law leads_to_inv [OF l4], of 1]]
  note l6 = leads_to_trans [OF l5 ev(2) [OF leads_to_inv [OF l5]]]
  obtain s7 where f7: "flush_sys L E (?s5\<lparr>sy_ng := wo_shutdown N (sy_ng ?s5)\<rparr>) = Done s7"
    and l7: "leads_to L N R ngb issued (?s5\<lparr>sy_ng := wo_shutdown N (sy_ng ?s5)\<rparr>) s7"
    by (rule leads_to_flush [OF law leads_to_inv [OF l6]])
  note l8 = leads_to_trans [OF leads_to_trans [OF l6 l7] ev(4) [OF leads_to_inv [OF l7]]]
  have e: "goaway_pass L N E s = (if wo_is_drained N (sy_ng s3) \<or> goaway_deadline (w_se (sy_w s4)) \<le> sv_now E 1
      then Done (True, set_aborted s7) else Done (False, s4))"
    by (simp add: goaway_pass_def Let_def run_then_def s2_def [symmetric] f3 s4_def [symmetric] f7 del: One_nat_def)
  show thesis
  proof (cases "wo_is_drained N (sy_ng s3) \<or> goaway_deadline (w_se (sy_w s4)) \<le> sv_now E 1")
    case True
    with e l8 show ?thesis by (intro that [of True "set_aborted s7"]) (simp_all add: set_aborted_def)
  next
    case False
    with e l4 g show ?thesis by (intro that [of False s4]) (auto simp: s4_def split: if_splits)
  qed
qed

lemma session_work_ok:
  assumes law: "service_law L N E R work ngb issued pend" and inv: "service_inv R ngb issued s"
    and room: "length (sy_tasks s) + card (ran (streams (w_se (sy_w s)))) < 2 ^ 32"
  obtains read s' where "session_work L E logio c k s = Done (read, s')" and "(sys_step L N)\<^sup>*\<^sup>* s s'"
    and "service_inv R ngb issued s'" and "aborted (w_se (sy_w s')) \<or> sy_todo s' = []"
proof -
  note l0 = leads_to_sync [OF law inv, of k]
  note i0 = leads_to_inv [OF l0]
  obtain read s1 where d: "drain_sys L (sv_sync E k s) = Done (read, s1)" "(sys_step L N)\<^sup>*\<^sup>* (sv_sync E k s) s1"
    "service_inv R ngb issued s1" "sy_tasks s1 = sy_tasks (sv_sync E k s)"
    "length (sy_todo s1) \<le> card (ran (streams (w_se (sy_w (sv_sync E k s)))))"
    by (rule drain_sys_ok [OF law i0])
  obtain s2 where f2: "flush_sys L E s1 = Done s2" and l2: "leads_to L N R ngb issued s1 s2" by (rule leads_to_flush [OF law d(3)])
  note i2 = leads_to_inv [OF l2]
  have r2: "(sys_step L N)\<^sup>*\<^sup>* s s2" using l0 d(2) l2 by (auto simp: leads_to_def elim!: rtranclp_trans)
  have n2: "length (sy_tasks s2) + length (sy_todo s2) < 2 ^ 32"
    using l0 l2 d(4,5) room by (auto simp: leads_to_def pass_frame_def)
  show thesis
  proof (cases "ngh3_dead (w_se (sy_w s2))")
    case True
    have "leads_to L N R ngb issued s2 (set_aborted s2)" by (rule leads_to_event(4) [OF law i2])
    then show ?thesis using r2 True
      by (intro that [of False "set_aborted s2"]) (auto simp: session_work_def run_then_def d(1) f2 leads_to_def set_aborted_def elim: rtranclp_trans)
  next
    case False
    let ?s3 = "dispatch_loop E logio c (Suc k) (sy_todo s2) s2"
    have d3: "(sys_step L N)\<^sup>*\<^sup>* s2 ?s3" "service_inv R ngb issued ?s3" "sy_todo ?s3 = []"
      using dispatch_loop_ok [OF law i2 refl n2] by blast+
    let ?s4 = "sv_sync E (Suc k + length (sy_todo s2)) ?s3"
    note l4 = leads_to_sync [OF law d3(2), of "Suc k + length (sy_todo s2)"]
    obtain s5 where f5: "flush_sys L E ?s4 = Done s5" and l5: "leads_to L N R ngb issued ?s4 s5"
      by (rule leads_to_flush [OF law leads_to_inv [OF l4]])
    have "session_work L E logio c k s = Done (read, s5)" using False by (simp add: session_work_def run_then_def d(1) f2 Let_def f5 del: add_Suc)
    moreover have "(sys_step L N)\<^sup>*\<^sup>* s s5"
      using rtranclp_trans [OF rtranclp_trans [OF r2 d3(1)]] leads_to_trans [OF l4 l5] by (simp add: leads_to_def)
    moreover have "sy_todo s5 = []" using leads_to_trans [OF l4 l5] d3(3) by (simp add: leads_to_def pass_frame_def)
    ultimately show ?thesis using leads_to_inv [OF l5] by (intro that disjI2)
  qed
qed

text \<open>The opening of a pass, and the accept loop followed by the work.\<close>

lemma opening_ok:
  assumes law: "service_law L N E R work ngb issued pend" and inv: "service_inv R ngb issued s"
  obtains ended s' where "(if running then Done (False, s) else goaway_pass L N E s) = Done (ended, s')"
    and "leads_to L N R ngb issued s s'" and "ended \<longrightarrow> aborted (w_se (sy_w s'))" and "running \<longrightarrow> s' = s \<and> \<not> ended"
    and "\<not> running \<longrightarrow> goaway_deadline (w_se (sy_w s)) \<noteq> 0 \<longrightarrow> goaway_deadline (w_se (sy_w s)) \<le> sv_now E 1 \<longrightarrow> ended"
proof (cases running)
  case True
  then show thesis using leads_to_refl [OF inv] by (intro that [of False s]) simp_all
next
  case False
  obtain ended s' where "goaway_pass L N E s = Done (ended, s')" "leads_to L N R ngb issued s s'" "ended \<longrightarrow> aborted (w_se (sy_w s'))"
    "goaway_deadline (w_se (sy_w s)) \<noteq> 0 \<longrightarrow> goaway_deadline (w_se (sy_w s)) \<le> sv_now E 1 \<longrightarrow> ended"
    by (rule goaway_pass_ok [OF law inv])
  then show thesis using False by (intro that [of ended s']) simp_all
qed

lemma accept_and_work_ok:
  assumes law: "service_law L N E R work ngb issued pend" and inv: "service_inv R ngb issued s"
    and room: "length (sy_tasks s) + card (ran (streams (w_se (sy_w s)))) + sv_accept_fuel E < 2 ^ 32"
  obtains read s2 s3 seen' where "accept_loop L E (sv_accept_fuel E) 0 (s, seen) = Done (s2, seen')"
    and "session_work L E logio c (2 + sv_accept_fuel E) s2 = Done (read, s3)" and "(sys_step L N)\<^sup>*\<^sup>* s s3"
    and "service_inv R ngb issued s3" and "aborted (w_se (sy_w s3)) \<or> sy_todo s3 = []"
proof -
  from law obtain sent B where b: "accept_law (lib_ssl L) issued pend B" "B < sv_accept_fuel E" by (rule service_lawD)
  have pn: "pend (w_ssl (sy_w s)) < sv_accept_fuel E" using b by (auto simp: accept_law_def intro: le_less_trans)
  from accept_loop_ok [OF law inv pn, of 0 seen] obtain s2 seen' where
    a: "accept_loop L E (sv_accept_fuel E) 0 (s, seen) = Done (s2, seen')" "(sys_step L N)\<^sup>*\<^sup>* s s2" "service_inv R ngb issued s2"
      "length (sy_tasks s2) \<le> length (sy_tasks s)"
      "card (ran (streams (w_se (sy_w s2)))) \<le> card (ran (streams (w_se (sy_w s)))) + pend (w_ssl (sy_w s))" by blast
  have "length (sy_tasks s2) + card (ran (streams (w_se (sy_w s2)))) < 2 ^ 32" using a(4,5) room pn by simp
  from session_work_ok [OF law a(3) this, where logio = logio and c = c and k = "2 + sv_accept_fuel E"] obtain read s3 where
    r: "session_work L E logio c (2 + sv_accept_fuel E) s2 = Done (read, s3)" "(sys_step L N)\<^sup>*\<^sup>* s2 s3"
      "service_inv R ngb issued s3" "aborted (w_se (sy_w s3)) \<or> sy_todo s3 = []" by blast
  show thesis by (rule that [OF a(1) r(1) rtranclp_trans [OF a(2) r(2)] r(3,4)])
qed

section \<open>Correctness\<close>


definition wit_accept_ssl :: "(byte list) openssl" where
  "wit_accept_ssl = wit_ssl\<lparr>SSL_accept_stream := (\<lambda>s c. if s = [] then ([0], Some 6) else (s, None))\<rparr>"

definition wit_accept_libs :: "(byte list, byte list \<times> int set) libs" where
  "wit_accept_libs = wit_libs\<lparr>lib_ssl := wit_accept_ssl\<rparr>"

definition wit_env :: "(byte list, byte list \<times> int set) service_env" where
  "wit_env = \<lparr>sv_sync = (\<lambda>k s. s), sv_now = (\<lambda>k. 7), sv_scratch_ok = True, sv_track_pool = (\<lambda>k. True), sv_track_cond = (\<lambda>k. True),
     sv_task_pool = (\<lambda>k. True), sv_push = (\<lambda>k. True), sv_fuel = (\<lambda>ng w. Suc (length (fst ng) + card (ran (streams (w_se w))))),
     sv_accept_fuel = 2\<rparr>"

definition wit_conn :: "nat conn_rec" where
  "wit_conn = \<lparr>cn_id = 1, cn_master = True, cn_notes = [], cn_local_ip = [], cn_client_ip = [], cn_remote_host = None,
     cn_client_addr = None, cn_local_addr = None, cn_requests = [], cn_sbh = None, cn_logio = False, cn_async_filter = -1,
     cn_clogging_input_filters = True\<rparr>"

abbreviation wit_issued :: "byte list \<Rightarrow> qstream set" where
  "wit_issued s \<equiv> (if s = [] then {5} else {5, 6})"

lemma wit_service_law:
  "service_law wit_accept_libs wit_worker_ops wit_env wit_agree (\<lambda>ng w. length (fst ng)) snd wit_issued (\<lambda>s. if s = [] then 1 else 0)"
proof -
  have "ng_law wit_accept_libs wit_agree"
    by (auto simp: ng_law_def tree_ok_def wit_accept_libs_def wit_libs_def wit_ng_def wit_agree_def split: option.splits)
  moreover have "ssl_read_law wit_accept_ssl" by (simp add: ssl_read_law_def wit_accept_ssl_def wit_ssl_def)
  moreover have "ssl_write_law wit_accept_ssl (\<lambda>s q. s)" using wit_ssl_write_law by (simp add: ssl_write_law_def wit_accept_ssl_def)
  ultimately have "libs_law wit_accept_libs wit_agree (\<lambda>s q. s)" using wit_palloc_law by (simp add: libs_law_def wit_accept_libs_def wit_libs_def)
  moreover have "ng_progress wit_accept_libs wit_agree (\<lambda>ng w. length (fst ng)) snd"
    by (auto simp: ng_progress_def wit_accept_libs_def wit_libs_def wit_ng_def wit_agree_def split: if_splits)
  moreover have "block_law wit_accept_libs wit_worker_ops snd"
    by (simp add: block_law_def wit_accept_libs_def wit_libs_def wit_ng_def wit_worker_ops_def)
  moreover have "issue_law wit_accept_ssl wit_issued" by (simp add: issue_law_def wit_accept_ssl_def wit_ssl_def)
  moreover have "accept_law wit_accept_ssl wit_issued (\<lambda>s. if s = [] then 1 else 0) 1"
    by (simp add: accept_law_def wit_accept_ssl_def wit_ssl_def)
  ultimately show ?thesis using wit_worker_law
    by (auto simp: service_law_def sync_law_def wit_env_def wit_accept_libs_def)
qed

lemma wit_service_inv: "service_inv wit_agree snd wit_issued (wit_sys\<lparr>sy_todo := []\<rparr>)"
proof -
  have "sys_start wit_agree (wit_sys\<lparr>sy_todo := []\<rparr>)" using wit_sys_start by (simp add: sys_start_def)
  then show ?thesis using sys_start_inv
    by (auto simp: service_inv_def wit_sys_def blocked_agree_def held_def handles_def)
      (auto simp: wit_world_def zero_session_def get_obj_def one_stream_def zero_stream_def List.map_filter_simps split: if_splits)
qed


end
