(* ===== verification/H3_Server.thy ===== *)
theory H3_Server
  imports H3_Config Quic_Engine H3_Socket
begin

text \<open>
  The life of a child process: starting and stopping the listener (\<^verbatim>\<open>src/h3_io.c\<close>), the hooks
  that run when the child starts and stops, and the thread that waits for the port
  (\<^verbatim>\<open>src/h3_server.c\<close>). The resources are explicit: OpenSSL objects, worker pools, event
  threads, and the descriptors closed, in order.
\<close>

section \<open>State\<close>

text \<open>The fields of \<^verbatim>\<open>h3_io_t\<close> that starting and stopping use; pointers to threads and pools are flags.\<close>

record h3_io_t =
  io_qengine :: "h3q_engine option"
  io_udp_fd :: int
  io_event_thread :: bool
  io_active_sessions :: nat
  io_thread_running :: bool
  io_wakeup :: h3_wakeup
  io_worker_pool :: bool

record child =
  ch_net :: net
  ch_closes :: "int list"
  ch_res :: ossl_res
  ch_pools :: nat
  ch_threads :: nat
  child_h3_io :: "h3_io_t option"
  child_stopping :: bool
  port_acquire_thread :: bool

text \<open>
  The outcome of the calls of a start: the steps of the wakeup pair, the worker pool, the
  engine, the optional functions of the MPM, and the event thread. \<open>li_ran\<close> is what the event
  thread makes of the engine until it ends.
\<close>

record listen_env =
  li_wakeup :: "wakeup_step \<Rightarrow> apr_status"
  li_reader :: nat
  li_writer :: nat
  li_reader_fd :: int
  li_pool :: bool
  li_engine :: engine_env
  li_notes :: bool
  li_attr :: bool
  li_thread :: bool
  li_ran :: "h3q_engine \<Rightarrow> h3q_engine"

section \<open>Starting and stopping the listener\<close>

text \<open>
  Joining the event thread: it ends only when no session is left. The wait that follows looks
  at the number of sessions until it is zero.
\<close>

definition join_event_thread :: "listen_env \<Rightarrow> h3_io_t \<Rightarrow> h3_io_t" where
  "join_event_thread E io = io\<lparr>io_thread_running := False, io_event_thread := False, io_active_sessions := 0,
     io_qengine := map_option (li_ran E) (io_qengine io)\<rparr>"

fun wait_sessions :: "nat \<Rightarrow> nat \<Rightarrow> unit c_run" where
  "wait_sessions 0 nelts = Out_of_fuel"
| "wait_sessions (Suc f) nelts = (if nelts > 0 then wait_sessions f nelts else Done ())"

definition teardown :: "listen_env \<Rightarrow> nat \<Rightarrow> h3_io_t \<Rightarrow> child \<Rightarrow> (h3_io_t \<times> child) c_run" where
  "teardown E fuel io ch =
    (let (io1, ch1) = (if io_event_thread io then (join_event_thread E io, ch\<lparr>ch_threads := ch_threads ch - 1\<rparr>) else (io, ch));
         (io2, ch2) = (if io_worker_pool io1 then (io1\<lparr>io_worker_pool := False\<rparr>, ch1\<lparr>ch_pools := ch_pools ch1 - 1\<rparr>) else (io1, ch1))
     in run_then (wait_sessions fuel (io_active_sessions io2)) (\<lambda>_.
       case h3q_engine_destroy (io_qengine io2) (ch_res ch2) of
         None \<Rightarrow> Undefined
       | Some s \<Rightarrow>
         (let io3 = io2\<lparr>io_qengine := None\<rparr>; ch3 = ch2\<lparr>ch_res := s\<rparr> in
          Done (if io_udp_fd io3 \<ge> 0
                then (io3\<lparr>io_udp_fd := -1\<rparr>, ch3\<lparr>ch_closes := h3_socket_close (io_udp_fd io3) (ch_closes ch3)\<rparr>)
                else (io3, ch3)))))"

definition h3_io_listen_start :: "listen_env \<Rightarrow> nat \<Rightarrow> h3_server_conf \<Rightarrow> int \<Rightarrow> child \<Rightarrow> (apr_status \<times> child) c_run" where
  "h3_io_listen_start E fuel conf udp_fd ch =
    (case h3_wakeup_create (li_wakeup E) (li_reader E) (li_writer E) (li_reader_fd E) of (wrv, wk) \<Rightarrow>
     let io = \<lparr>io_qengine = None, io_udp_fd = udp_fd, io_event_thread = False, io_active_sessions = 0,
               io_thread_running = False, io_wakeup = wk, io_worker_pool = False\<rparr>
     in if wrv \<noteq> APR_SUCCESS then Done (APR_EGENERAL, ch)
        else if \<not> li_pool E then Done (APR_EGENERAL, ch)
        else (let io1 = io\<lparr>io_worker_pool := True\<rparr>; ch1 = ch\<lparr>ch_pools := ch_pools ch + 1\<rparr> in
          case h3q_engine_create (li_engine E) (h3_address_validation conf \<noteq> H3_FLAG_OFF) (nat udp_fd) (ch_res ch1) of
            None \<Rightarrow> Undefined
          | Some (Inl msg, s) \<Rightarrow> run_then (teardown E fuel io1 (ch1\<lparr>ch_res := s\<rparr>)) (\<lambda>(_, ch2). Done (APR_EGENERAL, ch2))
          | Some (Inr e, s) \<Rightarrow>
            (let io2 = io1\<lparr>io_qengine := Some e\<rparr>; ch2 = ch1\<lparr>ch_res := s\<rparr> in
             if \<not> li_notes E then run_then (teardown E fuel io2 ch2) (\<lambda>(_, ch3). Done (APR_EGENERAL, ch3))
             else if \<not> li_attr E \<or> \<not> li_thread E
             then run_then (teardown E fuel io2 ch2) (\<lambda>(_, ch3). Done (APR_EGENERAL, ch3\<lparr>child_h3_io := None\<rparr>))
             else Done (APR_SUCCESS, ch2\<lparr>ch_threads := ch_threads ch2 + 1,
                     child_h3_io := Some (io2\<lparr>io_thread_running := True, io_event_thread := True\<rparr>)\<rparr>))))"

definition h3_io_listen_stop :: "listen_env \<Rightarrow> nat \<Rightarrow> h3_io_t option \<Rightarrow> child \<Rightarrow> child c_run" where
  "h3_io_listen_stop E fuel io ch =
    (case io of
       None \<Rightarrow> Done ch
     | Some x \<Rightarrow> run_then (teardown E fuel x ch) (\<lambda>(_, ch1).
         Done (if child_h3_io ch1 = Some x then ch1\<lparr>child_h3_io := None\<rparr> else ch1)))"

section \<open>The child's hooks\<close>

text \<open>The outcomes of the \<open>k\<close>th attempt to open the port and, at the end, of the start.\<close>

record child_env =
  ce_open :: "nat \<Rightarrow> open_env"
  ce_stopping :: "nat \<Rightarrow> bool"
  ce_listen :: listen_env
  ce_attr :: bool
  ce_thread :: bool

text \<open>Starting on an open descriptor, as both callers do it: the descriptor is closed when the start fails.\<close>

definition start_or_close :: "child_env \<Rightarrow> nat \<Rightarrow> h3_server_conf \<Rightarrow> int \<Rightarrow> child \<Rightarrow> child c_run" where
  "start_or_close E fuel conf udp_fd ch =
     run_then (h3_io_listen_start (ce_listen E) fuel conf udp_fd ch) (\<lambda>(rv, ch1).
       Done (if rv \<noteq> APR_SUCCESS then ch1\<lparr>ch_closes := h3_socket_close udp_fd (ch_closes ch1)\<rparr> else ch1))"

fun port_acquire_thread_fn :: "child_env \<Rightarrow> nat \<Rightarrow> h3_server_conf \<Rightarrow> nat \<Rightarrow> child \<Rightarrow> child c_run" where
  "port_acquire_thread_fn E 0 conf k ch = Out_of_fuel"
| "port_acquire_thread_fn E (Suc f) conf k ch =
    (if ce_stopping E (2 * k) then Done ch
     else (case h3_socket_open (ce_open E k) (ch_net ch) of ((rv, fd), n) \<Rightarrow>
       let ch1 = ch\<lparr>ch_net := n\<rparr>; udp_fd = (case fd of None \<Rightarrow> -1 | Some x \<Rightarrow> x) in
       if rv = APR_EAGAIN then port_acquire_thread_fn E f conf (Suc k) ch1
       else if rv \<noteq> APR_SUCCESS then Done ch1
       else if ce_stopping E (2 * k + 1) then Done (ch1\<lparr>ch_closes := h3_socket_close udp_fd (ch_closes ch1)\<rparr>)
       else start_or_close E (Suc f) conf udp_fd ch1))"

definition h3_child_init :: "child_env \<Rightarrow> nat \<Rightarrow> server_rec list \<Rightarrow> child \<Rightarrow> child c_run" where
  "h3_child_init E fuel servers ch =
    (case find_h3_server servers of
       None \<Rightarrow> Done ch
     | Some (_, conf) \<Rightarrow>
       (case h3_socket_open (ce_open E 0) (ch_net ch) of ((rv, fd), n) \<Rightarrow>
        let ch1 = ch\<lparr>ch_net := n\<rparr>; udp_fd = (case fd of None \<Rightarrow> -1 | Some x \<Rightarrow> x) in
        if rv = APR_EAGAIN then Done (ch1\<lparr>port_acquire_thread := (ce_attr E \<and> ce_thread E)\<rparr>)
        else if rv \<noteq> APR_SUCCESS then Done ch1
        else start_or_close E fuel conf udp_fd ch1))"

text \<open>
  Joining the thread that waits for the port takes in all it did: nothing else uses the
  child's state before the join.
\<close>

definition h3_c1_child_stopping :: "child_env \<Rightarrow> nat \<Rightarrow> h3_server_conf \<Rightarrow> child \<Rightarrow> child c_run" where
  "h3_c1_child_stopping E fuel conf ch =
    (let ch1 = ch\<lparr>child_stopping := True\<rparr> in
     run_then (if port_acquire_thread ch1
               then run_then (port_acquire_thread_fn E fuel conf 1 ch1) (\<lambda>ch2. Done (ch2\<lparr>port_acquire_thread := False\<rparr>))
               else Done ch1)
       (\<lambda>ch3. h3_io_listen_stop (ce_listen E) fuel (child_h3_io ch3) ch3))"

definition child_life :: "child_env \<Rightarrow> nat \<Rightarrow> server_rec list \<Rightarrow> child \<Rightarrow> child c_run" where
  "child_life E fuel servers ch =
     run_then (h3_child_init E fuel servers ch) (\<lambda>ch1.
       h3_c1_child_stopping E fuel (case find_h3_server servers of None \<Rightarrow> h3_create_server_config | Some (_, conf) \<Rightarrow> conf) ch1)"

section \<open>Nothing is left behind\<close>

text \<open>A child that holds nothing but what was opened, and one with a running listener.\<close>

definition child_idle :: "child \<Rightarrow> bool" where
  "child_idle ch \<longleftrightarrow> live (ch_res ch) = [] \<and> owned (ch_res ch) = [] \<and> ch_pools ch = 0 \<and> ch_threads ch = 0 \<and> child_h3_io ch = None"

definition child_serving :: "int \<Rightarrow> child \<Rightarrow> bool" where
  "child_serving fd ch \<longleftrightarrow> ch_pools ch = 1 \<and> ch_threads ch = 1 \<and>
     (\<exists>io e. child_h3_io ch = Some io \<and> io_qengine io = Some e \<and> engine_wf e \<and> engine_holds e (ch_res ch) \<and>
        io_udp_fd io = fd \<and> io_event_thread io \<and> io_thread_running io \<and> io_worker_pool io)"

text \<open>What is relied on of the event thread: it leaves the engine well formed, with the objects it had.\<close>

definition ran_law :: "listen_env \<Rightarrow> bool" where
  "ran_law E \<longleftrightarrow> (\<forall>e s. engine_wf e \<longrightarrow> engine_holds e s \<longrightarrow> engine_wf (li_ran E e) \<and> engine_holds (li_ran E e) s)"

text \<open>A start that got as far as the engine.\<close>

definition reaches_engine :: "listen_env \<Rightarrow> bool" where
  "reaches_engine E \<longleftrightarrow> fst (h3_wakeup_create (li_wakeup E) (li_reader E) (li_writer E) (li_reader_fd E)) = APR_SUCCESS \<and> li_pool E"

definition start_succeeds :: "listen_env \<Rightarrow> h3_server_conf \<Rightarrow> int \<Rightarrow> bool" where
  "start_succeeds E conf fd \<longleftrightarrow> reaches_engine E \<and> li_notes E \<and> li_attr E \<and> li_thread E \<and>
     (\<exists>e s. h3q_engine_create (li_engine E) (h3_address_validation conf \<noteq> H3_FLAG_OFF) (nat fd) no_res = Some (Inr e, s))"

lemma teardown_idle:
  assumes "\<not> io_event_thread io" and "io_worker_pool io" and "io_active_sessions io = 0" and "0 \<le> io_udp_fd io" and "0 < fuel"
    and "(io_qengine io = None \<and> live (ch_res ch) = [] \<and> owned (ch_res ch) = []) \<or>
      (\<exists>e. io_qengine io = Some e \<and> engine_wf e \<and> engine_holds e (ch_res ch))"
    and "ch_pools ch = 1" and "ch_threads ch = 0" and "child_h3_io ch = None"
  obtains io' ch' where "teardown E fuel io ch = Done (io', ch')" and "child_idle ch'" and "ch_closes ch' = ch_closes ch @ [io_udp_fd io]"
    and "ch_net ch' = ch_net ch" and "port_acquire_thread ch' = port_acquire_thread ch"
proof -
  have "\<exists>s. h3q_engine_destroy (io_qengine io) (ch_res ch) = Some s \<and> live s = [] \<and> owned s = []"
    using assms(6) engine_destroy_holds by (auto simp: h3q_engine_destroy_def)
  then obtain s where s: "h3q_engine_destroy (io_qengine io) (ch_res ch) = Some s" "live s = []" "owned s = []" by blast
  obtain f where f: "fuel = Suc f" using assms(5) by (cases fuel) simp_all
  show thesis
    using that assms s f by (simp add: teardown_def Let_def run_then_def child_idle_def h3_socket_close_def h3_socket_os_close_def)
qed

lemma listen_start_ok:
  assumes "0 \<le> fd" and "0 < fuel" and "ch_res ch = no_res" and "ch_pools ch = 0" and "ch_threads ch = 0" and "child_h3_io ch = None"
  obtains rv ch' where "h3_io_listen_start E fuel conf fd ch = Done (rv, ch')" and "ch_net ch' = ch_net ch"
    and "port_acquire_thread ch' = port_acquire_thread ch"
    and "rv = APR_SUCCESS \<longleftrightarrow> start_succeeds E conf fd"
    and "rv = APR_SUCCESS \<longrightarrow> child_serving fd ch' \<and> ch_closes ch' = ch_closes ch"
    and "rv \<noteq> APR_SUCCESS \<longrightarrow> child_idle ch' \<and> ch_closes ch' = ch_closes ch @ (if reaches_engine E then [fd] else [])"
proof -
  obtain wrv wk where w: "h3_wakeup_create (li_wakeup E) (li_reader E) (li_writer E) (li_reader_fd E) = (wrv, wk)" by fastforce
  let ?io = "\<lparr>io_qengine = None, io_udp_fd = fd, io_event_thread = False, io_active_sessions = 0,
      io_thread_running = False, io_wakeup = wk, io_worker_pool = True\<rparr>"
  let ?ch = "ch\<lparr>ch_pools := 1\<rparr>"
  let ?new = "h3q_engine_create (li_engine E) (h3_address_validation conf \<noteq> H3_FLAG_OFF) (nat fd) no_res"
  have idle: "child_idle ch" using assms by (simp add: child_idle_def no_res_def)
  note start = h3_io_listen_start_def w prod.case Let_def assms(3)
  consider (early) "wrv \<noteq> APR_SUCCESS \<or> \<not> li_pool E"
    | (no_engine) msg s where "wrv = APR_SUCCESS" "li_pool E" "?new = Some (Inl msg, s)" "live s = []" "owned s = []"
    | (engine) e s where "wrv = APR_SUCCESS" "li_pool E" "?new = Some (Inr e, s)" "engine_holds e s" "engine_wf e"
    using engine_create_cases [of "li_engine E" "h3_address_validation conf \<noteq> H3_FLAG_OFF" "nat fd"] engine_wf_empty by blast
  then show thesis
  proof cases
    case early
    then show ?thesis using idle w
      by (intro that [of APR_EGENERAL ch]) (auto simp: start start_succeeds_def reaches_engine_def)
  next
    case (no_engine msg s)
    obtain io' ch' where t: "teardown E fuel ?io (?ch\<lparr>ch_res := s\<rparr>) = Done (io', ch')" "child_idle ch'"
      "ch_closes ch' = ch_closes (?ch\<lparr>ch_res := s\<rparr>) @ [io_udp_fd ?io]" "ch_net ch' = ch_net (?ch\<lparr>ch_res := s\<rparr>)"
      "port_acquire_thread ch' = port_acquire_thread (?ch\<lparr>ch_res := s\<rparr>)"
      by (rule teardown_idle [of ?io fuel "?ch\<lparr>ch_res := s\<rparr>" E]) (use assms no_engine in simp_all)
    show ?thesis
      by (rule that [of APR_EGENERAL ch'])
        (use no_engine t w assms(4) in \<open>simp_all add: start run_then_def start_succeeds_def reaches_engine_def\<close>)
  next
    case (engine e s)
    let ?io2 = "?io\<lparr>io_qengine := Some e\<rparr>" and ?ch2 = "?ch\<lparr>ch_res := s\<rparr>"
    show ?thesis
    proof (cases "li_notes E \<and> li_attr E \<and> li_thread E")
      case True
      show ?thesis
        by (rule that [of APR_SUCCESS "?ch2\<lparr>ch_threads := 1, child_h3_io := Some (?io2\<lparr>io_thread_running := True, io_event_thread := True\<rparr>)\<rparr>"])
          (use True engine w assms(4,5) in \<open>simp_all add: start start_succeeds_def reaches_engine_def child_serving_def\<close>)
    next
      case False
      obtain io' ch' where t: "teardown E fuel ?io2 ?ch2 = Done (io', ch')" "child_idle ch'" "ch_closes ch' = ch_closes ?ch2 @ [io_udp_fd ?io2]"
        "ch_net ch' = ch_net ?ch2" "port_acquire_thread ch' = port_acquire_thread ?ch2"
        by (rule teardown_idle [of ?io2 fuel ?ch2 E]) (use assms engine in simp_all)
      have "child_idle (ch'\<lparr>child_h3_io := None\<rparr>)" using t(2) by (simp add: child_idle_def)
      then show ?thesis using False engine t w assms(4)
        by (intro that [of APR_EGENERAL "if li_notes E then ch'\<lparr>child_h3_io := None\<rparr> else ch'"])
          (auto simp: start run_then_def start_succeeds_def reaches_engine_def)
    qed
  qed
qed

lemma listen_stop_ok:
  assumes "child_serving fd ch" and "ran_law E" and "0 \<le> fd" and "0 < fuel"
  obtains ch' where "h3_io_listen_stop E fuel (child_h3_io ch) ch = Done ch'" and "child_idle ch'" and "ch_closes ch' = ch_closes ch @ [fd]"
    and "ch_net ch' = ch_net ch" and "port_acquire_thread ch' = port_acquire_thread ch"
proof -
  obtain io e where io: "child_h3_io ch = Some io" "io_qengine io = Some e" "engine_wf e" "engine_holds e (ch_res ch)" "io_udp_fd io = fd"
    "io_event_thread io" "io_worker_pool io" "ch_pools ch = 1" "ch_threads ch = 1" using assms(1) by (auto simp: child_serving_def)
  have "engine_wf (li_ran E e)" "engine_holds (li_ran E e) (ch_res ch)" using assms(2) io(3,4) by (auto simp: ran_law_def)
  then obtain s where s: "h3q_engine_destroy (Some (li_ran E e)) (ch_res ch) = Some s" "live s = []" "owned s = []"
    using engine_destroy_holds by blast
  obtain f where f: "fuel = Suc f" using assms(4) by (cases fuel) simp_all
  show thesis using that io s f assms(3)
    by (simp add: h3_io_listen_stop_def teardown_def join_event_thread_def Let_def run_then_def child_idle_def h3_socket_close_def
        h3_socket_os_close_def)
qed

text \<open>
  Where a child can be after an attempt to start: nothing opened, or serving, or given up with
  the descriptor closed once or twice. It is closed twice exactly when the start failed after
  the worker pool had been created.
\<close>

definition child_fresh :: "child \<Rightarrow> bool" where
  "child_fresh ch \<longleftrightarrow> ch_res ch = no_res \<and> ch_pools ch = 0 \<and> ch_threads ch = 0 \<and> child_h3_io ch = None \<and>
     open_socks (ch_net ch) = [] \<and> ch_closes ch = []"

definition twice :: "listen_env \<Rightarrow> h3_server_conf \<Rightarrow> int \<Rightarrow> bool" where
  "twice E conf fd \<longleftrightarrow> reaches_engine E \<and> \<not> start_succeeds E conf fd"

definition given_up :: "listen_env \<Rightarrow> h3_server_conf \<Rightarrow> child \<Rightarrow> bool" where
  "given_up E conf ch \<longleftrightarrow> child_idle ch \<and>
     (open_socks (ch_net ch) = [] \<and> ch_closes ch = [] \<or>
      (\<exists>sock fd. open_socks (ch_net ch) = [sock] \<and> 0 \<le> fd \<and> (ch_closes ch = [fd] \<or> ch_closes ch = [fd, fd] \<and> twice E conf fd)))"

definition serving :: "child \<Rightarrow> bool" where
  "serving ch \<longleftrightarrow> (\<exists>sock fd. open_socks (ch_net ch) = [sock] \<and> 0 \<le> fd \<and> child_serving fd ch \<and> ch_closes ch = [])"

lemma fresh_given_up: "child_fresh ch \<Longrightarrow> given_up E conf ch"
  by (simp add: child_fresh_def given_up_def child_idle_def no_res_def)

lemma socket_open_cases:
  assumes "open_socks n = []" and "h3_socket_open N n = ((rv, fd), n')"
  shows "rv = APR_SUCCESS \<and> fd = Some (ne_fd N) \<and> open_socks n' = [ne_sock N] \<or> rv \<noteq> APR_SUCCESS \<and> fd = None \<and> open_socks n' = []"
  using assms by (auto simp: h3_socket_open_def Let_def apr_socket_close_def split: if_splits)

lemma start_or_close_ok:
  assumes "ch_res ch = no_res" and "ch_pools ch = 0" and "ch_threads ch = 0" and "child_h3_io ch = None" and "ch_closes ch = []"
    and "open_socks (ch_net ch) = [sock]" and "0 \<le> fd" and "0 < fuel"
  obtains ch' where "start_or_close E fuel conf fd ch = Done ch'" and "port_acquire_thread ch' = port_acquire_thread ch"
    and "start_succeeds (ce_listen E) conf fd \<longrightarrow> serving ch'"
    and "\<not> start_succeeds (ce_listen E) conf fd \<longrightarrow> given_up (ce_listen E) conf ch'"
    and "twice (ce_listen E) conf fd \<longrightarrow> ch_closes ch' = [fd, fd]"
proof -
  obtain rv ch1 where s: "h3_io_listen_start (ce_listen E) fuel conf fd ch = Done (rv, ch1)" "ch_net ch1 = ch_net ch"
    "port_acquire_thread ch1 = port_acquire_thread ch" "rv = APR_SUCCESS \<longleftrightarrow> start_succeeds (ce_listen E) conf fd"
    "rv = APR_SUCCESS \<longrightarrow> child_serving fd ch1 \<and> ch_closes ch1 = ch_closes ch"
    "rv \<noteq> APR_SUCCESS \<longrightarrow> child_idle ch1 \<and> ch_closes ch1 = ch_closes ch @ (if reaches_engine (ce_listen E) then [fd] else [])"
    by (rule listen_start_ok [OF assms(7,8,1-4)])
  show thesis
  proof (cases "rv = APR_SUCCESS")
    case True
    then show ?thesis using s assms by (intro that [of ch1]) (auto simp: start_or_close_def run_then_def serving_def twice_def)
  next
    case False
    let ?ch = "ch1\<lparr>ch_closes := ch_closes ch1 @ [fd]\<rparr>"
    have "child_idle ?ch" "ch_closes ?ch = (if reaches_engine (ce_listen E) then [fd, fd] else [fd])"
      using s(6) False assms(5) by (simp_all add: child_idle_def)
    then show ?thesis using s False assms(6,7)
      by (intro that [of ?ch]) (auto simp: start_or_close_def run_then_def given_up_def twice_def h3_socket_close_def h3_socket_os_close_def)
  qed
qed

lemma port_acquire_ok:
  assumes fds: "\<forall>k. 0 \<le> ne_fd (ce_open E k)"
  shows "child_fresh ch \<Longrightarrow> k \<le> m \<Longrightarrow> m < k + f \<Longrightarrow> ce_stopping E (2 * m) \<Longrightarrow>
    \<exists>ch'. port_acquire_thread_fn E f conf k ch = Done ch' \<and> (given_up (ce_listen E) conf ch' \<or> serving ch')"
proof (induction f arbitrary: k ch)
  case (Suc f)
  obtain rv fd n where o: "h3_socket_open (ce_open E k) (ch_net ch) = ((rv, fd), n)" by (metis surj_pair)
  have fr: "open_socks (ch_net ch) = []" "ch_closes ch = []" "ch_res ch = no_res" "ch_pools ch = 0" "ch_threads ch = 0" "child_h3_io ch = None"
    using Suc(2) by (simp_all add: child_fresh_def)
  note c = socket_open_cases [OF fr(1) o]
  let ?ch = "ch\<lparr>ch_net := n\<rparr>" and ?fd = "ne_fd (ce_open E k)"
  consider (stop) "ce_stopping E (2 * k)" | (again) "\<not> ce_stopping E (2 * k)" "rv = APR_EAGAIN"
    | (fail) "\<not> ce_stopping E (2 * k)" "rv \<noteq> APR_EAGAIN" "rv \<noteq> APR_SUCCESS"
    | (late) "\<not> ce_stopping E (2 * k)" "rv = APR_SUCCESS" "ce_stopping E (2 * k + 1)"
    | (go) "\<not> ce_stopping E (2 * k)" "rv = APR_SUCCESS" "\<not> ce_stopping E (2 * k + 1)" by blast
  then show ?case
  proof cases
    case stop
    then show ?thesis using fresh_given_up [OF Suc(2)] by simp
  next
    case again
    have "k \<noteq> m" using again(1) Suc(5) by blast
    moreover have "child_fresh ?ch" using Suc(2) c again by (simp add: child_fresh_def)
    ultimately show ?thesis using Suc(1) [of ?ch "Suc k"] Suc(3-5) again o by simp
  next
    case fail
    have "child_fresh ?ch" using Suc(2) c fail by (simp add: child_fresh_def)
    then show ?thesis using fail o fresh_given_up by simp
  next
    case late
    have "given_up (ce_listen E) conf (?ch\<lparr>ch_closes := [?fd]\<rparr>)"
      using c late fds Suc(2) by (simp add: given_up_def child_idle_def child_fresh_def no_res_def)
    then show ?thesis using late o c fr(2) fds by (simp add: h3_socket_close_def h3_socket_os_close_def)
  next
    case go
    obtain ch' where "start_or_close E (Suc f) conf ?fd ?ch = Done ch'" "start_succeeds (ce_listen E) conf ?fd \<longrightarrow> serving ch'"
      "\<not> start_succeeds (ce_listen E) conf ?fd \<longrightarrow> given_up (ce_listen E) conf ch'"
      by (rule start_or_close_ok [of ?ch "ne_sock (ce_open E k)" ?fd "Suc f" E conf]) (use fr fds c go in simp_all)
    then show ?thesis using go o c by auto
  qed
qed simp

lemma child_init_ok:
  assumes "find_h3_server servers = Some (i, conf)" and "child_fresh ch" and "\<forall>k. 0 \<le> ne_fd (ce_open E k)" and "0 < fuel"
    and "\<not> port_acquire_thread ch"
  obtains ch' where "h3_child_init E fuel servers ch = Done ch'"
    and "port_acquire_thread ch' \<and> child_fresh ch' \<or> \<not> port_acquire_thread ch' \<and> (given_up (ce_listen E) conf ch' \<or> serving ch')"
    and "fst (fst (h3_socket_open (ce_open E 0) (ch_net ch))) = APR_SUCCESS \<and> twice (ce_listen E) conf (ne_fd (ce_open E 0)) \<longrightarrow>
      \<not> port_acquire_thread ch' \<and> given_up (ce_listen E) conf ch' \<and> ch_closes ch' = [ne_fd (ce_open E 0), ne_fd (ce_open E 0)]"
proof -
  obtain rv fd n where o: "h3_socket_open (ce_open E 0) (ch_net ch) = ((rv, fd), n)" by (metis surj_pair)
  have fr: "open_socks (ch_net ch) = []" "ch_closes ch = []" "ch_res ch = no_res" "ch_pools ch = 0" "ch_threads ch = 0" "child_h3_io ch = None"
    using assms(2) by (simp_all add: child_fresh_def)
  note c = socket_open_cases [OF fr(1) o]
  let ?ch = "ch\<lparr>ch_net := n\<rparr>" and ?fd = "ne_fd (ce_open E 0)"
  show thesis
  proof (cases "rv = APR_SUCCESS")
    case True
    obtain ch' where s: "start_or_close E fuel conf ?fd ?ch = Done ch'" "port_acquire_thread ch' = port_acquire_thread ?ch"
      "start_succeeds (ce_listen E) conf ?fd \<longrightarrow> serving ch'" "\<not> start_succeeds (ce_listen E) conf ?fd \<longrightarrow> given_up (ce_listen E) conf ch'"
      "twice (ce_listen E) conf ?fd \<longrightarrow> ch_closes ch' = [?fd, ?fd]"
      by (rule start_or_close_ok [of ?ch "ne_sock (ce_open E 0)" ?fd fuel E conf]) (use fr assms(3,4) c True in simp_all)
    show ?thesis by (rule that [of ch']) (use s True o c assms(1,5) in \<open>auto simp: h3_child_init_def twice_def\<close>)
  next
    case False
    have f1: "child_fresh (?ch\<lparr>port_acquire_thread := b\<rparr>)" "child_fresh ?ch" for b
      using assms(2) c False by (simp_all add: child_fresh_def)
    have "h3_child_init E fuel servers ch = Done (if rv = APR_EAGAIN then ?ch\<lparr>port_acquire_thread := (ce_attr E \<and> ce_thread E)\<rparr> else ?ch)"
      using False o assms(1) by (simp add: h3_child_init_def)
    then show ?thesis
      by (rule that) (use f1 fresh_given_up o False assms(5) in auto)
  qed
qed

lemma child_stopping_simps [simp]:
  "child_fresh (ch\<lparr>child_stopping := b\<rparr>) = child_fresh ch" "given_up E conf (ch\<lparr>child_stopping := b\<rparr>) = given_up E conf ch"
  "serving (ch\<lparr>child_stopping := b\<rparr>) = serving ch" "given_up E conf (ch\<lparr>port_acquire_thread := b\<rparr>) = given_up E conf ch"
  "serving (ch\<lparr>port_acquire_thread := b\<rparr>) = serving ch"
  by (simp_all add: child_fresh_def given_up_def serving_def child_idle_def child_serving_def)

lemma serving_not_given_up: "serving ch \<Longrightarrow> \<not> given_up E conf ch"
  by (auto simp: serving_def given_up_def child_idle_def child_serving_def)

lemma child_stopping_ok:
  assumes st: "port_acquire_thread ch \<and> child_fresh ch \<or> \<not> port_acquire_thread ch \<and> (given_up (ce_listen E) conf ch \<or> serving ch)"
    and "ran_law (ce_listen E)" and "\<forall>k. 0 \<le> ne_fd (ce_open E k)" and "1 \<le> m" and "m \<le> fuel" and "ce_stopping E (2 * m)"
  obtains ch' where "h3_c1_child_stopping E fuel conf ch = Done ch'" and "given_up (ce_listen E) conf ch'" and "\<not> port_acquire_thread ch'"
    and "\<not> port_acquire_thread ch \<and> given_up (ce_listen E) conf ch \<longrightarrow> ch_closes ch' = ch_closes ch"
proof -
  let ?ch = "ch\<lparr>child_stopping := True\<rparr>"
  let ?join = "if port_acquire_thread ?ch
    then run_then (port_acquire_thread_fn E fuel conf 1 ?ch) (\<lambda>ch2. Done (ch2\<lparr>port_acquire_thread := False\<rparr>)) else Done ?ch"
  have "\<exists>ch3. ?join = Done ch3 \<and> \<not> port_acquire_thread ch3 \<and> (given_up (ce_listen E) conf ch3 \<or> serving ch3) \<and>
      (\<not> port_acquire_thread ch \<longrightarrow> ch3 = ?ch)"
  proof (cases "port_acquire_thread ch")
    case True
    then have f: "child_fresh ?ch" using st by simp
    have "m < 1 + fuel" using assms(5) by simp
    from port_acquire_ok [OF assms(3) f assms(4) this assms(6), of conf] True show ?thesis by (auto simp: run_then_def)
  qed (use st in auto)
  then obtain ch3 where j: "?join = Done ch3" "\<not> port_acquire_thread ch3" "given_up (ce_listen E) conf ch3 \<or> serving ch3"
    "\<not> port_acquire_thread ch \<longrightarrow> ch3 = ?ch" by blast
  have r: "h3_c1_child_stopping E fuel conf ch = h3_io_listen_stop (ce_listen E) fuel (child_h3_io ch3) ch3"
    unfolding h3_c1_child_stopping_def Let_def j(1) by (simp add: run_then_def)
  show thesis
  proof (cases "serving ch3")
    case True
    then obtain sock fd where s: "open_socks (ch_net ch3) = [sock]" "0 \<le> fd" "child_serving fd ch3" "ch_closes ch3 = []" by (auto simp: serving_def)
    have fu: "0 < fuel" using assms(4,5) by simp
    obtain ch4 where q: "h3_io_listen_stop (ce_listen E) fuel (child_h3_io ch3) ch3 = Done ch4" "child_idle ch4" "ch_closes ch4 = ch_closes ch3 @ [fd]"
      "ch_net ch4 = ch_net ch3" "port_acquire_thread ch4 = port_acquire_thread ch3" by (rule listen_stop_ok [OF s(3) assms(2) s(2) fu])
    have "given_up (ce_listen E) conf ch4" using q s by (simp add: given_up_def)
    then show ?thesis by (rule that [of ch4, rotated]) (use q r j(2,4) serving_not_given_up [OF True] in auto)
  next
    case False
    then have g: "given_up (ce_listen E) conf ch3" using j(3) by simp
    then have "child_h3_io ch3 = None" by (simp add: given_up_def child_idle_def)
    then show ?thesis using g r j(2,4) by (intro that [of ch3]) (auto simp: h3_io_listen_stop_def)
  qed
qed

section \<open>Correctness\<close>

text \<open>
  C39: From the start of a child to its stop nothing is left behind: whichever call fails and
  however often the port is taken, the hooks and the thread that waits for the port return,
  and at the end every OpenSSL object, worker pool and event thread is gone, and a descriptor
  is closed if and only if one was obtained. It is closed once unless the start fails after
  the worker pool was created; then it is always closed twice, by the failed start and again
  by its caller.
\<close>

theorem child_life_balanced:
  assumes "find_h3_server servers = Some (i, conf)" and "child_fresh ch" and "\<not> port_acquire_thread ch" and "ran_law (ce_listen E)"
    and "\<forall>k. 0 \<le> ne_fd (ce_open E k)" and "1 \<le> m" and "m \<le> fuel" and "ce_stopping E (2 * m)"
  shows "\<exists>ch'. child_life E fuel servers ch = Done ch' \<and> child_idle ch' \<and> \<not> port_acquire_thread ch' \<and>
    (open_socks (ch_net ch') = [] \<and> ch_closes ch' = [] \<or>
     (\<exists>sock fd. open_socks (ch_net ch') = [sock] \<and> (ch_closes ch' = [fd] \<or> ch_closes ch' = [fd, fd] \<and> twice (ce_listen E) conf fd))) \<and>
    (fst (fst (h3_socket_open (ce_open E 0) (ch_net ch))) = APR_SUCCESS \<and> twice (ce_listen E) conf (ne_fd (ce_open E 0)) \<longrightarrow>
       ch_closes ch' = [ne_fd (ce_open E 0), ne_fd (ce_open E 0)])"
proof -
  have fu: "0 < fuel" using assms(6,7) by simp
  obtain ch1 where i: "h3_child_init E fuel servers ch = Done ch1"
    "port_acquire_thread ch1 \<and> child_fresh ch1 \<or> \<not> port_acquire_thread ch1 \<and> (given_up (ce_listen E) conf ch1 \<or> serving ch1)"
    "fst (fst (h3_socket_open (ce_open E 0) (ch_net ch))) = APR_SUCCESS \<and> twice (ce_listen E) conf (ne_fd (ce_open E 0)) \<longrightarrow>
      \<not> port_acquire_thread ch1 \<and> given_up (ce_listen E) conf ch1 \<and> ch_closes ch1 = [ne_fd (ce_open E 0), ne_fd (ce_open E 0)]"
    by (rule child_init_ok [OF assms(1,2,5) fu assms(3)])
  obtain ch2 where s: "h3_c1_child_stopping E fuel conf ch1 = Done ch2" "given_up (ce_listen E) conf ch2" "\<not> port_acquire_thread ch2"
    "\<not> port_acquire_thread ch1 \<and> given_up (ce_listen E) conf ch1 \<longrightarrow> ch_closes ch2 = ch_closes ch1"
    by (rule child_stopping_ok [OF i(2) assms(4-8)])
  have "child_life E fuel servers ch = Done ch2" using i(1) s(1) assms(1) by (simp add: child_life_def run_then_def)
  moreover have "fst (fst (h3_socket_open (ce_open E 0) (ch_net ch))) = APR_SUCCESS \<and> twice (ce_listen E) conf (ne_fd (ce_open E 0)) \<longrightarrow>
      ch_closes ch2 = [ne_fd (ce_open E 0), ne_fd (ce_open E 0)]" using i(3) s(4) by auto
  ultimately show ?thesis using s(2,3) by (auto simp: given_up_def)
qed

definition wit_child :: child where
  "wit_child = \<lparr>ch_net = \<lparr>open_socks = [], closed_socks = [], dual_stack = [], nonblocking = []\<rparr>, ch_closes = [], ch_res = no_res,
     ch_pools = 0, ch_threads = 0, child_h3_io = None, child_stopping = False, port_acquire_thread = False\<rparr>"

text \<open>A child whose engine cannot be created because the certificate is not readable.\<close>

definition wit_child_env :: child_env where
  "wit_child_env = \<lparr>ce_open = (\<lambda>k. wit_open_env\<lparr>ne_bind := APR_SUCCESS, ne_fd := 9\<rparr>), ce_stopping = (\<lambda>k. True),
     ce_listen = \<lparr>li_wakeup = (\<lambda>x. APR_SUCCESS), li_reader = 4, li_writer = 5, li_reader_fd = 6, li_pool = True,
       li_engine = wit_engine_env\<lparr>cert_ok := False\<rparr>, li_notes = True, li_attr = True, li_thread = True, li_ran = id\<rparr>,
     ce_attr = True, ce_thread = True\<rparr>"

theorem child_life_balanced_witness:
  "\<exists>ch'. child_life wit_child_env 3 [\<lparr>sr_addrs = [443], sr_conf = wit_conf\<rparr>] wit_child = Done ch' \<and> child_idle ch' \<and> ch_closes ch' = [9, 9]"
proof -
  let ?srv = "[\<lparr>sr_addrs = [443], sr_conf = wit_conf\<rparr>]"
  obtain conf where c: "find_h3_server ?srv = Some (0, conf)" by (simp add: wit_conf_def)
  have fr: "child_fresh wit_child" "\<not> port_acquire_thread wit_child" by (simp_all add: child_fresh_def wit_child_def)
  have l: "ran_law (ce_listen wit_child_env)" "\<forall>k. 0 \<le> ne_fd (ce_open wit_child_env k)" "ce_stopping wit_child_env (2 * 1)"
    by (simp_all add: ran_law_def wit_child_env_def)
  have o: "fst (fst (h3_socket_open (ce_open wit_child_env 0) (ch_net wit_child))) = APR_SUCCESS" "ne_fd (ce_open wit_child_env 0) = 9"
    by (simp_all add: h3_socket_open_def wit_child_env_def wit_open_env_def Let_def)
  have "reaches_engine (ce_listen wit_child_env)"
    by (simp add: reaches_engine_def wit_child_env_def h3_wakeup_create_def wakeup_plan_def)
  moreover have "\<not> start_succeeds (ce_listen wit_child_env) conf 9"
    by (simp add: start_succeeds_def wit_child_env_def create_defs wit_engine_env_def)
  ultimately have t: "twice (ce_listen wit_child_env) conf 9" by (simp add: twice_def)
  have "1 \<le> (1 :: nat)" "(1 :: nat) \<le> 3" by simp_all
  from child_life_balanced [OF c fr l(1,2) this l(3)] o t show ?thesis by auto
qed

end
