(* ===== verification/Spec2Isabelle.thy ===== *)
theory Spec2Isabelle
  imports H3_Config Quic_Engine H3_Session H3_Worker H3_Hooks H3_Socket H3_Service H3_Server
begin

text \<open>
  Verification of mod_http3, a module that lets the Apache HTTP server answer HTTP/3 requests.
  All file names are relative to \<^verbatim>\<open>src/mod_http3\<close>.

  \<^bold>\<open>The program.\<close> A child process of the server opens one UDP socket and runs one event
  thread. OpenSSL's QUIC listener turns datagrams into connections; each connection becomes a
  session with an nghttp3 connection, which parses what the QUIC streams deliver and produces
  what is to be sent. A complete request is handed to a pool thread, which builds an httpd
  request, runs httpd's handlers behind the module's filters, and appends the response to a
  bounded queue of its stream. The event thread takes the queue's data to nghttp3 and the QUIC
  stream. Event thread and workers share a session under its lock.

  \<^bold>\<open>The theories.\<close>
  \<^item> \<open>H3_Prelude\<close>: words, heaps of blocks with addresses (\<open>deref\<close> of a freed block is \<open>None\<close>),
    the results of loops (\<open>c_run\<close>: a value, undefined behaviour, or out of fuel), interaction
    trees for library functions that call back, and the two interfaces shared by the
    components: \<open>fifo_contract\<close> for linked queues and \<open>callback_contract\<close> for callbacks.
  \<^item> \<open>H3_Config\<close>: directives, defaults, merging and the checks at start-up
    (\<^verbatim>\<open>src/h3_config.c\<close>), and the choice of the virtual host (\<^verbatim>\<open>src/h3_server.c\<close>).
  \<^item> \<open>Quic_Addr\<close>, \<open>Quic_Stream\<close>, \<open>Quic_Engine\<close>: the wrappers of OpenSSL's QUIC interface
    (\<^verbatim>\<open>src/quic\<close>): the filter that remembers each datagram's sender, streams and connections,
    and the life of the listening engine with its event pump.
  \<^item> \<open>H3_Types\<close>, \<open>H3_Response\<close>: the session and stream records, and the response queue
    (\<^verbatim>\<open>src/h3_session.c\<close>).
  \<^item> \<open>H3_Callbacks\<close>, \<open>H3_Stream\<close>, \<open>H3_Session\<close>: the nghttp3 callbacks, the loops that read
    and send, reclaiming of streams, and creation and destruction of sessions.
  \<^item> \<open>H3_Reply\<close>, \<open>H3_Filter\<close>, \<open>H3_Hooks\<close>, \<open>H3_Socket\<close>: building the response field section,
    the input and output filters, the httpd hooks, the socket and the wakeup pair.
  \<^item> \<open>H3_Worker\<close>, \<open>H3_Request\<close>: the worker of a request with httpd as an interaction tree, the
    synthetic connection, and handing a request over (\<^verbatim>\<open>src/h3_request.c\<close>).
  \<^item> \<open>H3_Dispatch\<close>, \<open>H3_Quiet\<close>, \<open>H3_Service\<close>: the session with its event thread and workers as
    a step relation, and the event thread's pass over a session (\<^verbatim>\<open>src/h3_io.c\<close>) as an
    executable function that refines it.
  \<^item> \<open>H3_Server\<close>: the start and stop of a child process with its listener (\<^verbatim>\<open>src/h3_server.c\<close>,
    \<^verbatim>\<open>src/h3_io.c\<close>).

  \<^bold>\<open>The state.\<close> A C structure is a record. Streams live in the arena \<open>objs\<close> of their session
  and a pointer to a stream is its index; a stream's response chunks live in a heap of their
  own. \<open>world\<close> is a session with these heaps, OpenSSL's state, and the handles freed and
  streams reclaimed so far, so that a double free is a duplicate in a list. Reading a freed
  block, a failed \<^verbatim>\<open>CHECK\<close> or leaving a buffer makes an operation return \<open>None\<close> or \<open>Undefined\<close>;
  the safety theorems show that this never happens. C integers are words of their width.

  \<^bold>\<open>Libraries.\<close> OpenSSL, nghttp3, APR and httpd are arguments: records of the functions the
  code calls, over a state type of the library's own. What is relied on of them is a named
  predicate (\<open>ssl_write_law\<close>, \<open>ng_law\<close>, \<open>ng_progress\<close>, \<open>table_law\<close>, \<open>accept_law\<close> and others),
  and each theorem that assumes one has a witness with a concrete instance. nghttp3's view of a
  session is an arbitrary relation \<open>R\<close> that its calls keep.

  \<^bold>\<open>What is shown.\<close>
  \<^item> The response queue: under every interleaving of its operations data is handed over in
    order, counted exactly and within the limit; a waiting worker is woken; appending returns;
    cleaning up frees everything once.
  \<^item> The datagram filter and the wrappers: batches are delivered in order with their sender,
    writes send a prefix of what was offered, the pump ends, timeouts are bounded, the engine
    releases on every error path exactly what it acquired.
  \<^item> Configuration: what start-up accepts is in range and complete, merging is lawful, and
    start-up and child initialisation agree on the virtual host.
  \<^item> Callbacks, reading and sending: every call keeps the session well formed, bodies are
    collected exactly up to the limit, a pass over the streams and a flush end and are defined.
  \<^item> Requests: the field section equals its specification, bodies are served once, responses
    are captured or streamed in order, the worker answers each request once on every path.
  \<^item> Threads: whatever the interleaving, no worker uses a stream that was given up, no request
    has two workers, and the session outlives its workers; the event thread's pass over a
    session returns and refines these steps.
  \<^item> The child: from start to stop everything acquired is released, whichever call fails; the
    theorem also pins down the one error path that closes the socket's descriptor twice.

  \<^bold>\<open>Bounds and fuel.\<close> Loops that the code bounds are recursive on that bound. The doubling loop
  of the body buffer has fuel 65, one more than the width of its counter. The send loop, the
  append loop, the event pump and the accept loop have fuel as an argument, and theorems state
  how much is enough: the work nghttp3 can still offer plus the number of tracked streams, the
  bytes to append plus the rounds until room is made, the datagrams waiting, and the streams
  the peer may still open.

  \<^bold>\<open>Not modelled.\<close> The rest of the event thread: accepting connections and handshakes. Registration of hooks (\<^verbatim>\<open>src/mod_http3.c\<close>), a table of names. Log
  lines, the TLS key log and the text of a connection's close reason, which only write
  messages. The platform headers, the build files, the examples and the tests.
\<close>

end
